(* ===== verification/Xv6_Prelude.thy ===== *)
theory Xv6_Prelude
  imports Main "HOL-Library.Word"
begin

text \<open>
  Shared vocabulary of the development: the machine integer types of \<^verbatim>\<open>types.h\<close>, the
  constants of \<^verbatim>\<open>param.h\<close>, \<^verbatim>\<open>mmu.h\<close>, \<^verbatim>\<open>memlayout.h\<close> and \<^verbatim>\<open>fs.h\<close>, little-endian access
  to byte memory, the sleep channels, and the outcome type of kernel operations.

  Conventions. A C \<^verbatim>\<open>uint\<close>, \<^verbatim>\<open>ushort\<close> or \<^verbatim>\<open>uchar\<close> is a word of its width and wraps; a C \<^verbatim>\<open>int\<close>
  is a HOL \<open>int\<close> (signed overflow is undefined in C, so the two agree on every defined run); a
  pointer into a kernel table is the index of the entry, and a null pointer is \<open>None\<close>; a pointer
  into memory is a \<^verbatim>\<open>uint\<close> address.
  A kernel operation maps a state to an outcome: it returns a value and a new state, it puts the
  calling process to sleep on a channel, or it stops with a panic or with undefined behaviour of
  C (an access outside an array, a null dereference).
\<close>

unbundle bit_operations_syntax

named_theorems kernel_simps \<open>equations that run kernel operations\<close>
named_theorems ok_intros \<open>rules for operations that return\<close>

subsection \<open>Machine integers and constants\<close>

type_synonym uint = "32 word"
type_synonym ushort = "16 word"
type_synonym uchar = "8 word"

definition NPROC :: nat where "NPROC = 64"
definition KSTACKSIZE :: uint where "KSTACKSIZE = 4096"
definition NOFILE :: nat where "NOFILE = 16"
definition NFILE :: nat where "NFILE = 100"
definition NINODE :: nat where "NINODE = 50"
definition NDEV :: nat where "NDEV = 10"
definition ROOTDEV :: uint where "ROOTDEV = 1"
definition MAXARG :: nat where "MAXARG = 32"
definition MAXOPBLOCKS :: nat where "MAXOPBLOCKS = 10"
definition LOGSIZE :: nat where "LOGSIZE = MAXOPBLOCKS * 3"
definition NBUF :: nat where "NBUF = MAXOPBLOCKS * 3"
definition FSSIZE :: nat where "FSSIZE = 1000"

lemmas param_defs = NPROC_def NOFILE_def NFILE_def NINODE_def NDEV_def MAXARG_def
  MAXOPBLOCKS_def LOGSIZE_def NBUF_def FSSIZE_def

lemma unat_of_nat_small: "n < 2 ^ 32 \<Longrightarrow> unat (of_nat n :: uint) = n"
  by (simp add: unat_of_nat take_bit_nat_eq_self)

lemma unat_add_mod: "unat (a + b :: uint) = (unat a + unat b) mod 2 ^ 32"
  by (simp add: unat_word_ariths)

lemma unat_uint_less [simp]: "unat (x :: uint) < 4294967296"
  using unsigned_less[of x, where 'a = nat] by simp

lemma unat_uint_le [simp]: "unat (x :: uint) \<le> 4294967296"
  by (rule less_imp_le) (rule unat_uint_less)

subsection \<open>Sleep channels\<close>

text \<open>
  A channel is the address of a kernel object. The objects that some process sleeps on are the
  entries of the process table (\<^verbatim>\<open>wait\<close>), the sleep locks of buffers and inodes, the log, the tick
  counter, the two ends of a pipe, the console input buffer and the buffers queued at the disk.
\<close>

datatype chan =
    Chan_proc nat
  | Chan_buflock nat
  | Chan_inodelock nat
  | Chan_buf nat
  | Chan_log
  | Chan_ticks
  | Chan_nread uint
  | Chan_nwrite uint
  | Chan_input

subsection \<open>Outcomes and kernel operations\<close>

datatype fault = Panic string | Undef string

datatype ('a, 's) outcome = Ret 'a 's | Sleep chan 's | Fault fault

type_synonym ('a, 's) kernel = "'s \<Rightarrow> ('a, 's) outcome"

abbreviation kret :: "'a \<Rightarrow> ('a, 's) kernel" where
  "kret \<equiv> Ret"

definition kbind :: "('a, 's) kernel \<Rightarrow> ('a \<Rightarrow> ('b, 's) kernel) \<Rightarrow> ('b, 's) kernel" where
  "kbind f g s = (case f s of Ret x t \<Rightarrow> g x t | Sleep c t \<Rightarrow> Sleep c t | Fault e \<Rightarrow> Fault e)"

definition kget :: "('s \<Rightarrow> 'a) \<Rightarrow> ('a, 's) kernel" where
  "kget f s = Ret (f s) s"

definition kmod :: "('s \<Rightarrow> 's) \<Rightarrow> (unit, 's) kernel" where
  "kmod f s = Ret () (f s)"

definition kpanic :: "string \<Rightarrow> ('a, 's) kernel" where
  "kpanic m s = Fault (Panic m)"

definition kundef :: "string \<Rightarrow> ('a, 's) kernel" where
  "kundef m s = Fault (Undef m)"

definition kwhen :: "bool \<Rightarrow> (unit, 's) kernel \<Rightarrow> (unit, 's) kernel" where
  "kwhen b f = (if b then f else kret ())"

text \<open>A counting loop without a \<^verbatim>\<open>break\<close>: the body runs once for each index.\<close>

primrec kfor :: "'i list \<Rightarrow> ('i \<Rightarrow> (unit, 's) kernel) \<Rightarrow> (unit, 's) kernel" where
  "kfor [] f = kret ()"
| "kfor (i # is) f = kbind (f i) (\<lambda>_. kfor is f)"

lemma kbind_cong [fundef_cong]:
  assumes "s = s'" and "f s' = f' s'" and "\<And>x t. f' s' = Ret x t \<Longrightarrow> g x t = g' x t"
  shows "kbind f g s = kbind f' g' s'"
  using assms by (auto simp: kbind_def split: outcome.splits)

lemma kget_run [simp, kernel_simps]: "kget f s = Ret (f s) s"
  by (simp add: kget_def)

lemma kmod_run [simp, kernel_simps]: "kmod f s = Ret () (f s)"
  by (simp add: kmod_def)

lemma kpanic_run [simp, kernel_simps]: "kpanic m s = Fault (Panic m)"
  by (simp add: kpanic_def)

lemma kundef_run [simp, kernel_simps]: "kundef m s = Fault (Undef m)"
  by (simp add: kundef_def)

lemma kbind_Ret [kernel_simps]: "f s = Ret x t \<Longrightarrow> kbind f g s = g x t"
  by (simp add: kbind_def)

lemma kbind_kret [simp, kernel_simps]: "kbind (kret x) g = g x"
  by (rule ext) (simp add: kbind_def)

lemma kbind_kget [simp, kernel_simps]: "kbind (kget f) g s = g (f s) s"
  by (simp add: kbind_def)

lemma kbind_kmod [simp, kernel_simps]: "kbind (kmod f) g s = g () (f s)"
  by (simp add: kbind_def)

lemma kbind_kpanic [simp, kernel_simps]: "kbind (kpanic m) g = kpanic m"
  by (rule ext) (simp add: kbind_def)

lemma kbind_kundef [simp, kernel_simps]: "kbind (kundef m) g = kundef m"
  by (rule ext) (simp add: kbind_def)

lemma kbind_if [kernel_simps]:
  "kbind (if b then f else f') g s = (if b then kbind f g s else kbind f' g s)"
  by simp

lemma kwhen_simps [simp, kernel_simps]: "kwhen True f = f" "kwhen False f = kret ()"
  by (simp_all add: kwhen_def)

lemma kbind_assoc: "kbind (kbind f g) h = kbind f (\<lambda>x. kbind (g x) h)"
  by (rule ext) (simp add: kbind_def split: outcome.splits)

lemma kbind_Ret_iff:
  "kbind f g s = Ret y u \<longleftrightarrow> (\<exists>x t. f s = Ret x t \<and> g x t = Ret y u)"
  by (auto simp: kbind_def split: outcome.splits)

subsection \<open>Operations that return\<close>

text \<open>
  \<open>ok f s Q\<close>: from \<open>s\<close> the operation \<open>f\<close> returns (it neither sleeps nor faults) and its result
  satisfies \<open>Q\<close>. \<open>safe f s Q\<close> also allows it to put the caller to sleep.
\<close>

definition ok :: "('a, 's) kernel \<Rightarrow> 's \<Rightarrow> ('a \<Rightarrow> 's \<Rightarrow> bool) \<Rightarrow> bool" where
  "ok f s Q \<longleftrightarrow> (\<exists>x t. f s = Ret x t \<and> Q x t)"

definition safe :: "('a, 's) kernel \<Rightarrow> 's \<Rightarrow> ('a \<Rightarrow> 's \<Rightarrow> bool) \<Rightarrow> ('s \<Rightarrow> bool) \<Rightarrow> bool" where
  "safe f s Q R \<longleftrightarrow> (case f s of Ret x t \<Rightarrow> Q x t | Sleep c t \<Rightarrow> R t | Fault e \<Rightarrow> False)"

lemma okI: "f s = Ret x t \<Longrightarrow> Q x t \<Longrightarrow> ok f s Q"
  by (auto simp: ok_def)

lemma ok_bind [ok_intros]: "ok f s (\<lambda>x t. ok (g x) t Q) \<Longrightarrow> ok (kbind f g) s Q"
  by (auto simp: ok_def kbind_Ret_iff)

lemma ok_bind_iff: "ok (kbind f g) s Q \<longleftrightarrow> ok f s (\<lambda>x t. ok (g x) t Q)"
  by (auto simp: ok_def kbind_Ret_iff)

lemma ok_kret [simp]: "ok (kret x) s Q \<longleftrightarrow> Q x s"
  by (simp add: ok_def)

lemma ok_kget [simp]: "ok (kget f) s Q \<longleftrightarrow> Q (f s) s"
  by (simp add: ok_def)

lemma ok_kmod [simp]: "ok (kmod f) s Q \<longleftrightarrow> Q () (f s)"
  by (simp add: ok_def)

lemma ok_kpanic [simp]: "\<not> ok (kpanic m) s Q"
  by (simp add: ok_def)

lemma ok_mono: "ok f s Q \<Longrightarrow> (\<And>x t. Q x t \<Longrightarrow> Q' x t) \<Longrightarrow> ok f s Q'"
  by (auto simp: ok_def)

lemma ok_RetD: "ok f s Q \<Longrightarrow> f s = Ret x t \<Longrightarrow> Q x t"
  by (auto simp: ok_def)

lemma ok_kfor:
  assumes "I 0 s"
    and "\<And>k t. k < length is \<Longrightarrow> I k t \<Longrightarrow> ok (f (is ! k)) t (\<lambda>_. I (Suc k))"
  shows "ok (kfor is f) s (\<lambda>_. I (length is))"
  using assms
proof (induction "is" arbitrary: s I)
  case Nil
  then show ?case by simp
next
  case (Cons i "is")
  have first: "ok (f i) s (\<lambda>_. I (Suc 0))"
    using Cons.prems(2)[of 0 s] Cons.prems(1) by simp
  have rest: "ok (kfor is f) t (\<lambda>_. I (Suc (length is)))" if "I (Suc 0) t" for t
  proof (rule Cons.IH[where I = "\<lambda>k. I (Suc k)"])
    show "I (Suc 0) t" by (fact that)
  next
    fix k u
    assume "k < length is" and "I (Suc k) u"
    then show "ok (f (is ! k)) u (\<lambda>_. I (Suc (Suc k)))"
      using Cons.prems(2)[of "Suc k" u] by simp
  qed
  show ?case
    by (simp, rule ok_bind, rule ok_mono[OF first]) (auto intro: rest)
qed

lemma safe_bind:
  "safe f s (\<lambda>x t. safe (g x) t Q R) R \<Longrightarrow> safe (kbind f g) s Q R"
  by (auto simp: safe_def kbind_def split: outcome.splits)

lemma safe_simps [simp]:
  "safe (kret x) s Q R = Q x s" "safe (kget f) s Q1 R = Q1 (f s) s"
  "safe (kmod h) s Q0 R = Q0 () (h s)" "\<not> safe (kpanic m) s Q2 R" "\<not> safe (kundef m) s Q3 R"
  by (simp_all add: safe_def)

lemma safe_mono:
  "safe f s Q R \<Longrightarrow> (\<And>x t. Q x t \<Longrightarrow> Q' x t) \<Longrightarrow> (\<And>t. R t \<Longrightarrow> R' t) \<Longrightarrow> safe f s Q' R'"
  by (auto simp: safe_def split: outcome.splits)

subsection \<open>Operations without undefined behaviour\<close>

text \<open>
  \<open>sound f s Q R\<close>: from \<open>s\<close> the operation \<open>f\<close> has no undefined behaviour; if it returns, \<open>Q\<close> holds of the
  result and the state, if it sleeps, \<open>R\<close> holds of the channel and the state; it may panic.
\<close>

definition sound :: "('a, 's) kernel \<Rightarrow> 's \<Rightarrow> ('a \<Rightarrow> 's \<Rightarrow> bool) \<Rightarrow> (chan \<Rightarrow> 's \<Rightarrow> bool) \<Rightarrow> bool" where
  "sound f s Q R \<longleftrightarrow> (case f s of Ret x t \<Rightarrow> Q x t | Sleep c t \<Rightarrow> R c t | Fault e \<Rightarrow> (\<exists>m. e = Panic m))"

lemma sound_bind: "sound f s (\<lambda>x t. sound (g x) t Q R) R \<Longrightarrow> sound (kbind f g) s Q R"
  by (auto simp: sound_def kbind_def split: outcome.splits)

lemma sound_simps [simp]:
  "sound (kret x) s Q R = Q x s" "sound (kget f) s Q1 R = Q1 (f s) s"
  "sound (kmod h) s Q0 R = Q0 () (h s)" "sound (kpanic m) s Q2 R" "\<not> sound (kundef m) s Q3 R"
  by (simp_all add: sound_def)

lemma sound_mono:
  "sound f s Q R \<Longrightarrow> (\<And>x t. Q x t \<Longrightarrow> Q' x t) \<Longrightarrow> (\<And>c t. R c t \<Longrightarrow> R' c t) \<Longrightarrow> sound f s Q' R'"
  by (auto simp: sound_def split: outcome.splits)

lemma sound_RetD: "sound f s Q R \<Longrightarrow> f s = Ret x t \<Longrightarrow> Q x t"
  by (simp add: sound_def)

lemma sound_SleepD: "sound f s Q R \<Longrightarrow> f s = Sleep c t \<Longrightarrow> R c t"
  by (simp add: sound_def)

lemma sound_kfor:
  assumes "I s" and "\<And>i t. i \<in> set is \<Longrightarrow> I t \<Longrightarrow> sound (f i) t (\<lambda>_. I) R"
  shows "sound (kfor is f) s (\<lambda>_. I) R"
  using assms
proof (induction "is" arbitrary: s)
  case (Cons i "is")
  have "sound (f i) s (\<lambda>_ t. sound (kfor is f) t (\<lambda>_. I) R) R"
    by (rule sound_mono[OF Cons.prems(2)[of i s]]) (use Cons in auto)
  then show ?case by (simp add: sound_bind)
qed simp

lemma sound_kfor_upt:
  assumes "I a s" and "a \<le> b"
    and "\<And>k t. a \<le> k \<Longrightarrow> k < b \<Longrightarrow> I k t \<Longrightarrow> sound (f k) t (\<lambda>_. I (Suc k)) R"
  shows "sound (kfor [a..<b] f) s (\<lambda>_. I b) R"
  using assms
proof (induction "b - a" arbitrary: a s)
  case 0
  then show ?case by simp
next
  case (Suc n)
  then have ab: "a < b" by simp
  have "sound (f a) s (\<lambda>_ t. sound (kfor [Suc a..<b] f) t (\<lambda>_. I b) R) R"
  proof (rule sound_mono[OF Suc.prems(3)])
    fix t
    assume t: "I (Suc a) t"
    have n: "n = b - Suc a" "Suc a \<le> b" using Suc.hyps(2) ab by auto
    show "sound (kfor [Suc a..<b] f) t (\<lambda>_. I b) R"
      by (rule Suc.hyps(1)[OF n(1) t n(2)]) (use Suc.prems(3) in auto)
  qed (use Suc.prems ab in auto)
  then show ?case using ab by (simp add: upt_conv_Cons sound_bind)
qed

lemma sound_Ret: "f s = Ret x t \<Longrightarrow> sound f s Q R \<longleftrightarrow> Q x t"
  by (simp add: sound_def)

end
