(* ===== verification/Xv6_Memory.thy ===== *)
theory Xv6_Memory
  imports Xv6_Prelude
begin

text \<open>
  Byte memory and the address arithmetic of \<^verbatim>\<open>mmu.h\<close> and \<^verbatim>\<open>memlayout.h\<close>. Kernel memory is a
  function from 32-bit addresses to bytes; a C access of a \<^verbatim>\<open>uint\<close> reads or writes four bytes in
  little-endian order. Arrays of bytes that the kernel keeps in its own tables (the data of a
  disk buffer, the bytes of a name) are lists, with the same accessors at an offset.
\<close>

type_synonym memory = "uint \<Rightarrow> uchar"

subsection \<open>Little-endian access\<close>

definition word_of_bytes :: "uchar \<Rightarrow> uchar \<Rightarrow> uchar \<Rightarrow> uchar \<Rightarrow> uint" where
  "word_of_bytes b0 b1 b2 b3 =
     ucast b0 OR push_bit 8 (ucast b1) OR
     push_bit 16 (ucast b2) OR push_bit 24 (ucast b3)"

definition byte_of :: "nat \<Rightarrow> uint \<Rightarrow> uchar" where
  "byte_of k v = ucast (drop_bit (8 * k) v)"

lemma word_of_bytes_of [simp]:
  "word_of_bytes (byte_of 0 v) (byte_of (Suc 0) v) (byte_of 2 v) (byte_of 3 v) = v"
proof (rule bit_word_eqI)
  fix n
  assume "n < LENGTH(32)"
  then consider "n < 8" | "8 \<le> n" "n < 16" | "16 \<le> n" "n < 24" | "24 \<le> n" "n < 32"
    by fastforce
  then show "bit (word_of_bytes (byte_of 0 v) (byte_of (Suc 0) v) (byte_of 2 v) (byte_of 3 v)) n
      \<longleftrightarrow> bit v n"
    by cases (auto simp: word_of_bytes_def byte_of_def bit_simps)
qed

lemma byte_of_word_of_bytes [simp]:
  "byte_of 0 (word_of_bytes a b c d) = a" "byte_of (Suc 0) (word_of_bytes a b c d) = b"
  "byte_of 2 (word_of_bytes a b c d) = c" "byte_of 3 (word_of_bytes a b c d) = d"
  by (rule bit_word_eqI;
      auto simp: word_of_bytes_def byte_of_def bit_simps dest: bit_imp_le_length)+

definition read32 :: "memory \<Rightarrow> uint \<Rightarrow> uint" where
  "read32 m a = word_of_bytes (m a) (m (a + 1)) (m (a + 2)) (m (a + 3))"

definition write32 :: "memory \<Rightarrow> uint \<Rightarrow> uint \<Rightarrow> memory" where
  "write32 m a v =
     m(a := byte_of 0 v, a + 1 := byte_of 1 v, a + 2 := byte_of 2 v, a + 3 := byte_of 3 v)"

definition write16 :: "memory \<Rightarrow> uint \<Rightarrow> ushort \<Rightarrow> memory" where
  "write16 m a v = m(a := ucast v, a + 1 := ucast (drop_bit 8 v))"

lemma read32_write32 [simp]: "read32 (write32 m a v) a = v"
  by (simp add: read32_def write32_def)

lemma write32_outside:
  "3 < x - a \<Longrightarrow> write32 m a v x = m x"
  by (auto simp: write32_def)

lemma read32_cong:
  assumes "\<And>k. k < 4 \<Longrightarrow> m (a + k) = m' (a + k)"
  shows "read32 m a = read32 m' a"
  using assms[of 0] assms[of 1] assms[of 2] assms[of 3] by (simp add: read32_def)

subsection \<open>Address arithmetic\<close>

definition PGSIZE :: uint where "PGSIZE = 4096"
definition EXTMEM :: uint where "EXTMEM = 0x100000"
definition PHYSTOP :: uint where "PHYSTOP = 0xE000000"
definition DEVSPACE :: uint where "DEVSPACE = 0xFE000000"
definition KERNBASE :: uint where "KERNBASE = 0x80000000"
definition KERNLINK :: uint where "KERNLINK = KERNBASE + EXTMEM"

definition V2P :: "uint \<Rightarrow> uint" where "V2P a = a - KERNBASE"
definition P2V :: "uint \<Rightarrow> uint" where "P2V a = a + KERNBASE"

definition PDX :: "uint \<Rightarrow> uint" where "PDX va = drop_bit 22 va AND 0x3FF"
definition PTX :: "uint \<Rightarrow> uint" where "PTX va = drop_bit 12 va AND 0x3FF"
definition PGADDR :: "uint \<Rightarrow> uint \<Rightarrow> uint \<Rightarrow> uint" where
  "PGADDR d t off = push_bit 22 d OR push_bit 12 t OR off"
definition PGROUNDUP :: "uint \<Rightarrow> uint" where "PGROUNDUP sz = (sz + PGSIZE - 1) AND NOT (PGSIZE - 1)"
definition PGROUNDDOWN :: "uint \<Rightarrow> uint" where "PGROUNDDOWN a = a AND NOT (PGSIZE - 1)"

definition PTE_P :: uint where "PTE_P = 0x001"
definition PTE_W :: uint where "PTE_W = 0x002"
definition PTE_U :: uint where "PTE_U = 0x004"
definition PTE_ADDR :: "uint \<Rightarrow> uint" where "PTE_ADDR pte = pte AND NOT 0xFFF"
definition PTE_FLAGS :: "uint \<Rightarrow> uint" where "PTE_FLAGS pte = pte AND 0xFFF"

lemmas layout_defs = PGSIZE_def EXTMEM_def PHYSTOP_def DEVSPACE_def KERNBASE_def KERNLINK_def

lemma V2P_P2V [simp]: "V2P (P2V a) = a" and P2V_V2P [simp]: "P2V (V2P a) = a"
  by (simp_all add: V2P_def P2V_def)

lemma and_not_low12:
  fixes a :: uint
  shows "a AND NOT 0xFFF = push_bit 12 (drop_bit 12 a)"
proof -
  have "(0xFFF :: uint) = mask 12" by (simp add: mask_eq_exp_minus_1)
  then have "a AND NOT 0xFFF = a AND NOT (mask 12)" by simp
  also have "\<dots> = push_bit 12 (drop_bit 12 a)"
    by (rule bit_word_eqI) (auto simp: bit_simps)
  finally show ?thesis .
qed

lemma unat_and_not_low12: "unat ((a :: uint) AND NOT 0xFFF) = unat a div 4096 * 4096"
proof -
  have "unat a div 4096 * 4096 < 4294967296"
    using unat_uint_less[of a] div_times_less_eq_dividend[of "unat a" 4096] by linarith
  then show ?thesis
    by (subst and_not_low12)
      (simp add: unat_word_ariths push_bit_eq_mult unat_drop_bit_eq drop_bit_eq_div)
qed

lemma unat_PGROUNDDOWN: "unat (PGROUNDDOWN a) = unat a div 4096 * 4096"
  using unat_and_not_low12[of a] by (simp add: PGROUNDDOWN_def PGSIZE_def)

lemma PGROUNDDOWN_aligned: "unat (PGROUNDDOWN a) mod 4096 = 0"
  by (simp add: unat_PGROUNDDOWN)

lemma unat_PGROUNDUP:
  assumes "unat a \<le> 2 ^ 32 - 4096"
  shows "unat (PGROUNDUP a) = (unat a + 4095) div 4096 * 4096"
proof -
  have "unat (a + 4095) = unat a + 4095"
    using assms by (subst unat_add_lem[THEN iffD1]) auto
  moreover have "a + 4096 - 1 = a + 4095" by simp
  ultimately show ?thesis
    using unat_and_not_low12[of "a + 4095"] by (simp add: PGROUNDUP_def PGSIZE_def add.commute)
qed

end
