(* ===== verification/Xv6_String.thy ===== *)
theory Xv6_String
  imports Xv6_Memory
begin

text \<open>
  The kernel's string library, \<^verbatim>\<open>string.c\<close>, over the string instructions of \<^verbatim>\<open>x86.h\<close>.
  \<^verbatim>\<open>memset\<close>, \<^verbatim>\<open>memcmp\<close> and \<^verbatim>\<open>memmove\<close> work on memory; the functions on C strings see a pointer as
  the sequence of bytes from that address on, and return the destination array after the call.
  The lemmas give each function its reference meaning: the word-wise fill is the byte-wise one,
  \<^verbatim>\<open>memmove\<close> copies the original bytes whether or not the ranges overlap, \<^verbatim>\<open>strncpy\<close> pads with zeroes,
  \<^verbatim>\<open>safestrcpy\<close> always terminates its result inside the buffer.
\<close>

subsection \<open>Definitions\<close>

fun stosb :: "memory \<Rightarrow> uint \<Rightarrow> uchar \<Rightarrow> nat \<Rightarrow> memory" where
  "stosb m addr d 0 = m"
| "stosb m addr d (Suc cnt) = stosb (m(addr := d)) (addr + 1) d cnt"

fun stosl :: "memory \<Rightarrow> uint \<Rightarrow> uint \<Rightarrow> nat \<Rightarrow> memory" where
  "stosl m addr d 0 = m"
| "stosl m addr d (Suc cnt) = stosl (write32 m addr d) (addr + 4) d cnt"

definition memset :: "memory \<Rightarrow> uint \<Rightarrow> uint \<Rightarrow> uint \<Rightarrow> memory" where
  "memset m dst c n =
     (if dst mod 4 = 0 \<and> n mod 4 = 0
      then let c = c AND 0xFF
           in stosl m dst (push_bit 24 c OR push_bit 16 c OR push_bit 8 c OR c) (unat (n div 4))
      else stosb m dst (ucast c) (unat n))"

fun memcmp :: "memory \<Rightarrow> uint \<Rightarrow> uint \<Rightarrow> nat \<Rightarrow> int" where
  "memcmp m s1 s2 0 = 0"
| "memcmp m s1 s2 (Suc n) =
     (if m s1 \<noteq> m s2 then Word.uint (m s1) - Word.uint (m s2) else memcmp m (s1 + 1) (s2 + 1) n)"

fun copy_up :: "memory \<Rightarrow> uint \<Rightarrow> uint \<Rightarrow> nat \<Rightarrow> memory" where
  "copy_up m d s 0 = m"
| "copy_up m d s (Suc n) = copy_up (m(d := m s)) (d + 1) (s + 1) n"

fun copy_down :: "memory \<Rightarrow> uint \<Rightarrow> uint \<Rightarrow> nat \<Rightarrow> memory" where
  "copy_down m d s 0 = m"
| "copy_down m d s (Suc n) = copy_down (m(d - 1 := m (s - 1))) (d - 1) (s - 1) n"

definition memmove :: "memory \<Rightarrow> uint \<Rightarrow> uint \<Rightarrow> uint \<Rightarrow> memory" where
  "memmove m dst src n =
     (if src < dst \<and> dst < src + n
      then copy_down m (dst + n) (src + n) (unat n)
      else copy_up m dst src (unat n))"

definition memcpy :: "memory \<Rightarrow> uint \<Rightarrow> uint \<Rightarrow> uint \<Rightarrow> memory" where
  "memcpy m dst src n = memmove m dst src n"

fun strncmp :: "(nat \<Rightarrow> uchar) \<Rightarrow> (nat \<Rightarrow> uchar) \<Rightarrow> nat \<Rightarrow> int" where
  "strncmp p q 0 = 0"
| "strncmp p q (Suc n) =
     (if p 0 \<noteq> 0 \<and> p 0 = q 0 then strncmp (\<lambda>i. p (Suc i)) (\<lambda>i. q (Suc i)) n
      else Word.uint (p 0) - Word.uint (q 0))"

text \<open>
  \<^verbatim>\<open>strncpy\<close>: the first loop copies until it has copied the terminator or \<open>n\<close> bytes, and hands the
  position and what is left of \<open>n\<close> to the second, which writes zeroes.
\<close>

fun strncpy_copy :: "(nat \<Rightarrow> uchar) \<Rightarrow> (nat \<Rightarrow> uchar) \<Rightarrow> nat \<Rightarrow> nat \<Rightarrow> (nat \<Rightarrow> uchar) \<times> nat \<times> nat" where
  "strncpy_copy s t i 0 = (s, i, 0)"
| "strncpy_copy s t i (Suc n) =
     (if t i \<noteq> 0 then strncpy_copy (s(i := t i)) t (Suc i) n else (s(i := t i), Suc i, n))"

fun strncpy_pad :: "(nat \<Rightarrow> uchar) \<Rightarrow> nat \<Rightarrow> nat \<Rightarrow> (nat \<Rightarrow> uchar)" where
  "strncpy_pad s i 0 = s"
| "strncpy_pad s i (Suc n) = strncpy_pad (s(i := 0)) (Suc i) n"

definition strncpy :: "(nat \<Rightarrow> uchar) \<Rightarrow> (nat \<Rightarrow> uchar) \<Rightarrow> int \<Rightarrow> (nat \<Rightarrow> uchar)" where
  "strncpy s t n = (case strncpy_copy s t 0 (nat n) of (s, i, n) \<Rightarrow> strncpy_pad s i n)"

fun safestrcpy_copy :: "(nat \<Rightarrow> uchar) \<Rightarrow> (nat \<Rightarrow> uchar) \<Rightarrow> nat \<Rightarrow> nat \<Rightarrow> (nat \<Rightarrow> uchar) \<times> nat" where
  "safestrcpy_copy s t i 0 = (s, i)"
| "safestrcpy_copy s t i (Suc n) =
     (if t i \<noteq> 0 then safestrcpy_copy (s(i := t i)) t (Suc i) n else (s(i := t i), Suc i))"

definition safestrcpy :: "(nat \<Rightarrow> uchar) \<Rightarrow> (nat \<Rightarrow> uchar) \<Rightarrow> int \<Rightarrow> (nat \<Rightarrow> uchar)" where
  "safestrcpy s t n =
     (if n \<le> 0 then s
      else case safestrcpy_copy s t 0 (nat (n - 1)) of (s, i) \<Rightarrow> s(i := 0))"

partial_function (option) strlen_from :: "(nat \<Rightarrow> uchar) \<Rightarrow> nat \<Rightarrow> nat option" where
  "strlen_from s n = (if s n = 0 then Some n else strlen_from s (Suc n))"

definition strlen :: "(nat \<Rightarrow> uchar) \<Rightarrow> nat option" where
  "strlen s = strlen_from s 0"

subsection \<open>Filling and copying memory\<close>

definition fill :: "memory \<Rightarrow> uint \<Rightarrow> uchar \<Rightarrow> nat \<Rightarrow> memory" where
  "fill m a d n = (\<lambda>x. if unat (x - a) < n then d else m x)"

definition copy :: "memory \<Rightarrow> uint \<Rightarrow> uint \<Rightarrow> nat \<Rightarrow> memory" where
  "copy m d s n = (\<lambda>x. if unat (x - d) < n then m (s + (x - d)) else m x)"

lemma fill_0 [simp]: "fill m a d 0 = m"
  by (simp add: fill_def)

lemma unat_minus_1: "x \<noteq> 0 \<Longrightarrow> unat (x - 1 :: uint) = unat x - 1"
  by (simp add: unat_minus_one)

lemma unat_step: "unat (x - (a + 1) :: uint) < n \<and> x \<noteq> a \<or> x = a \<longleftrightarrow> unat (x - a) < Suc n"
  if "n < 2 ^ 32"
proof (cases "x = a")
  case True
  then show ?thesis by simp
next
  case False
  then have "x - a \<noteq> 0" by simp
  then have "unat (x - a - 1) = unat (x - a) - 1" "0 < unat (x - a)"
    using unat_minus_1 unat_gt_0 by blast+
  moreover have "unat (x - (a + 1)) = unat (x - a - 1)" by (simp add: algebra_simps)
  ultimately show ?thesis using False by auto
qed

lemma fill_Suc: "n < 2 ^ 32 \<Longrightarrow> fill (m(a := d)) (a + 1) d n = fill m a d (Suc n)"
  using unat_step[of n _ a] by (fastforce simp: fill_def fun_eq_iff)

lemma stosb_fill: "n \<le> 2 ^ 32 \<Longrightarrow> stosb m a d n = fill m a d n"
  by (induction n arbitrary: m a) (simp_all add: fill_Suc)

lemma write32_bytes: "write32 m a (word_of_bytes d d d d) = stosb m a d 4"
proof -
  have "stosb m a d (Suc (Suc (Suc (Suc 0)))) = m(a := d, a + 1 := d, a + 1 + 1 := d, a + 1 + 1 + 1 := d)"
    by (simp only: stosb.simps)
  moreover have "Suc (Suc (Suc (Suc 0))) = 4" by simp
  ultimately have "stosb m a d 4 = m(a := d, a + 1 := d, a + 1 + 1 := d, a + 1 + 1 + 1 := d)"
    by metis
  then show ?thesis by (simp add: write32_def add.assoc)
qed

lemma and_FF: "(c :: uint) AND 0xFF = ucast (ucast c :: uchar)"
proof -
  have "(0xFF :: uint) = mask 8" by (simp add: mask_eq_exp_minus_1)
  moreover have "c AND mask 8 = ucast (ucast c :: uchar)"
    by (rule bit_word_eqI) (auto simp: bit_simps)
  ultimately show ?thesis by simp
qed

lemma stosl_fill:
  "4 * n \<le> 2 ^ 32 \<Longrightarrow> stosl m a (word_of_bytes d d d d) n = fill m a d (4 * n)"
proof (induction n arbitrary: m a)
  case 0
  then show ?case by simp
next
  case (Suc n)
  have "stosl m a (word_of_bytes d d d d) (Suc n) = fill (fill m a d 4) (a + 4) d (4 * n)"
    using Suc by (simp add: write32_bytes stosb_fill)
  also have "\<dots> = fill m a d (4 + 4 * n)"
  proof -
    have step: "fill (fill m a d k) (a + of_nat k) d j = fill m a d (k + j)" if "k + j \<le> 2 ^ 32" for k j
    proof -
      have "stosb m a d (k + j) = stosb (stosb m a d k) (a + of_nat k) d j" for m a
        by (induction k arbitrary: m a) (simp_all add: algebra_simps)
      then show ?thesis using that by (simp add: stosb_fill)
    qed
    from step[of 4 "4 * n"] Suc.prems show ?thesis by simp
  qed
  finally show ?case by simp
qed

lemma memset_fill: "memset m dst c n = fill m dst (ucast c) (unat n)"
proof (cases "dst mod 4 = 0 \<and> n mod 4 = 0")
  case True
  have less: "unat n < 2 ^ 32" using unsigned_less[of n, where 'a = nat] by simp
  have "unat n mod 4 = unat (n mod 4)" by (simp add: unat_mod_distrib)
  with True have n: "4 * (unat n div 4) = unat n" by auto
  have w: "push_bit 24 (ucast d) OR push_bit 16 (ucast d) OR push_bit 8 (ucast d) OR ucast d
      = word_of_bytes d d d d" for d
    by (simp add: word_of_bytes_def or.left_commute or.commute)
  have "memset m dst c n = stosl m dst (word_of_bytes (ucast c) (ucast c) (ucast c) (ucast c)) (unat n div 4)"
    using True by (simp add: memset_def Let_def and_FF w unat_div_distrib)
  also have "\<dots> = fill m dst (ucast c) (unat n)"
    using stosl_fill[of "unat n div 4"] n less by simp
  finally show ?thesis .
next
  case False
  have "unat n \<le> 2 ^ 32" using unsigned_less[of n, where 'a = nat] by simp
  with False show ?thesis by (auto simp: memset_def stosb_fill)
qed

lemma copy_up_copy:
  "n \<le> 2 ^ 32 \<Longrightarrow> d = s \<or> n \<le> unat (d - s) \<Longrightarrow> copy_up m d s n = copy m d s n"
proof (induction n arbitrary: m d s)
  case 0
  then show ?case by (simp add: copy_def)
next
  case (Suc n)
  have "copy (m(d := m s)) (d + 1) (s + 1) n x = copy m d s (Suc n) x" for x
  proof (cases "x = d")
    case True
    have "unat (- 1 :: uint) = 2 ^ 32 - 1"
      by (simp add: unsigned_minus_1_eq_mask mask_eq_exp_minus_1)
    then show ?thesis using True Suc.prems(1) by (simp add: copy_def)
  next
    case False
    then have "s + (x - d) \<noteq> d" if "unat (x - d) < Suc n"
      using Suc.prems(2) that by (metis add.commute add_diff_cancel_left' add_diff_cancel_right' diff_add_cancel not_less right_minus_eq)
    moreover have "unat (x - (d + 1)) < n \<longleftrightarrow> unat (x - d) < Suc n"
      using unat_step[of n x d] False Suc.prems(1) by auto
    ultimately show ?thesis using False by (auto simp: copy_def algebra_simps)
  qed
  with Suc show ?case by (auto simp: fun_eq_iff)
qed

lemma mod_shift_neq: "Suc n \<le> a \<Longrightarrow> a < N \<Longrightarrow> b < n \<Longrightarrow> (a + b) mod N \<noteq> (n :: nat)"
  by (cases "a + b < N") (auto simp: le_mod_geq not_less mod_if)

lemma copy_down_copy:
  "n \<le> 2 ^ 32 \<Longrightarrow> d = s \<or> n \<le> unat (s - d) \<Longrightarrow>
   copy_down m (d + of_nat n) (s + of_nat n) n = copy m d s n"
proof (induction n arbitrary: m)
  case 0
  then show ?case by (simp add: copy_def)
next
  case (Suc n)
  let ?m = "m(d + of_nat n := m (s + of_nat n))"
  have n: "unat (of_nat n :: uint) = n" using Suc.prems(1) by (simp add: unat_of_nat_small)
  have "copy ?m d s n x = copy m d s (Suc n) x" for x
  proof (cases "x = d + of_nat n")
    case True
    then show ?thesis by (simp add: copy_def n)
  next
    case False
    have lt: "unat (x - d) < n \<longleftrightarrow> unat (x - d) < Suc n"
    proof -
      have "unat (x - d) \<noteq> unat (of_nat n :: uint)"
        using False by (metis add.commute diff_add_cancel unsigned_word_eqI)
      then show ?thesis using n by linarith
    qed
    have "s + (x - d) \<noteq> d + of_nat n" if "unat (x - d) < n"
    proof
      assume "s + (x - d) = d + of_nat n"
      then have eq: "(s - d) + (x - d) = of_nat n" by (simp add: algebra_simps)
      show False
      proof (cases "d = s")
        case True
        with eq False show False by (metis add.commute add_0 diff_add_cancel diff_self)
      next
        case False
        then have "Suc n \<le> unat (s - d)" using Suc.prems(2) by simp
        moreover have "unat ((s - d) + (x - d)) = (unat (s - d) + unat (x - d)) mod 2 ^ 32"
          by (rule unat_add_mod)
        moreover have "unat (s - d) < 2 ^ 32" by simp
        ultimately show False using eq n that mod_shift_neq by metis
      qed
    qed
    then show ?thesis using False lt by (auto simp: copy_def)
  qed
  then have "copy ?m d s n = copy m d s (Suc n)" by (rule ext)
  moreover have "copy_down ?m (d + of_nat n) (s + of_nat n) n = copy ?m d s n"
    using Suc.prems by (intro Suc.IH) auto
  ultimately show ?case by simp
qed

theorem memmove_copy:
  assumes "unat src + unat n < 2 ^ 32" and "unat dst + unat n \<le> 2 ^ 32"
  shows "memmove m dst src n = copy m dst src (unat n)"
proof (cases "src < dst \<and> dst < src + n")
  case True
  have "unat (src - dst) = 2 ^ 32 + unat src - unat dst"
    using True by (simp add: unat_sub_if' word_less_nat_alt word_le_nat_alt)
  then have "unat n \<le> unat (src - dst)" using assms(2) True by (simp add: word_less_nat_alt)
  then show ?thesis
    using True copy_down_copy[of "unat n" dst src m] by (simp add: memmove_def)
next
  case False
  have sum: "unat (src + n) = unat src + unat n"
    using assms(1) by (simp add: unat_word_ariths)
  have "dst = src \<or> unat n \<le> unat (dst - src)"
  proof (cases "dst < src")
    case True
    then have "unat (dst - src) = 2 ^ 32 + unat dst - unat src"
      by (simp add: unat_sub_if' word_less_nat_alt word_le_nat_alt)
    then have "unat n \<le> unat (dst - src)" using assms(1) by linarith
    then show ?thesis by blast
  next
    case ge: False
    then have "unat (dst - src) = unat dst - unat src"
      by (simp add: unat_sub_if' word_less_nat_alt word_le_nat_alt)
    moreover have "dst = src \<or> unat src + unat n \<le> unat dst"
      using False ge sum unsigned_word_eqI[of dst src]
      by (auto simp: word_less_nat_alt word_le_nat_alt)
    ultimately show ?thesis by auto
  qed
  then show ?thesis
    using False copy_up_copy[of "unat n" dst src m] by (auto simp: memmove_def)
qed

subsection \<open>C strings\<close>

definition cstr :: "(nat \<Rightarrow> uchar) \<Rightarrow> nat \<Rightarrow> uchar list" where
  "cstr p n = takeWhile (\<lambda>c. c \<noteq> 0) (map p [0..<n])"

lemma cstr_Suc: "cstr p (Suc n) = (if p 0 = 0 then [] else p 0 # cstr (\<lambda>i. p (Suc i)) n)"
  by (simp add: cstr_def upt_conv_Cons map_Suc_upt[symmetric] comp_def del: upt_Suc)

lemma cstr_0 [simp]: "cstr p 0 = []"
  by (simp add: cstr_def)

lemma cstr_at:
  assumes "m \<le> n" and "\<And>l. l < m \<Longrightarrow> p l \<noteq> 0" and "m < n \<Longrightarrow> p m = 0"
  shows "cstr p n = map p [0..<m]"
proof -
  have "[0..<n] = [0..<m] @ [m..<n]" using assms(1) by (metis le_add_diff_inverse upt_add_eq_append zero_le)
  moreover have "takeWhile (\<lambda>c. c \<noteq> 0) (map p [m..<n]) = []"
    using assms(1,3) by (cases "m < n") (auto simp: upt_conv_Cons)
  ultimately show ?thesis
    using assms(2) by (simp only: cstr_def map_append) (subst takeWhile_append2, auto)
qed

lemma strncmp_0: "strncmp p q n = 0 \<longleftrightarrow> cstr p n = cstr q n"
  by (induction p q n rule: strncmp.induct) (auto simp: cstr_Suc unsigned_eq_0_iff simp flip: word_uint_eq_iff)

lemma strncpy_copy_spec:
  "strncpy_copy s t i n = (s', j, k) \<Longrightarrow> (\<forall>l<i. t l \<noteq> 0) \<Longrightarrow>
   j + k = i + n \<and> i \<le> j \<and> (\<forall>l. s' l = (if i \<le> l \<and> l < j then t l else s l)) \<and>
   (\<forall>l<j. Suc l < j \<longrightarrow> t l \<noteq> 0) \<and> (0 < k \<longrightarrow> 0 < j \<and> t (j - 1) = 0)"
proof (induction s t i n arbitrary: s' j k rule: strncpy_copy.induct)
  case (1 s t i)
  then show ?case by auto
next
  case (2 s t i n)
  show ?case
  proof (cases "t i = 0")
    case True
    with 2 show ?thesis by (auto simp: less_Suc_eq split: if_splits)
  next
    case False
    then have run: "strncpy_copy (s(i := t i)) t (Suc i) n = (s', j, k)"
      and nz: "\<forall>l<Suc i. t l \<noteq> 0" using 2 by (auto simp: less_Suc_eq)
    from 2(1)[OF False run nz] show ?thesis by (auto simp: Suc_le_eq le_less)
  qed
qed

lemma strncpy_pad_spec: "strncpy_pad s i n l = (if i \<le> l \<and> l < i + n then 0 else s l)"
  by (induction s i n rule: strncpy_pad.induct) (auto simp del: fun_upd_apply simp add: fun_upd_def)

theorem strncpy_spec:
  "strncpy s t n l =
     (if int l < n then (if \<exists>j<l. t j = 0 then 0 else t l) else s l)"
proof -
  obtain s' j k where run: "strncpy_copy s t 0 (nat n) = (s', j, k)"
    by (metis prod_cases3)
  from strncpy_copy_spec[OF run]
  have f: "j + k = nat n" "\<And>l. s' l = (if l < j then t l else s l)"
    "\<And>l. Suc l < j \<Longrightarrow> t l \<noteq> 0" "0 < k \<Longrightarrow> 0 < j \<and> t (j - 1) = 0" by auto
  have r: "strncpy s t n l = (if j \<le> l \<and> l < nat n then 0 else s' l)"
    by (simp add: strncpy_def run strncpy_pad_spec f(1))
  show ?thesis
  proof (cases "l < j")
    case True
    then have "\<not> (\<exists>i<l. t i = 0)" using f(3) by (meson Suc_lessI less_trans_Suc not_less_eq)
    with True show ?thesis using r f(1,2) by auto
  next
    case False
    show ?thesis
    proof (cases "int l < n")
      case True
      then have "0 < k" using False f(1) by linarith
      then have "\<exists>i<l. t i = 0" using f(4) False by (intro exI[of _ "j - 1"]) auto
      with True False show ?thesis using r by auto
    next
      case ge: False
      with False r f(2) show ?thesis by auto
    qed
  qed
qed

lemma safestrcpy_copy_spec:
  "safestrcpy_copy s t i n = (s', j) \<Longrightarrow> (\<forall>l<i. t l \<noteq> 0) \<Longrightarrow>
   i \<le> j \<and> j \<le> i + n \<and> (\<forall>l. s' l = (if i \<le> l \<and> l < j then t l else s l)) \<and>
   (\<forall>l. Suc l < j \<longrightarrow> t l \<noteq> 0) \<and> (j < i + n \<longrightarrow> 0 < j \<and> t (j - 1) = 0)"
proof (induction s t i n arbitrary: s' j rule: safestrcpy_copy.induct)
  case (1 s t i)
  then show ?case by auto
next
  case (2 s t i n)
  show ?case
  proof (cases "t i = 0")
    case True
    with 2 show ?thesis by (auto simp: less_Suc_eq split: if_splits)
  next
    case False
    then have run: "safestrcpy_copy (s(i := t i)) t (Suc i) n = (s', j)"
      and nz: "\<forall>l<Suc i. t l \<noteq> 0" using 2 by (auto simp: less_Suc_eq)
    from 2(1)[OF False run nz] show ?thesis by (auto simp: Suc_le_eq le_less)
  qed
qed

theorem safestrcpy_terminates:
  assumes "0 < n"
  shows "cstr (safestrcpy s t n) (nat n) = cstr t (nat n - 1)"
    and "\<And>l. int l \<ge> n \<Longrightarrow> safestrcpy s t n l = s l"
proof -
  obtain s' j where run: "safestrcpy_copy s t 0 (nat (n - 1)) = (s', j)"
    by (metis surj_pair)
  from safestrcpy_copy_spec[OF run]
  have f: "j \<le> nat n - 1" "\<And>l. s' l = (if l < j then t l else s l)"
    "\<And>l. Suc l < j \<Longrightarrow> t l \<noteq> 0" "j < nat n - 1 \<Longrightarrow> 0 < j \<and> t (j - 1) = 0"
    by (auto simp: nat_diff_distrib)
  have r: "safestrcpy s t n = s'(j := 0)"
    using assms by (simp add: safestrcpy_def run)
  show "safestrcpy s t n l = s l" if "int l \<ge> n" for l
    using that f(1,2) r assms by auto
  show "cstr (safestrcpy s t n) (nat n) = cstr t (nat n - 1)"
  proof (cases "0 < j \<and> t (j - 1) = 0")
    case True
    then have nz: "t l \<noteq> 0" if "l < j - 1" for l using f(3)[of l] that by simp
    have "cstr t (nat n - 1) = map t [0..<j - 1]"
      by (rule cstr_at) (use True f(1) nz in auto)
    moreover have "cstr (s'(j := 0)) (nat n) = map (s'(j := 0)) [0..<j - 1]"
      by (rule cstr_at) (use True f(1,2) nz in auto)
    moreover have "map (s'(j := 0)) [0..<j - 1] = map t [0..<j - 1]" using f(2) by auto
    ultimately show ?thesis by (simp add: r)
  next
    case False
    then have j: "j = nat n - 1" using f(1,4) by linarith
    have nz: "t l \<noteq> 0" if "l < j" for l
      using f(3)[of l] that False by (cases "Suc l = j") auto
    have "cstr t (nat n - 1) = map t [0..<j]"
      by (rule cstr_at) (use j nz in auto)
    moreover have "cstr (s'(j := 0)) (nat n) = map (s'(j := 0)) [0..<j]"
      by (rule cstr_at) (use j f(2) nz assms in auto)
    moreover have "map (s'(j := 0)) [0..<j] = map t [0..<j]" using f(2) by simp
    ultimately show ?thesis by (simp add: r)
  qed
qed

lemma strlen_spec:
  assumes "s k = 0" and "\<forall>j<k. s j \<noteq> 0"
  shows "strlen s = Some k"
proof -
  have "strlen_from s (k - d) = Some k" if "d \<le> k" for d
    using that
  proof (induction d)
    case 0
    then show ?case using assms(1) by (simp add: strlen_from.simps)
  next
    case (Suc d)
    then have "s (k - Suc d) \<noteq> 0" using assms(2) by simp
    then show ?case using Suc by (subst strlen_from.simps) (simp add: Suc_diff_Suc)
  qed
  from this[of k] show ?thesis by (simp add: strlen_def)
qed

end
