(* ===== verification/Xv6_Kalloc.thy ===== *)
theory Xv6_Kalloc
  imports Xv6_String "HOL-Library.Multiset"
begin

text \<open>
  The physical page allocator, \<^verbatim>\<open>kalloc.c\<close>. The state is memory itself and the head of the free
  list; the list is threaded through the free pages (\<^verbatim>\<open>struct run\<close> in the first word of a page), so
  the model stores the links in memory as the code does. \<open>kmem_inv s fl\<close> says that the chain
  in memory is the list \<open>fl\<close> of distinct, valid pages. The interface that the rest of the kernel
  relies on is the locale \<open>page_allocator\<close>, interpreted on \<open>kalloc\<close> and \<open>kfree\<close>.
\<close>

subsection \<open>State and operations\<close>

text \<open>
  \<open>kend\<close> and \<open>kdata\<close> are the addresses that the linker gives to the symbols \<^verbatim>\<open>end\<close> and \<^verbatim>\<open>data\<close>
  of \<^verbatim>\<open>kernel.ld\<close>; no operation changes them.
\<close>

record mach =
  mem :: memory
  freelist :: uint
  use_lock :: bool
  kend :: uint
  kdata :: uint

definition page_ok :: "uint \<Rightarrow> uint \<Rightarrow> bool" where
  "page_ok e v \<longleftrightarrow> v mod PGSIZE = 0 \<and> \<not> v < e \<and> \<not> PHYSTOP \<le> V2P v"

definition kfree :: "uint \<Rightarrow> (unit, 'z mach_scheme) kernel" where
  "kfree v s =
     (if v mod PGSIZE \<noteq> 0 \<or> v < kend s \<or> PHYSTOP \<le> V2P v then kpanic ''kfree'' s
      else let m = memset (mem s) v 1 PGSIZE
           in Ret () (s\<lparr>mem := write32 m v (freelist s), freelist := v\<rparr>))"

definition kalloc :: "(uint, 'z mach_scheme) kernel" where
  "kalloc s =
     (let r = freelist s
      in Ret r (if r \<noteq> 0 then s\<lparr>freelist := read32 (mem s) r\<rparr> else s))"

lemma kfree_ok: "kfree v s = Ret x t \<Longrightarrow> page_ok (kend s) v"
  by (auto simp: kfree_def page_ok_def split: if_splits)

lemma page_ok_range:
  assumes "page_ok e v"
  shows "unat v mod 4096 = 0" and "2147483648 \<le> unat v" and "unat v < 2382364672"
proof -
  have "unat v mod 4096 = unat (v mod PGSIZE)" by (simp add: unat_mod_distrib PGSIZE_def)
  then show "unat v mod 4096 = 0" using assms by (simp add: page_ok_def)
  have lt: "unat (v - 0x80000000) < 0xE000000"
    using assms by (simp add: page_ok_def V2P_def layout_defs word_le_nat_alt not_le)
  then show "2147483648 \<le> unat v"
    using unat_uint_less[of v] by (auto simp: unat_sub_if' word_le_nat_alt split: if_splits)
  then show "unat v < 2382364672" using lt by (auto simp: unat_sub_if' word_le_nat_alt)
qed

function freerange_loop :: "uint \<Rightarrow> uint \<Rightarrow> (unit, 'z mach_scheme) kernel" where
  "freerange_loop p vend s =
     (if p + PGSIZE \<le> vend
      then (case kfree p s of Ret _ t \<Rightarrow> freerange_loop (p + PGSIZE) vend t
            | Sleep c t \<Rightarrow> Sleep c t | Fault e \<Rightarrow> Fault e)
      else Ret () s)"
  by pat_completeness auto
termination
proof (relation "measure (\<lambda>(p, vend, s). 2 ^ 32 - unat p)", goal_cases)
  case 1
  then show ?case by simp
next
  case (2 p vend s x t)
  from 2(2) have "page_ok (kend s) p" by (rule kfree_ok)
  then have "unat p < 2382364672" by (rule page_ok_range)
  moreover from this have "unat (p + PGSIZE) = unat p + 4096" by (simp add: PGSIZE_def unat_add_mod)
  ultimately show ?case by simp
qed

declare freerange_loop.simps [simp del]

definition freerange :: "uint \<Rightarrow> uint \<Rightarrow> (unit, 'z mach_scheme) kernel" where
  "freerange vstart vend = freerange_loop (PGROUNDUP vstart) vend"

definition kinit1 :: "uint \<Rightarrow> uint \<Rightarrow> (unit, 'z mach_scheme) kernel" where
  "kinit1 vstart vend =
     kbind (kmod (\<lambda>s. s\<lparr>use_lock := False\<rparr>)) (\<lambda>_. freerange vstart vend)"

definition kinit2 :: "uint \<Rightarrow> uint \<Rightarrow> (unit, 'z mach_scheme) kernel" where
  "kinit2 vstart vend =
     kbind (freerange vstart vend) (\<lambda>_. kmod (\<lambda>s. s\<lparr>use_lock := True\<rparr>))"

subsection \<open>The free list in memory\<close>

primrec chain :: "memory \<Rightarrow> uint \<Rightarrow> uint list \<Rightarrow> bool" where
  "chain m p [] \<longleftrightarrow> p = 0"
| "chain m p (x # xs) \<longleftrightarrow> p = x \<and> p \<noteq> 0 \<and> chain m (read32 m x) xs"

definition kmem_inv :: "'z mach_scheme \<Rightarrow> uint list \<Rightarrow> bool" where
  "kmem_inv s fl \<longleftrightarrow>
     chain (mem s) (freelist s) fl \<and> distinct fl \<and> (\<forall>v \<in> set fl. page_ok (kend s) v)"

definition in_page :: "uint \<Rightarrow> uint \<Rightarrow> bool" where
  "in_page v x \<longleftrightarrow> unat (x - v) < 4096"

lemma page_ok_nonzero: "page_ok e v \<Longrightarrow> v \<noteq> 0"
  using page_ok_range(2)[of e v] by auto

lemma in_page_iff:
  assumes "page_ok e v"
  shows "in_page v x \<longleftrightarrow> unat x div 4096 = unat v div 4096"
proof -
  note r = page_ok_range[OF assms]
  show ?thesis
  proof (cases "v \<le> x")
    case True
    then have "unat (x - v) = unat x - unat v" by (simp add: unat_sub_if' word_le_nat_alt)
    moreover have "unat x - unat v < 4096 \<longleftrightarrow> unat x div 4096 = unat v div 4096"
      using True r(1) by (auto simp: word_le_nat_alt)
    ultimately show ?thesis by (simp add: in_page_def)
  next
    case False
    then have "unat (x - v) = 2 ^ 32 + unat x - unat v" "unat x < unat v"
      by (simp_all add: unat_sub_if' word_le_nat_alt)
    moreover have "unat x div 4096 \<noteq> unat v div 4096"
      using \<open>unat x < unat v\<close> r(1) div_mult_mod_eq[of "unat x" 4096] div_mult_mod_eq[of "unat v" 4096]
      by linarith
    ultimately show ?thesis using r(3) by (simp add: in_page_def)
  qed
qed

lemma in_page_self: "in_page v v"
  by (simp add: in_page_def)

lemma in_page_offset: "k < 4096 \<Longrightarrow> in_page v (v + of_nat k)"
  by (simp add: in_page_def unat_of_nat_small)

lemma in_page_disjoint:
  assumes "page_ok e v" "page_ok e w" "v \<noteq> w" "in_page v x"
  shows "\<not> in_page w x"
proof
  assume "in_page w x"
  then have "unat v div 4096 = unat w div 4096"
    using assms in_page_iff by metis
  moreover have "unat v mod 4096 = 0" "unat w mod 4096 = 0"
    using assms page_ok_range by blast+
  ultimately have "unat v = unat w" by (metis div_mult_mod_eq)
  then show False using assms(3) unsigned_word_eqI by blast
qed

lemma read32_page_cong:
  assumes "page_ok e v" and "\<And>x. in_page v x \<Longrightarrow> m x = m' x"
  shows "read32 m v = read32 m' v"
proof (rule read32_cong)
  fix k :: uint
  assume "k < 4"
  then have "in_page v (v + k)" by (simp add: in_page_def word_less_nat_alt)
  then show "m (v + k) = m' (v + k)" by (rule assms(2))
qed

lemma chain_cong:
  "chain m p fl \<Longrightarrow> \<forall>v \<in> set fl. page_ok e v \<Longrightarrow>
   (\<And>v x. v \<in> set fl \<Longrightarrow> in_page v x \<Longrightarrow> m x = m' x) \<Longrightarrow> chain m' p fl"
proof (induction fl arbitrary: p)
  case Nil
  then show ?case by simp
next
  case (Cons v fl)
  have "read32 m v = read32 m' v"
    by (rule read32_page_cong[of e]) (use Cons.prems in auto)
  moreover have "chain m' (read32 m v) fl"
    by (rule Cons.IH) (use Cons.prems in auto)
  ultimately show ?case using Cons.prems(1) by auto
qed

lemma kmem_inv_cong:
  assumes "kmem_inv s fl" and "\<And>v x. v \<in> set fl \<Longrightarrow> in_page v x \<Longrightarrow> mem t x = mem s x"
    and "freelist t = freelist s" and "kend t = kend s"
  shows "kmem_inv t fl"
  using assms chain_cong[of "mem s" "freelist s" fl "kend s" "mem t"]
  by (auto simp: kmem_inv_def)

subsection \<open>What the operations do\<close>

definition kfree_mem :: "memory \<Rightarrow> uint \<Rightarrow> uint \<Rightarrow> memory" where
  "kfree_mem m v next = write32 (fill m v 1 4096) v next"

lemma kfree_mem_outside: "\<not> in_page v x \<Longrightarrow> kfree_mem m v n x = m x"
  by (auto simp: kfree_mem_def write32_def fill_def in_page_def)

lemma kfree_run:
  "page_ok (kend s) v \<Longrightarrow>
   kfree v s = Ret () (s\<lparr>mem := kfree_mem (mem s) v (freelist s), freelist := v\<rparr>)"
  by (simp add: kfree_def page_ok_def kfree_mem_def memset_fill PGSIZE_def)

lemma kfree_inv:
  assumes "kmem_inv s fl" and "page_ok (kend s) v" and "v \<notin> set fl"
  shows "kmem_inv (s\<lparr>mem := kfree_mem (mem s) v (freelist s), freelist := v\<rparr>) (v # fl)"
proof -
  let ?m = "kfree_mem (mem s) v (freelist s)"
  have c: "chain (mem s) (freelist s) fl" "\<forall>v \<in> set fl. page_ok (kend s) v"
    using assms(1) by (simp_all add: kmem_inv_def)
  have "chain ?m (freelist s) fl"
  proof (rule chain_cong[OF c])
    fix w x
    assume "w \<in> set fl" "in_page w x"
    then have "\<not> in_page v x"
      using in_page_disjoint[of "kend s" w v x] assms c(2) by auto
    then show "mem s x = ?m x" by (simp add: kfree_mem_outside)
  qed
  moreover have "read32 ?m v = freelist s" by (simp add: kfree_mem_def)
  ultimately show ?thesis
    using assms page_ok_nonzero by (auto simp: kmem_inv_def)
qed

lemma kalloc_Cons:
  assumes "kmem_inv s (v # fl)"
  shows "kalloc s = Ret v (s\<lparr>freelist := read32 (mem s) v\<rparr>)"
    and "kmem_inv (s\<lparr>freelist := read32 (mem s) v\<rparr>) fl"
  using assms by (auto simp: kmem_inv_def kalloc_def)

lemma kalloc_Nil: "kmem_inv s [] \<Longrightarrow> kalloc s = Ret 0 s"
  by (simp add: kmem_inv_def kalloc_def)

subsection \<open>The interface of the allocator\<close>

text \<open>
  A client holds the pages it got and gives back pages it holds: \<open>Alloc_page\<close> keeps the page if
  there is one, \<open>Free_page i\<close> frees the \<open>i\<close>-th page held. \<open>page_run\<close> is \<open>None\<close> if an operation
  panics.
\<close>

datatype page_op = Alloc_page | Free_page nat

fun page_run :: "(uint, 's) kernel \<Rightarrow> (uint \<Rightarrow> (unit, 's) kernel) \<Rightarrow> page_op list \<Rightarrow> uint list \<Rightarrow> 's
    \<Rightarrow> (uint list \<times> 's) option" where
  "page_run alloc free [] held s = Some (held, s)"
| "page_run alloc free (Alloc_page # ops) held s =
     (case alloc s of Ret r t \<Rightarrow> page_run alloc free ops (if r = 0 then held else r # held) t | _ \<Rightarrow> None)"
| "page_run alloc free (Free_page i # ops) held s =
     (if i < length held
      then (case free (held ! i) s of
              Ret _ t \<Rightarrow> page_run alloc free ops (take i held @ drop (Suc i) held) t | _ \<Rightarrow> None)
      else page_run alloc free ops held s)"

locale page_allocator =
  fixes alloc :: "(uint, 's) kernel" and free :: "uint \<Rightarrow> (unit, 's) kernel"
    and inv :: "'s \<Rightarrow> uint list \<Rightarrow> bool" and valid :: "'s \<Rightarrow> uint \<Rightarrow> bool"
  assumes alloc_Cons: "inv s (v # fl) \<Longrightarrow> \<exists>t. alloc s = Ret v t \<and> inv t fl \<and> valid t = valid s"
    and alloc_Nil: "inv s [] \<Longrightarrow> alloc s = Ret 0 s"
    and inv_valid: "inv s fl \<Longrightarrow> v \<in> set fl \<Longrightarrow> valid s v"
    and valid_nonzero: "valid s v \<Longrightarrow> v \<noteq> 0"
    and free_Cons: "inv s fl \<Longrightarrow> valid s v \<Longrightarrow> v \<notin> set fl \<Longrightarrow>
      \<exists>t. free v s = Ret () t \<and> inv t (v # fl) \<and> valid t = valid s"
begin

text \<open>A freed page is the next page allocated.\<close>

lemma free_then_alloc:
  assumes "inv s fl" and "valid s v" and "v \<notin> set fl"
  shows "ok (kbind (free v) (\<lambda>_. alloc)) s (\<lambda>w t. w = v \<and> inv t fl)"
proof -
  obtain t where t: "free v s = Ret () t" "inv t (v # fl)" using free_Cons[OF assms] by blast
  obtain u where u: "alloc t = Ret v u" "inv u fl" using alloc_Cons[OF t(2)] by blast
  show ?thesis using t(1) u by (auto simp: ok_def kbind_def)
qed

lemma page_run_conserves:
  assumes "inv s fl" and "distinct (held @ fl)" and "\<forall>v \<in> set held. valid s v"
  shows "\<exists>held' t fl'. page_run alloc free ops held s = Some (held', t) \<and> inv t fl' \<and>
    mset (held' @ fl') = mset (held @ fl)"
  using assms
proof (induction ops arbitrary: held s fl)
  case Nil
  then show ?case by auto
next
  case (Cons op ops)
  show ?case
  proof (cases op)
    case Alloc_page
    show ?thesis
    proof (cases fl)
      case Nil
      with Cons.prems(1) have "alloc s = Ret 0 s" using alloc_Nil by blast
      then show ?thesis using Cons.IH[OF Cons.prems] Alloc_page by simp
    next
      case (Cons v fl0)
      with Cons.prems(1) obtain t where t: "alloc s = Ret v t" "inv t fl0" "valid t = valid s"
        using alloc_Cons by blast
      have v: "valid s v" "v \<noteq> 0"
        using Cons.prems(1) Cons inv_valid[of s fl v] valid_nonzero[of s v] by auto
      have "distinct ((v # held) @ fl0)" and "\<forall>w \<in> set (v # held). valid t w"
        using Cons.prems Cons t(3) v by auto
      from Cons.IH[OF t(2) this] show ?thesis
        using Alloc_page t(1) v(2) Cons by auto
    qed
  next
    case (Free_page i)
    show ?thesis
    proof (cases "i < length held")
      case False
      then show ?thesis using Cons.IH[OF Cons.prems] Free_page by simp
    next
      case True
      let ?v = "held ! i" and ?rest = "take i held @ drop (Suc i) held"
      have held: "held = take i held @ ?v # drop (Suc i) held"
        using True by (rule id_take_nth_drop)
      have split: "mset held = add_mset ?v (mset ?rest)"
        by (subst held) (simp del: append_take_drop_id)
      have "?v \<in> set held" using True by simp
      then have "?v \<notin> set fl" "valid s ?v" using Cons.prems by auto
      then obtain t where t: "free ?v s = Ret () t" "inv t (?v # fl)" "valid t = valid s"
        using free_Cons[OF Cons.prems(1)] by blast
      have perm: "mset (?rest @ ?v # fl) = mset (held @ fl)" using split by simp
      then have "distinct (?rest @ ?v # fl)" using Cons.prems(2) by (metis mset_eq_imp_distinct_iff)
      moreover have "\<forall>w \<in> set ?rest. valid t w"
        using Cons.prems(3) t(3) by (auto dest: in_set_takeD in_set_dropD)
      ultimately obtain held' u fl' where "page_run alloc free ops ?rest t = Some (held', u)"
        "inv u fl'" "mset (held' @ fl') = mset (?rest @ ?v # fl)"
        using Cons.IH[OF t(2)] by blast
      then show ?thesis
        using Free_page True t(1) perm by (intro exI[of _ held'] exI[of _ u] exI[of _ fl']) simp
    qed
  qed
qed

end

interpretation kmem: page_allocator kalloc kfree kmem_inv "\<lambda>s. page_ok (kend s)"
proof (unfold_locales, goal_cases)
  case (1 s v fl)
  then show ?case using kalloc_Cons[of s v fl] by auto
next
  case (2 s)
  then show ?case by (rule kalloc_Nil)
next
  case (3 s fl v)
  then show ?case by (simp add: kmem_inv_def)
next
  case (4 s v)
  then show ?case by (rule page_ok_nonzero)
next
  case (5 s fl v)
  then show ?case using kfree_run[of s v] kfree_inv[of s fl v] by auto
qed

subsection \<open>Initialisation\<close>

definition pages_between :: "uint \<Rightarrow> uint \<Rightarrow> uint list" where
  "pages_between p vend = map (\<lambda>i. p + of_nat (4096 * i)) [0..<(unat vend - unat p) div 4096]"

lemma pages_between_step:
  assumes "unat p + 4096 \<le> unat vend"
  shows "pages_between p vend = p # pages_between (p + PGSIZE) vend"
proof -
  let ?n = "(unat vend - unat p) div 4096"
  have "unat p + 4096 < 4294967296" using assms unat_uint_less[of vend] by linarith
  then have sum: "unat (p + PGSIZE) = unat p + 4096"
    by (simp add: PGSIZE_def unat_add_mod)
  have n: "?n = Suc ((unat vend - unat (p + PGSIZE)) div 4096)"
    unfolding sum using assms le_div_geq[of 4096 "unat vend - unat p"] by simp
  show ?thesis
    unfolding pages_between_def n
    by (simp add: upt_conv_Cons map_Suc_upt[symmetric] PGSIZE_def algebra_simps del: upt_Suc)
qed

lemma pages_between_empty: "unat vend < unat p + 4096 \<Longrightarrow> pages_between p vend = []"
  by (simp add: pages_between_def)

lemma freerange_loop_frees:
  assumes "kmem_inv s fl" and "unat p mod 4096 = 0" and "kend s \<le> p" and "2147483648 \<le> unat p"
    and "unat vend \<le> 2382364672" and "\<forall>v \<in> set fl. v < p" and "unat p \<le> 2382364672"
  shows "ok (freerange_loop p vend) s (\<lambda>_ t. kmem_inv t (rev (pages_between p vend) @ fl))"
  using assms
proof (induction p vend s arbitrary: fl rule: freerange_loop.induct)
  case (1 p vend s)
  show ?case
  proof (cases "unat p + 4096 \<le> unat vend")
    case True
    then have sum: "unat (p + PGSIZE) = unat p + 4096"
      using 1(6) by (simp add: PGSIZE_def unat_add_mod)
    have "unat (p mod PGSIZE) = 0" using 1(3) by (simp add: unat_mod_distrib PGSIZE_def)
    moreover have "unat (V2P p) < 0xE000000"
      using 1(5,6) True by (simp add: V2P_def KERNBASE_def unat_sub_if' word_le_nat_alt)
    ultimately have ok: "page_ok (kend s) p"
      using 1(4) by (simp add: page_ok_def unat_eq_0 PHYSTOP_def word_le_nat_alt not_less)
    let ?t = "s\<lparr>mem := kfree_mem (mem s) p (freelist s), freelist := p\<rparr>"
    have run: "kfree p s = Ret () ?t" by (rule kfree_run[OF ok])
    have cond: "p + PGSIZE \<le> vend" using True sum by (simp add: word_le_nat_alt)
    have inv: "kmem_inv ?t (p # fl)" by (rule kfree_inv[OF 1(2) ok]) (use 1(7) in auto)
    have "ok (freerange_loop (p + PGSIZE) vend) ?t
        (\<lambda>_ u. kmem_inv u (rev (pages_between (p + PGSIZE) vend) @ p # fl))"
    proof (rule 1(1)[OF cond run inv])
      show "unat (p + PGSIZE) mod 4096 = 0" "2147483648 \<le> unat (p + PGSIZE)" "kend ?t \<le> p + PGSIZE"
        using 1(3,4,5) sum by (simp_all add: word_le_nat_alt)
      show "\<forall>v \<in> set (p # fl). v < p + PGSIZE"
        using 1(7) sum by (auto simp: word_less_nat_alt)
      show "unat (p + PGSIZE) \<le> 2382364672" using 1(6) True sum by simp
    qed (use 1(6) in simp)
    then show ?thesis
      using cond by (simp add: ok_def freerange_loop.simps[of p] run pages_between_step[OF True])
  next
    case False
    then have "\<not> p + PGSIZE \<le> vend"
      using 1(8) by (simp add: word_le_nat_alt PGSIZE_def unat_add_mod)
    then show ?thesis using 1(2) False
      by (simp add: ok_def freerange_loop.simps[of p] pages_between_empty)
  qed
qed

end
