(* ===== verification/Xv6_Vm.thy ===== *)
theory Xv6_Vm
  imports Xv6_Kalloc
begin

text \<open>
  Page tables, \<^verbatim>\<open>vm.c\<close>. Page directories and page tables are arrays of words in memory and are
  read and written there; a page table entry is passed around as its address, with 0 for a null
  pointer, as in the code. The loops that walk user pages upwards are recursions over the list of
  page addresses; \<^verbatim>\<open>deallocuvm\<close>, which skips unmapped page tables, is a recursion on the address.
\<close>

subsection \<open>Walking and mapping\<close>

definition pde_addr :: "uint \<Rightarrow> uint \<Rightarrow> uint" where
  "pde_addr pgdir va = pgdir + 4 * PDX va"

definition walkpgdir :: "uint \<Rightarrow> uint \<Rightarrow> bool \<Rightarrow> (uint, 'z mach_scheme) kernel" where
  "walkpgdir pgdir va alloc s =
     (let pde = pde_addr pgdir va; e = read32 (mem s) pde
      in if e AND PTE_P \<noteq> 0 then Ret (P2V (PTE_ADDR e) + 4 * PTX va) s
         else if \<not> alloc then Ret 0 s
         else kbind kalloc (\<lambda>pgtab.
           if pgtab = 0 then kret 0
           else kbind (kmod (\<lambda>s. s\<lparr>mem := memset (mem s) pgtab 0 PGSIZE\<rparr>)) (\<lambda>_.
                kbind (kmod (\<lambda>s. s\<lparr>mem := write32 (mem s) pde (V2P pgtab OR PTE_P OR PTE_W OR PTE_U)\<rparr>)) (\<lambda>_.
                kret (pgtab + 4 * PTX va)))) s)"

text \<open>
  The loop of \<^verbatim>\<open>mappages\<close> stops when \<open>a\<close> equals \<open>last\<close>; both are page aligned, so that is after
  \<open>n = (last - a) / PGSIZE\<close> further pages.
\<close>

primrec mappages_loop :: "nat \<Rightarrow> uint \<Rightarrow> uint \<Rightarrow> uint \<Rightarrow> uint \<Rightarrow> (int, 'z mach_scheme) kernel" where
  "mappages_loop 0 pgdir a pa perm =
     kbind (walkpgdir pgdir a True) (\<lambda>pte.
     if pte = 0 then kret (- 1)
     else kbind (kget (\<lambda>s. read32 (mem s) pte)) (\<lambda>e.
     if e AND PTE_P \<noteq> 0 then kpanic ''remap''
     else kbind (kmod (\<lambda>s. s\<lparr>mem := write32 (mem s) pte (pa OR perm OR PTE_P)\<rparr>)) (\<lambda>_. kret 0)))"
| "mappages_loop (Suc n) pgdir a pa perm =
     kbind (walkpgdir pgdir a True) (\<lambda>pte.
     if pte = 0 then kret (- 1)
     else kbind (kget (\<lambda>s. read32 (mem s) pte)) (\<lambda>e.
     if e AND PTE_P \<noteq> 0 then kpanic ''remap''
     else kbind (kmod (\<lambda>s. s\<lparr>mem := write32 (mem s) pte (pa OR perm OR PTE_P)\<rparr>)) (\<lambda>_.
          mappages_loop n pgdir (a + PGSIZE) (pa + PGSIZE) perm)))"

definition mappages :: "uint \<Rightarrow> uint \<Rightarrow> uint \<Rightarrow> uint \<Rightarrow> uint \<Rightarrow> (int, 'z mach_scheme) kernel" where
  "mappages pgdir va sz pa perm =
     (let a = PGROUNDDOWN va; last = PGROUNDDOWN (va + sz - 1)
      in mappages_loop (unat (last - a) div 4096) pgdir a pa perm)"

subsection \<open>Shrinking and freeing an address space\<close>

text \<open>
  One turn of the loop of \<^verbatim>\<open>deallocuvm\<close> at address \<open>a\<close>; it returns the address of the next turn.
  If that address wraps around below \<open>a\<close>, the loop of the code never ends; the model stops with a
  fault then. This needs \<open>oldsz\<close> in the last four megabytes, and the kernel never passes more
  than \<^verbatim>\<open>KERNBASE\<close>.
\<close>

definition deallocuvm_step :: "uint \<Rightarrow> uint \<Rightarrow> (uint, 'z mach_scheme) kernel" where
  "deallocuvm_step pgdir a =
     kbind (walkpgdir pgdir a False) (\<lambda>pte.
     if pte = 0 then kret (PGADDR (PDX a + 1) 0 0 - PGSIZE + PGSIZE)
     else kbind (kget (\<lambda>s. read32 (mem s) pte)) (\<lambda>e.
     if e AND PTE_P \<noteq> 0
     then (if PTE_ADDR e = 0 then kpanic ''kfree''
           else kbind (kfree (P2V (PTE_ADDR e))) (\<lambda>_.
                kbind (kmod (\<lambda>s. s\<lparr>mem := write32 (mem s) pte 0\<rparr>)) (\<lambda>_. kret (a + PGSIZE))))
     else kret (a + PGSIZE)))"

function deallocuvm_loop :: "uint \<Rightarrow> uint \<Rightarrow> uint \<Rightarrow> (unit, 'z mach_scheme) kernel" where
  "deallocuvm_loop pgdir a oldsz s =
     (if a < oldsz
      then (case deallocuvm_step pgdir a s of
              Ret a' t \<Rightarrow> if a < a' then deallocuvm_loop pgdir a' oldsz t
                         else Fault (Undef ''deallocuvm does not end'')
            | Sleep c t \<Rightarrow> Sleep c t | Fault e \<Rightarrow> Fault e)
      else Ret () s)"
  by pat_completeness auto
termination
  by (relation "measure (\<lambda>(pgdir, a, oldsz, s). 2 ^ 32 - unat a)")
    (auto simp: word_less_nat_alt intro!: diff_less_mono2)

declare deallocuvm_loop.simps [simp del]

definition deallocuvm :: "uint \<Rightarrow> uint \<Rightarrow> uint \<Rightarrow> (uint, 'z mach_scheme) kernel" where
  "deallocuvm pgdir oldsz newsz =
     (if oldsz \<le> newsz then kret oldsz
      else kbind (deallocuvm_loop pgdir (PGROUNDUP newsz) oldsz) (\<lambda>_. kret newsz))"

definition freevm :: "uint \<Rightarrow> (unit, 'z mach_scheme) kernel" where
  "freevm pgdir =
     (if pgdir = 0 then kpanic ''freevm: no pgdir''
      else kbind (deallocuvm pgdir KERNBASE 0) (\<lambda>_.
           kbind (kfor [0..<1024] (\<lambda>i.
             kbind (kget (\<lambda>s. read32 (mem s) (pgdir + 4 * of_nat i))) (\<lambda>e.
             kwhen (e AND PTE_P \<noteq> 0) (kfree (P2V (PTE_ADDR e)))))) (\<lambda>_.
           kfree pgdir)))"

subsection \<open>Growing and copying an address space\<close>

definition page_range :: "uint \<Rightarrow> uint \<Rightarrow> uint list" where
  "page_range a b = map (\<lambda>i. a + of_nat (4096 * i)) [0..<(unat b - unat a + 4095) div 4096]"

primrec allocuvm_loop :: "uint list \<Rightarrow> uint \<Rightarrow> uint \<Rightarrow> uint \<Rightarrow> (uint, 'z mach_scheme) kernel" where
  "allocuvm_loop [] pgdir oldsz newsz = kret newsz"
| "allocuvm_loop (a # as) pgdir oldsz newsz =
     kbind kalloc (\<lambda>pg.
     if pg = 0 then kbind (deallocuvm pgdir newsz oldsz) (\<lambda>_. kret 0)
     else kbind (kmod (\<lambda>s. s\<lparr>mem := memset (mem s) pg 0 PGSIZE\<rparr>)) (\<lambda>_.
          kbind (mappages pgdir a PGSIZE (V2P pg) (PTE_W OR PTE_U)) (\<lambda>r.
          if r < 0 then kbind (deallocuvm pgdir newsz oldsz) (\<lambda>_. kbind (kfree pg) (\<lambda>_. kret 0))
          else allocuvm_loop as pgdir oldsz newsz)))"

definition allocuvm :: "uint \<Rightarrow> uint \<Rightarrow> uint \<Rightarrow> (uint, 'z mach_scheme) kernel" where
  "allocuvm pgdir oldsz newsz =
     (if KERNBASE \<le> newsz then kret 0
      else if newsz < oldsz then kret oldsz
      else allocuvm_loop (page_range (PGROUNDUP oldsz) newsz) pgdir oldsz newsz)"

definition kmap :: "uint \<Rightarrow> (uint \<times> uint \<times> uint \<times> uint) list" where
  "kmap d =
     [(KERNBASE, 0, EXTMEM, PTE_W),
      (KERNLINK, V2P KERNLINK, V2P d, 0),
      (d, V2P d, PHYSTOP, PTE_W),
      (DEVSPACE, DEVSPACE, 0, PTE_W)]"

primrec setupkvm_loop :: "(uint \<times> uint \<times> uint \<times> uint) list \<Rightarrow> uint \<Rightarrow> (uint, 'z mach_scheme) kernel" where
  "setupkvm_loop [] pgdir = kret pgdir"
| "setupkvm_loop (k # ks) pgdir =
     (case k of (virt, phys_start, phys_end, perm) \<Rightarrow>
        kbind (mappages pgdir virt (phys_end - phys_start) phys_start perm) (\<lambda>r.
        if r < 0 then kbind (freevm pgdir) (\<lambda>_. kret 0) else setupkvm_loop ks pgdir))"

definition setupkvm :: "(uint, 'z mach_scheme) kernel" where
  "setupkvm =
     kbind kalloc (\<lambda>pgdir.
     if pgdir = 0 then kret 0
     else kbind (kmod (\<lambda>s. s\<lparr>mem := memset (mem s) pgdir 0 PGSIZE\<rparr>)) (\<lambda>_.
          if DEVSPACE < P2V PHYSTOP then kpanic ''PHYSTOP too high''
          else kbind (kget kdata) (\<lambda>d. setupkvm_loop (kmap d) pgdir)))"

definition inituvm :: "uint \<Rightarrow> uint \<Rightarrow> uint \<Rightarrow> (unit, 'z mach_scheme) kernel" where
  "inituvm pgdir init sz =
     (if PGSIZE \<le> sz then kpanic ''inituvm: more than a page''
      else kbind kalloc (\<lambda>pg.
           kbind (kmod (\<lambda>s. s\<lparr>mem := memset (mem s) pg 0 PGSIZE\<rparr>)) (\<lambda>_.
           kbind (mappages pgdir 0 PGSIZE (V2P pg) (PTE_W OR PTE_U)) (\<lambda>_.
           kmod (\<lambda>s. s\<lparr>mem := memmove (mem s) pg init sz\<rparr>)))))"

primrec copyuvm_loop :: "uint list \<Rightarrow> uint \<Rightarrow> uint \<Rightarrow> (uint, 'z mach_scheme) kernel" where
  "copyuvm_loop [] pgdir d = kret d"
| "copyuvm_loop (i # is) pgdir d =
     kbind (walkpgdir pgdir i False) (\<lambda>pte.
     if pte = 0 then kpanic ''copyuvm: pte should exist''
     else kbind (kget (\<lambda>s. read32 (mem s) pte)) (\<lambda>e.
     if e AND PTE_P = 0 then kpanic ''copyuvm: page not present''
     else kbind kalloc (\<lambda>pg.
     if pg = 0 then kbind (freevm d) (\<lambda>_. kret 0)
     else kbind (kmod (\<lambda>s. s\<lparr>mem := memmove (mem s) pg (P2V (PTE_ADDR e)) PGSIZE\<rparr>)) (\<lambda>_.
          kbind (mappages d i PGSIZE (V2P pg) (PTE_FLAGS e)) (\<lambda>r.
          if r < 0 then kbind (kfree pg) (\<lambda>_. kbind (freevm d) (\<lambda>_. kret 0))
          else copyuvm_loop is pgdir d)))))"

definition copyuvm :: "uint \<Rightarrow> uint \<Rightarrow> (uint, 'z mach_scheme) kernel" where
  "copyuvm pgdir sz =
     kbind setupkvm (\<lambda>d. if d = 0 then kret 0 else copyuvm_loop (page_range 0 sz) pgdir d)"

subsection \<open>Access to user pages\<close>

definition clearpteu :: "uint \<Rightarrow> uint \<Rightarrow> (unit, 'z mach_scheme) kernel" where
  "clearpteu pgdir uva =
     kbind (walkpgdir pgdir uva False) (\<lambda>pte.
     if pte = 0 then kpanic ''clearpteu''
     else kmod (\<lambda>s. s\<lparr>mem := write32 (mem s) pte (read32 (mem s) pte AND NOT PTE_U)\<rparr>))"

text \<open>\<^verbatim>\<open>uva2ka\<close> reads the entry without a test for null: undefined where there is no page table.\<close>

definition uva2ka :: "uint \<Rightarrow> uint \<Rightarrow> (uint, 'z mach_scheme) kernel" where
  "uva2ka pgdir uva =
     kbind (walkpgdir pgdir uva False) (\<lambda>pte.
     if pte = 0 then kundef ''uva2ka: null dereference''
     else kbind (kget (\<lambda>s. read32 (mem s) pte)) (\<lambda>e.
     if e AND PTE_P = 0 then kret 0
     else if e AND PTE_U = 0 then kret 0
     else kret (P2V (PTE_ADDR e))))"

text \<open>\<^verbatim>\<open>copyout\<close>: the \<open>len\<close> bytes at \<open>p\<close> are given as a list.\<close>

definition write_bytes :: "memory \<Rightarrow> uint \<Rightarrow> uchar list \<Rightarrow> memory" where
  "write_bytes m a bs = (\<lambda>x. if unat (x - a) < length bs then bs ! unat (x - a) else m x)"

lemma page_room: "0 < 4096 - unat (va - PGROUNDDOWN va)"
proof -
  have "PGROUNDDOWN va \<le> va" by (simp add: word_le_nat_alt unat_PGROUNDDOWN)
  then have "unat (va - PGROUNDDOWN va) = unat va mod 4096"
    by (simp add: unat_sub unat_PGROUNDDOWN minus_div_mult_eq_mod)
  then show ?thesis by simp
qed

function copyout :: "uint \<Rightarrow> uint \<Rightarrow> uchar list \<Rightarrow> (int, 'z mach_scheme) kernel" where
  "copyout pgdir va buf s =
     (if buf = [] then Ret 0 s
      else let va0 = PGROUNDDOWN va
           in case uva2ka pgdir va0 s of
                Ret pa0 t \<Rightarrow>
                  if pa0 = 0 then Ret (- 1) t
                  else let n = min (4096 - unat (va - va0)) (length buf)
                       in copyout pgdir (va0 + PGSIZE) (drop n buf)
                            (t\<lparr>mem := write_bytes (mem t) (pa0 + (va - va0)) (take n buf)\<rparr>)
              | Sleep c t \<Rightarrow> Sleep c t | Fault e \<Rightarrow> Fault e)"
  by pat_completeness auto
termination
  by (relation "measure (\<lambda>(pgdir, va, buf, s). length buf)") (use page_room in auto)

declare copyout.simps [simp del]

subsection \<open>Freeing an address space ends\<close>

text \<open>States that differ only in the contents of memory and in the free list.\<close>

definition mem_frame :: "'z mach_scheme \<Rightarrow> 'z mach_scheme \<Rightarrow> bool" where
  "mem_frame s t \<longleftrightarrow> t = s\<lparr>mem := mem t, freelist := freelist t\<rparr>"

lemma mem_frame_refl [simp]: "mem_frame s s"
  by (simp add: mem_frame_def)

lemma mem_frame_trans: "mem_frame s t \<Longrightarrow> mem_frame t u \<Longrightarrow> mem_frame s u"
  unfolding mem_frame_def by (cases s; cases t; cases u) simp

abbreviation mem_sound :: "('a, 'z mach_scheme) kernel \<Rightarrow> 'z mach_scheme \<Rightarrow> bool" where
  "mem_sound f s \<equiv> sound f s (\<lambda>_. mem_frame s) (\<lambda>_ _. False)"

lemma mem_sound_bind:
  assumes "mem_sound f s" and "\<And>x t. mem_frame s t \<Longrightarrow> mem_sound (g x) t"
  shows "mem_sound (kbind f g) s"
  by (rule sound_bind, rule sound_mono[OF assms(1)])
    (auto intro: sound_mono[OF assms(2)] mem_frame_trans)

lemma kalloc_mem: "mem_sound kalloc s"
  by (simp add: sound_def kalloc_def Let_def mem_frame_def)

lemma kfree_mem_sound: "mem_sound (kfree v) s"
  by (auto simp: sound_def kfree_def mem_frame_def Let_def)

lemma walkpgdir_no_alloc: "\<exists>pte. walkpgdir pgdir va False s = Ret pte s"
  by (simp add: walkpgdir_def Let_def)

lemma unat_PDX: "unat (PDX a) = unat a div 4194304"
proof -
  have "unat a div 4194304 < 1024" using unat_uint_less[of a] by (simp add: div_less_iff_less_mult)
  moreover have "PDX a = take_bit 10 (drop_bit 22 a)"
    by (simp add: PDX_def take_bit_eq_mask mask_eq_exp_minus_1)
  ultimately show ?thesis
    by (simp add: drop_bit_eq_div take_bit_eq_mod unat_mod_distrib unat_div_distrib)
qed

lemma unat_push22: "unat (push_bit 22 w :: uint) = unat w * 4194304 mod 4294967296"
  by (simp add: push_bit_eq_mult unat_word_ariths(2))

lemma next_table:
  assumes "unat a < 2147483648"
  shows "a < PGADDR (PDX a + 1) 0 0 - PGSIZE + PGSIZE"
proof -
  let ?d = "unat a div 4194304"
  have d: "?d < 512" using assms by (simp add: div_less_iff_less_mult)
  then have "unat (PDX a + 1) = ?d + 1" by (simp add: unat_add_mod unat_PDX)
  then have "unat (push_bit 22 (PDX a + 1)) = (?d + 1) * 4194304"
    using d unfolding unat_push22 by (simp del: of_nat_Suc)
  then have "unat a < unat (push_bit 22 (PDX a + 1))"
    by (simp add: dividend_less_times_div add.commute mult.commute)
  then show ?thesis by (simp add: PGADDR_def word_less_nat_alt)
qed

lemma deallocuvm_step_sound:
  assumes "a < oldsz" and "oldsz \<le> KERNBASE"
  shows "sound (deallocuvm_step pgdir a) s (\<lambda>a' t. mem_frame s t \<and> a < a') (\<lambda>_ _. False)"
proof -
  have b: "unat a < 2147483648"
    using assms by (simp add: word_less_nat_alt word_le_nat_alt KERNBASE_def)
  have up: "a < a + PGSIZE"
    using b by (simp add: word_less_nat_alt PGSIZE_def unat_add_mod)
  obtain pte where w: "walkpgdir pgdir a False s = Ret pte s" using walkpgdir_no_alloc by blast
  let ?e = "read32 (mem s) pte"
  have "sound (kbind (kfree v) (\<lambda>_.
      kbind (kmod (\<lambda>s. s\<lparr>mem := write32 (mem s) pte 0\<rparr>)) (\<lambda>_. kret (a + PGSIZE)))) s
      (\<lambda>a' t. mem_frame s t \<and> a < a') (\<lambda>_ _. False)" for v
  proof (rule sound_bind, rule sound_mono[OF kfree_mem_sound])
    fix t assume "mem_frame s t"
    then have "mem_frame s (t\<lparr>mem := write32 (mem t) pte 0\<rparr>)"
      unfolding mem_frame_def by (cases s; cases t) simp
    then show "sound (kbind (kmod (\<lambda>s. s\<lparr>mem := write32 (mem s) pte 0\<rparr>)) (\<lambda>_. kret (a + PGSIZE))) t
      (\<lambda>a' t. mem_frame s t \<and> a < a') (\<lambda>_ _. False)"
      using up by (simp add: sound_def)
  qed simp
  then show ?thesis
    using w up next_table[OF b] by (simp add: deallocuvm_step_def sound_def kbind_def)
qed

lemma deallocuvm_loop_sound:
  "oldsz \<le> KERNBASE \<Longrightarrow> mem_sound (deallocuvm_loop pgdir a oldsz) s"
proof (induction pgdir a oldsz s rule: deallocuvm_loop.induct)
  case (1 pgdir a oldsz s)
  show ?case
  proof (cases "a < oldsz")
    case True
    from deallocuvm_step_sound[OF this 1(2), of pgdir s] 1 True show ?thesis
      by (auto simp: sound_def deallocuvm_loop.simps[of pgdir a] split: outcome.splits
          intro: mem_frame_trans)
  next
    case False
    then show ?thesis by (simp add: sound_def deallocuvm_loop.simps[of pgdir a])
  qed
qed

lemma deallocuvm_sound: "oldsz \<le> KERNBASE \<Longrightarrow> mem_sound (deallocuvm pgdir oldsz newsz) s"
  by (auto simp: deallocuvm_def intro!: mem_sound_bind deallocuvm_loop_sound)

lemma freevm_sound: "mem_sound (freevm pgdir) s"
proof -
  have "mem_sound (kfor is (\<lambda>i. kbind (kget (\<lambda>s. read32 (mem s) (pgdir + 4 * of_nat i))) (\<lambda>e.
      kwhen (e AND PTE_P \<noteq> 0) (kfree (P2V (PTE_ADDR e)))))) t" for "is" t
  proof (rule sound_kfor)
    fix i u
    assume "mem_frame t u"
    then show "sound (kbind (kget (\<lambda>s. read32 (mem s) (pgdir + 4 * of_nat i))) (\<lambda>e.
        kwhen (e AND PTE_P \<noteq> 0) (kfree (P2V (PTE_ADDR e))))) u (\<lambda>_. mem_frame t) (\<lambda>_ _. False)"
      by (intro sound_bind) (auto simp: kwhen_def intro: sound_mono[OF kfree_mem_sound] mem_frame_trans)
  qed simp
  then show ?thesis
    by (auto simp: freevm_def intro!: mem_sound_bind deallocuvm_sound kfree_mem_sound)
qed

end
