(* ===== verification/Xv6_Proc.thy ===== *)
theory Xv6_Proc
  imports Xv6_Vm
begin

text \<open>
  The process table of \<^verbatim>\<open>proc.c\<close> and \<^verbatim>\<open>proc.h\<close>, the per-CPU state, and the operations on the table that
  do not depend on the scheduler. A pointer into the table is its index, a null pointer \<open>None\<close>.
  An operation runs with \<^verbatim>\<open>ptable.lock\<close> held from its first access to its last, so it is one step.
\<close>

subsection \<open>State\<close>

datatype procstate = UNUSED | EMBRYO | SLEEPING | RUNNABLE | RUNNING | ZOMBIE

datatype policy = ROUND_ROBIN | FCFS | PBS | MLFQ

record proc =
  p_sz :: uint
  p_pgdir :: uint
  p_kstack :: uint
  p_state :: procstate
  p_pid :: int
  p_parent :: "nat option"
  p_tf :: uint
  p_context :: uint
  p_chan :: "chan option"
  p_killed :: int
  p_ofile :: "nat option list"
  p_cwd :: "nat option"
  p_name :: "nat \<Rightarrow> uchar"
  p_start_time :: int
  p_end_time :: int
  p_run_time :: int
  p_wait_time :: int
  p_priority :: int
  p_num_run :: int
  p_cur_time :: int
  p_ticks :: "int list"
  p_queueNo :: int

record cpu =
  c_apicid :: uchar
  c_esp0 :: uint
  c_cr3 :: uint
  c_proc :: "nat option"

text \<open>
  \<open>thiscpu\<close> is the CPU that executes the operation. The addresses of \<^verbatim>\<open>forkret\<close> and \<^verbatim>\<open>trapret\<close> are fixed
  when the kernel is linked.
\<close>

record ptab = mach +
  ptable :: "proc list"
  nextpid :: int
  initproc :: "nat option"
  ticks :: uint
  cpus :: "cpu list"
  thiscpu :: nat
  kpgdir :: uint
  forkret_addr :: uint
  trapret_addr :: uint
  q_sz :: "int list"
  q_front :: "int list"
  q_rear :: "int list"
  q_slots :: "nat option list list"

text \<open>The table and the queues are in static storage, which starts as zeroes.\<close>

definition zero_proc :: proc where
  "zero_proc = \<lparr>p_sz = 0, p_pgdir = 0, p_kstack = 0, p_state = UNUSED, p_pid = 0, p_parent = None,
     p_tf = 0, p_context = 0, p_chan = None, p_killed = 0, p_ofile = replicate NOFILE None,
     p_cwd = None, p_name = (\<lambda>_. 0), p_start_time = 0, p_end_time = 0, p_run_time = 0,
     p_wait_time = 0, p_priority = 0, p_num_run = 0, p_cur_time = 0, p_ticks = replicate 5 0,
     p_queueNo = 0\<rparr>"

definition zero_ptab :: "nat \<Rightarrow> ptab" where
  "zero_ptab ncpu = \<lparr>mem = (\<lambda>_. 0), freelist = 0, use_lock = False, kend = 0x80110000, kdata = 0x80108000,
     ptable = replicate NPROC zero_proc, nextpid = 1, initproc = None, ticks = 0,
     cpus = map (\<lambda>i. \<lparr>c_apicid = of_nat i, c_esp0 = 0, c_cr3 = 0, c_proc = None\<rparr>) [0..<ncpu],
     thiscpu = 0, kpgdir = 0, forkret_addr = 0, trapret_addr = 0,
     q_sz = replicate 5 0, q_front = replicate 5 0, q_rear = replicate 5 0,
     q_slots = replicate 5 (replicate NPROC None)\<rparr>"

abbreviation proc_at :: "'z ptab_scheme \<Rightarrow> nat \<Rightarrow> proc" where
  "proc_at s i \<equiv> ptable s ! i"

definition upd_proc :: "nat \<Rightarrow> (proc \<Rightarrow> proc) \<Rightarrow> 'z ptab_scheme \<Rightarrow> 'z ptab_scheme" where
  "upd_proc i f s = s\<lparr>ptable := (ptable s)[i := f (ptable s ! i)]\<rparr>"

definition upd_cpu :: "(cpu \<Rightarrow> cpu) \<Rightarrow> 'z ptab_scheme \<Rightarrow> 'z ptab_scheme" where
  "upd_cpu f s = s\<lparr>cpus := (cpus s)[thiscpu s := f (cpus s ! thiscpu s)]\<rparr>"

text \<open>The loop \<^verbatim>\<open>for(p = ptable.proc; p < &ptable.proc[NPROC]; p++)\<close> up to the first match.\<close>

definition find_proc :: "(proc \<Rightarrow> bool) \<Rightarrow> 'z ptab_scheme \<Rightarrow> nat option" where
  "find_proc P s = find (\<lambda>i. P (proc_at s i)) [0..<NPROC]"

definition myproc :: "(nat option, 'z ptab_scheme) kernel" where
  "myproc = kget (\<lambda>s. c_proc (cpus s ! thiscpu s))"

text \<open>A use of \<^verbatim>\<open>myproc()\<close> that dereferences the pointer.\<close>

definition curproc :: "(nat, 'z ptab_scheme) kernel" where
  "curproc = kbind myproc (\<lambda>p. case p of None \<Rightarrow> kundef ''null process'' | Some i \<Rightarrow> kret i)"

subsection \<open>Address space of a process on the CPU\<close>

definition switchkvm :: "(unit, 'z ptab_scheme) kernel" where
  "switchkvm = kmod (\<lambda>s. upd_cpu (\<lambda>c. c\<lparr>c_cr3 := V2P (kpgdir s)\<rparr>) s)"

definition switchuvm :: "nat option \<Rightarrow> (unit, 'z ptab_scheme) kernel" where
  "switchuvm p =
     (case p of
        None \<Rightarrow> kpanic ''switchuvm: no process''
      | Some i \<Rightarrow> kbind (kget (\<lambda>s. proc_at s i)) (\<lambda>pr.
          if p_kstack pr = 0 then kpanic ''switchuvm: no kstack''
          else if p_pgdir pr = 0 then kpanic ''switchuvm: no pgdir''
          else kmod (upd_cpu (\<lambda>c. c\<lparr>c_esp0 := p_kstack pr + KSTACKSIZE, c_cr3 := V2P (p_pgdir pr)\<rparr>))))"

subsection \<open>Sleeping, waking, killing\<close>

definition wakeup1 :: "chan option \<Rightarrow> 'z ptab_scheme \<Rightarrow> 'z ptab_scheme" where
  "wakeup1 c s = s\<lparr>ptable :=
     map (\<lambda>p. if p_state p = SLEEPING \<and> p_chan p = c then p\<lparr>p_state := RUNNABLE\<rparr> else p) (ptable s)\<rparr>"

definition wakeup :: "chan \<Rightarrow> (unit, 'z ptab_scheme) kernel" where
  "wakeup c = kmod (wakeup1 (Some c))"

definition kill :: "int \<Rightarrow> (int, 'z ptab_scheme) kernel" where
  "kill pid s =
     (case find_proc (\<lambda>p. p_pid p = pid) s of
        None \<Rightarrow> Ret (- 1) s
      | Some i \<Rightarrow> Ret 0 (upd_proc i (\<lambda>p. p\<lparr>p_killed := 1,
          p_state := (if p_state p = SLEEPING then RUNNABLE else p_state p)\<rparr>) s))"

subsection \<open>Priorities and statistics\<close>

definition set_priority :: "int \<Rightarrow> int \<Rightarrow> (int, 'z ptab_scheme) kernel" where
  "set_priority pid priority s =
     (case find_proc (\<lambda>p. p_pid p = pid) s of
        None \<Rightarrow> Ret (- 1) s
      | Some i \<Rightarrow> Ret (p_priority (proc_at s i)) (upd_proc i (\<lambda>p. p\<lparr>p_priority := priority\<rparr>) s))"

record proc_stat =
  st_pid :: int
  st_runtime :: int
  st_num_run :: int
  st_current_queue :: int
  st_ticks :: "int list"

text \<open>\<^verbatim>\<open>getpinfo\<close> returns its result and what it stores at \<open>pp\<close>, if it stores anything.\<close>

definition getpinfo :: "int \<Rightarrow> (int \<times> proc_stat option, 'z ptab_scheme) kernel" where
  "getpinfo pid s =
     (case find_proc (\<lambda>p. p_pid p = pid) s of
        None \<Rightarrow> Ret (0, None) s
      | Some i \<Rightarrow> (let p = proc_at s i in
          Ret (1, Some \<lparr>st_pid = p_pid p, st_runtime = p_run_time p, st_num_run = p_num_run p,
                        st_current_queue = p_queueNo p, st_ticks = map (\<lambda>k. p_ticks p ! k) [0..<5]\<rparr>) s))"

definition checkPremption :: "int \<Rightarrow> bool \<Rightarrow> 'z ptab_scheme \<Rightarrow> bool" where
  "checkPremption priority f s =
     (if \<not> f then find_proc (\<lambda>p. p_pid p \<noteq> 0 \<and> p_priority p < priority) s \<noteq> None
      else find_proc (\<lambda>p. p_pid p \<noteq> 0 \<and> p_priority p \<le> priority) s \<noteq> None)"

subsection \<open>Facts about the table\<close>

definition ptable_ok :: "'z ptab_scheme \<Rightarrow> bool" where
  "ptable_ok s \<longleftrightarrow> length (ptable s) = NPROC \<and> thiscpu s < length (cpus s)"

lemma upd_proc_simps [simp]:
  "mem (upd_proc i f s) = mem s" "freelist (upd_proc i f s) = freelist s"
  "use_lock (upd_proc i f s) = use_lock s" "kend (upd_proc i f s) = kend s"
  "ptable (upd_proc i f s) = (ptable s)[i := f (ptable s ! i)]" "nextpid (upd_proc i f s) = nextpid s"
  "initproc (upd_proc i f s) = initproc s" "ticks (upd_proc i f s) = ticks s"
  "cpus (upd_proc i f s) = cpus s" "thiscpu (upd_proc i f s) = thiscpu s"
  "kpgdir (upd_proc i f s) = kpgdir s" "q_sz (upd_proc i f s) = q_sz s"
  "q_front (upd_proc i f s) = q_front s" "q_rear (upd_proc i f s) = q_rear s"
  "q_slots (upd_proc i f s) = q_slots s"
  by (simp_all add: upd_proc_def)

lemma upd_cpu_simps [simp]:
  "mem (upd_cpu g s) = mem s" "freelist (upd_cpu g s) = freelist s"
  "use_lock (upd_cpu g s) = use_lock s" "kend (upd_cpu g s) = kend s"
  "ptable (upd_cpu g s) = ptable s" "nextpid (upd_cpu g s) = nextpid s"
  "initproc (upd_cpu g s) = initproc s" "ticks (upd_cpu g s) = ticks s"
  "cpus (upd_cpu g s) = (cpus s)[thiscpu s := g (cpus s ! thiscpu s)]"
  "thiscpu (upd_cpu g s) = thiscpu s" "kpgdir (upd_cpu g s) = kpgdir s"
  "q_sz (upd_cpu g s) = q_sz s" "q_front (upd_cpu g s) = q_front s" "q_rear (upd_cpu g s) = q_rear s"
  "q_slots (upd_cpu g s) = q_slots s"
  by (simp_all add: upd_cpu_def)

lemma find_upt_Some:
  "find P [a..<b] = Some i \<longleftrightarrow> a \<le> i \<and> i < b \<and> P i \<and> (\<forall>j. a \<le> j \<longrightarrow> j < i \<longrightarrow> \<not> P j)"
proof (induction "b - a" arbitrary: a)
  case 0
  then show ?case by auto
next
  case (Suc n)
  then have ab: "a < b" by simp
  then have "find P [a..<b] = (if P a then Some a else find P [Suc a..<b])"
    by (simp add: upt_conv_Cons)
  moreover have "find P [Suc a..<b] = Some i \<longleftrightarrow>
      Suc a \<le> i \<and> i < b \<and> P i \<and> (\<forall>j. Suc a \<le> j \<longrightarrow> j < i \<longrightarrow> \<not> P j)"
    using Suc by simp
  ultimately show ?case using ab
    by (auto simp: Suc_le_eq) (metis le_neq_implies_less)+
qed

lemma find_upt_None: "find P [a..<b] = None \<longleftrightarrow> (\<forall>j. a \<le> j \<longrightarrow> j < b \<longrightarrow> \<not> P j)"
  by (auto simp: find_None_iff)

lemma find_proc_Some:
  "find_proc P s = Some i \<longleftrightarrow> i < NPROC \<and> P (proc_at s i) \<and> (\<forall>j<i. \<not> P (proc_at s j))"
  by (simp add: find_proc_def find_upt_Some)

lemma find_proc_None: "find_proc P s = None \<longleftrightarrow> (\<forall>j<NPROC. \<not> P (proc_at s j))"
  by (simp add: find_proc_def find_upt_None)

end
