(* ===== verification/Xv6_Fifo.thy ===== *)
theory Xv6_Fifo
  imports Xv6_Prelude
begin

text \<open>
  The interface of a bounded first-in first-out buffer. The kernel has several: the five ready queues
  of the multi-level feedback scheduler, the pipes, and the console's input line. Each is a ring in an
  array; what a client relies on is only the list of what the ring holds.
\<close>

datatype 'a fifo_op = Put 'a | Get

text \<open>
  The values a client gets from a sequence of operations on a list, where a put on a full and a get
  on an empty buffer do nothing, and the list at the end.
\<close>

fun list_run :: "nat \<Rightarrow> 'a fifo_op list \<Rightarrow> 'a list \<Rightarrow> 'a list \<times> 'a list" where
  "list_run cap [] xs = ([], xs)"
| "list_run cap (Put x # ops) xs = list_run cap ops (if length xs < cap then xs @ [x] else xs)"
| "list_run cap (Get # ops) xs =
     (case xs of [] \<Rightarrow> list_run cap ops []
      | y # ys \<Rightarrow> (case list_run cap ops ys of (out, rest) \<Rightarrow> (y # out, rest)))"

fun buf_run :: "('q \<Rightarrow> bool) \<Rightarrow> ('q \<Rightarrow> bool) \<Rightarrow> ('a \<Rightarrow> 'q \<Rightarrow> 'q) \<Rightarrow> ('q \<Rightarrow> 'a \<times> 'q) \<Rightarrow> 'a fifo_op list \<Rightarrow> 'q
    \<Rightarrow> 'a list \<times> 'q" where
  "buf_run isfull isempty put get [] q = ([], q)"
| "buf_run isfull isempty put get (Put x # ops) q =
     buf_run isfull isempty put get ops (if isfull q then q else put x q)"
| "buf_run isfull isempty put get (Get # ops) q =
     (if isempty q then buf_run isfull isempty put get ops q
      else case get q of (x, q') \<Rightarrow>
        (case buf_run isfull isempty put get ops q' of (out, q'') \<Rightarrow> (x # out, q'')))"

text \<open>What comes out is, in order, a prefix of what was there followed by what was put.\<close>

fun puts :: "nat \<Rightarrow> 'a fifo_op list \<Rightarrow> nat \<Rightarrow> 'a list" where
  "puts cap [] n = []"
| "puts cap (Put x # ops) n = (if n < cap then x # puts cap ops (Suc n) else puts cap ops n)"
| "puts cap (Get # ops) n = puts cap ops (n - 1)"

lemma list_run_order:
  "list_run cap ops xs = (out, rest) \<Longrightarrow> out @ rest = xs @ puts cap ops (length xs)"
  by (induction cap ops xs arbitrary: out rest rule: list_run.induct)
    (auto split: list.splits prod.splits if_splits)

locale fifo =
  fixes inv :: "'q \<Rightarrow> bool" and contents :: "'q \<Rightarrow> 'a list" and cap :: nat
    and isfull :: "'q \<Rightarrow> bool" and isempty :: "'q \<Rightarrow> bool"
    and put :: "'a \<Rightarrow> 'q \<Rightarrow> 'q" and get :: "'q \<Rightarrow> 'a \<times> 'q"
  assumes full_iff: "inv q \<Longrightarrow> isfull q \<longleftrightarrow> cap \<le> length (contents q)"
    and empty_iff: "inv q \<Longrightarrow> isempty q \<longleftrightarrow> contents q = []"
    and put_inv: "inv q \<Longrightarrow> \<not> isfull q \<Longrightarrow> inv (put x q)"
    and put_contents: "inv q \<Longrightarrow> \<not> isfull q \<Longrightarrow> contents (put x q) = contents q @ [x]"
    and get_inv: "inv q \<Longrightarrow> \<not> isempty q \<Longrightarrow> inv (snd (get q))"
    and get_contents: "inv q \<Longrightarrow> \<not> isempty q \<Longrightarrow> contents q = fst (get q) # contents (snd (get q))"
begin

lemma get_Cons:
  assumes "inv q" and "contents q = x # xs"
  obtains q' where "get q = (x, q')" and "inv q'" and "contents q' = xs"
proof -
  have ne: "\<not> isempty q" using assms empty_iff by simp
  have "contents q = fst (get q) # contents (snd (get q))" by (rule get_contents[OF assms(1) ne])
  then have "fst (get q) = x" "contents (snd (get q)) = xs" using assms(2) by simp_all
  then show ?thesis using that get_inv[OF assms(1) ne] by (metis prod.collapse)
qed

theorem run_refines_list:
  assumes "inv q"
  shows "case buf_run isfull isempty put get ops q of (out, q') \<Rightarrow>
    inv q' \<and> list_run cap ops (contents q) = (out, contents q')"
  using assms
proof (induction ops arbitrary: q)
  case Nil
  then show ?case by simp
next
  case (Cons op ops)
  show ?case
  proof (cases op)
    case (Put x)
    then show ?thesis
      using Cons.prems Cons.IH[of q] Cons.IH[of "put x q"] full_iff[of q] put_inv[of q x]
        put_contents[of q x]
      by (cases "isfull q") auto
  next
    case Get
    show ?thesis
    proof (cases "contents q")
      case Nil
      then show ?thesis using Cons.prems Cons.IH[of q] Get empty_iff[of q] by auto
    next
      case (Cons x xs)
      then obtain q' where q': "get q = (x, q')" "inv q'" "contents q' = xs"
        using get_Cons Cons.prems by blast
      moreover have "\<not> isempty q" using Cons Cons.prems empty_iff by simp
      ultimately show ?thesis
        using Cons.IH[of q'] Get Cons by (auto split: prod.splits)
    qed
  qed
qed

end

end
