(* ===== verification/Xv6_Mlfq.thy ===== *)
theory Xv6_Mlfq
  imports Xv6_Proc Xv6_Fifo
begin

text \<open>
  The ready queues of the multi-level feedback scheduler: five rings of \<^verbatim>\<open>NPROC\<close> slots in the global
  arrays \<^verbatim>\<open>sz\<close>, \<^verbatim>\<open>front\<close>, \<^verbatim>\<open>rear\<close> and \<^verbatim>\<open>queue\<close> (\<^verbatim>\<open>types.h\<close>), with \<^verbatim>\<open>isEmpty\<close>, \<^verbatim>\<open>isFull\<close>, \<^verbatim>\<open>push\<close> and
  \<^verbatim>\<open>pop\<close> of \<^verbatim>\<open>proc.c\<close>. An empty ring has \<^verbatim>\<open>front\<close> and \<^verbatim>\<open>rear\<close> at -1.
\<close>

subsection \<open>Operations\<close>

definition isEmpty :: "nat \<Rightarrow> 'z ptab_scheme \<Rightarrow> bool" where
  "isEmpty q s = (q_front s ! q = - 1)"

definition isFull :: "nat \<Rightarrow> 'z ptab_scheme \<Rightarrow> bool" where
  "isFull q s = (q_front s ! q = q_rear s ! q + 1 \<or> q_front s ! q = 0 \<and> q_rear s ! q = int NPROC - 1)"

text \<open>The search of \<^verbatim>\<open>push\<close> through queue \<open>i\<close>; its second loop also stops at a negative index.\<close>

definition in_queue :: "nat \<Rightarrow> nat \<Rightarrow> 'z ptab_scheme \<Rightarrow> bool" where
  "in_queue i cur s =
     (let f = q_front s ! i; r = q_rear s ! i
      in if f > r
         then list_ex (\<lambda>j. (int j \<ge> f \<or> int j \<le> r) \<and> q_slots s ! i ! j = Some cur) [0..<NPROC]
         else list_ex (\<lambda>j. q_slots s ! i ! nat j = Some cur) (takeWhile (\<lambda>j. j \<ge> 0) [f..r]))"

definition enqueue :: "nat \<Rightarrow> nat \<Rightarrow> 'z ptab_scheme \<Rightarrow> 'z ptab_scheme" where
  "enqueue q cur s =
     (let f = (if q_front s ! q = - 1 then 0 else q_front s ! q);
          r = (q_rear s ! q + 1) mod int NPROC
      in (upd_proc cur (\<lambda>p. p\<lparr>p_cur_time := 0\<rparr>) s)
           \<lparr>q_front := (q_front s)[q := f],
            q_rear := (q_rear s)[q := r],
            q_slots := (q_slots s)[q := (q_slots s ! q)[nat r := Some cur]],
            q_sz := (q_sz s)[q := q_sz s ! q + 1]\<rparr>)"

definition push :: "int \<Rightarrow> nat \<Rightarrow> (unit, 'z ptab_scheme) kernel" where
  "push queueNo cur s =
     (if list_ex (\<lambda>i. in_queue i cur s) [0..<5] then Ret () s
      else if queueNo < 0 \<or> 5 \<le> queueNo then Fault (Undef ''push: queue number'')
      else if isFull (nat queueNo) s then Ret () s
      else Ret () (enqueue (nat queueNo) cur s))"

definition dequeue :: "nat \<Rightarrow> 'z ptab_scheme \<Rightarrow> nat option \<times> 'z ptab_scheme" where
  "dequeue q s =
     (let cur = q_slots s ! q ! nat (q_front s ! q);
          t = (if q_front s ! q = q_rear s ! q
               then s\<lparr>q_front := (q_front s)[q := - 1], q_rear := (q_rear s)[q := - 1]\<rparr>
               else s\<lparr>q_front := (q_front s)[q := (q_front s ! q + 1) mod int NPROC]\<rparr>)
      in (cur, t\<lparr>q_sz := (q_sz t)[q := q_sz t ! q - 1]\<rparr>))"

definition pop :: "int \<Rightarrow> (nat option, 'z ptab_scheme) kernel" where
  "pop queueNo s =
     (if queueNo < 0 \<or> 5 \<le> queueNo then Fault (Undef ''pop: queue number'')
      else if q_front s ! nat queueNo < 0 then Fault (Undef ''pop: empty queue'')
      else case dequeue (nat queueNo) s of (cur, t) \<Rightarrow> Ret cur t)"

text \<open>The initialisation at the start of \<^verbatim>\<open>main\<close>; \<^verbatim>\<open>ticksQ[i]\<close> keeps the value \<^verbatim>\<open>1 << i\<close> it gets there.\<close>

definition queues_init :: "'z ptab_scheme \<Rightarrow> 'z ptab_scheme" where
  "queues_init s = s\<lparr>q_front := replicate 5 (- 1), q_rear := replicate 5 (- 1), q_sz := replicate 5 0\<rparr>"

definition ticksQ :: "nat \<Rightarrow> int" where
  "ticksQ i = 2 ^ i"

subsection \<open>What a queue holds\<close>

definition ring_ok :: "int \<Rightarrow> int \<Rightarrow> int \<Rightarrow> nat option list \<Rightarrow> bool" where
  "ring_ok f r n xs \<longleftrightarrow> length xs = 64 \<and>
     (f = - 1 \<and> r = - 1 \<and> n = 0 \<or>
      0 \<le> f \<and> f < 64 \<and> 0 \<le> r \<and> r < 64 \<and> n = (r - f) mod 64 + 1 \<and>
      (\<forall>k. 0 \<le> k \<longrightarrow> k < n \<longrightarrow> xs ! nat ((f + k) mod 64) \<noteq> None))"

definition ring_contents :: "int \<Rightarrow> int \<Rightarrow> nat option list \<Rightarrow> nat list" where
  "ring_contents f n xs = map (\<lambda>k. the (xs ! nat ((f + k) mod 64))) [0..n - 1]"

definition q_contents :: "nat \<Rightarrow> 'z ptab_scheme \<Rightarrow> nat list" where
  "q_contents q s = ring_contents (q_front s ! q) (q_sz s ! q) (q_slots s ! q)"

definition rings_ok :: "'z ptab_scheme \<Rightarrow> bool" where
  "rings_ok s \<longleftrightarrow> length (q_front s) = 5 \<and> length (q_rear s) = 5 \<and> length (q_sz s) = 5 \<and>
     length (q_slots s) = 5 \<and>
     (\<forall>q<5. ring_ok (q_front s ! q) (q_rear s ! q) (q_sz s ! q) (q_slots s ! q))"

lemma rings_okD:
  assumes "rings_ok s" and "q < 5"
  shows "ring_ok (q_front s ! q) (q_rear s ! q) (q_sz s ! q) (q_slots s ! q)"
  using assms by (simp add: rings_ok_def)

lemma mod64_last: "(f + ((r - f) mod 64 + 1)) mod 64 = (r + 1) mod (64::int)"
proof -
  have "(f + ((r - f) mod 64 + 1)) mod 64 = (f + 1 + (r - f) mod 64) mod 64" by (simp add: algebra_simps)
  also have "\<dots> = (f + 1 + (r - f)) mod 64" by (rule mod_add_right_eq)
  finally show ?thesis by (simp add: algebra_simps)
qed

lemma ring_size: "ring_ok f r n xs \<Longrightarrow> 0 \<le> n \<and> n \<le> 64"
  by (auto simp: ring_ok_def)

lemma ring_length: "ring_ok f r n xs \<Longrightarrow> length (ring_contents f n xs) = nat n"
  by (simp add: ring_contents_def)

lemma ring_empty: "ring_ok f r n xs \<Longrightarrow> f = - 1 \<longleftrightarrow> n = 0"
  by (auto simp: ring_ok_def)

lemma ring_full:
  assumes "ring_ok f r n xs"
  shows "f = r + 1 \<or> f = 0 \<and> r = 63 \<longleftrightarrow> n = 64"
proof (cases "f = - 1")
  case True
  then show ?thesis using assms by (auto simp: ring_ok_def)
next
  case False
  then have b: "0 \<le> f" "f < 64" "0 \<le> r" "r < 64" "n = (r - f) mod 64 + 1"
    using assms by (auto simp: ring_ok_def)
  show ?thesis
  proof (cases "f \<le> r")
    case True
    then have "(r - f) mod 64 = r - f" using b by (intro mod_pos_pos_trivial) auto
    then show ?thesis using b True by auto
  next
    case False
    then have "(r - f) mod 64 = r - f + 64" using b
      by (subst mod_add_self2[symmetric], intro mod_pos_pos_trivial) auto
    then show ?thesis using b False by auto
  qed
qed

lemma mod64_diff:
  assumes "0 \<le> a" and "a < 64" and "0 \<le> b" and "b < 64"
  shows "(a - b) mod 64 = (if b \<le> a then a - b else a - b + (64::int))"
proof -
  have "(a - b + 64) mod 64 = (a - b) mod 64" by (rule mod_add_self2)
  moreover have "(a - b + 64) mod 64 = a - b + 64" if "a < b"
    using assms that by (intro mod_pos_pos_trivial) auto
  moreover have "(a - b) mod 64 = a - b" if "b \<le> a"
    using assms that by (intro mod_pos_pos_trivial) auto
  ultimately show ?thesis by auto
qed

lemma ring_put:
  assumes "ring_ok f r n xs" and "n < 64"
  defines "f' \<equiv> if f = - 1 then 0 else f" and "r' \<equiv> (r + 1) mod 64"
  shows "ring_ok f' r' (n + 1) (xs[nat r' := Some x])"
    and "ring_contents f' (n + 1) (xs[nat r' := Some x]) = ring_contents f n xs @ [x]"
proof -
  have n0: "0 \<le> n" using ring_size[OF assms(1)] by simp
  have len: "length xs = 64" using assms(1) by (simp add: ring_ok_def)
  have r': "0 \<le> r'" "r' < 64" by (simp_all add: r'_def)
  have f': "0 \<le> f'" "f' < 64" using assms(1) by (auto simp: f'_def ring_ok_def)
  have last: "(f' + n) mod 64 = r'"
    using assms(1) by (auto simp: ring_ok_def f'_def r'_def mod64_last)
  have diff: "(f' + k) mod 64 \<noteq> r'" if "0 \<le> k" "k < n" for k
  proof
    assume "(f' + k) mod 64 = r'"
    then have "(f' + k) mod 64 = (f' + n) mod 64" using last by simp
    then have "64 dvd (n - k)" by (metis add_diff_cancel_left mod_eq_dvd_iff)
    then show False using that assms(2) by (auto dest: zdvd_imp_le)
  qed
  have keep: "xs[nat r' := Some x] ! nat ((f' + k) mod 64) = xs ! nat ((f + k) mod 64)"
    if "0 \<le> k" "k < n" for k
  proof -
    have "f' = f" using that assms(1) by (auto simp: f'_def ring_ok_def)
    then show ?thesis using diff[OF that] r' by (simp add: nth_list_update nat_eq_iff)
  qed
  have at: "xs[nat r' := Some x] ! nat ((f' + n) mod 64) = Some x" using last r' len by simp
  have some: "xs ! nat ((f + k) mod 64) \<noteq> None" if "0 \<le> k" "k < n" for k
    using assms(1) that by (auto simp: ring_ok_def)
  have "(r' - f') mod 64 = n"
  proof -
    have "(r' - f') mod 64 = ((f' + n) mod 64 - f') mod 64" using last by simp
    also have "\<dots> = n mod 64" by (simp add: mod_simps)
    finally show ?thesis using n0 assms(2) by simp
  qed
  moreover have "xs[nat r' := Some x] ! nat ((f' + k) mod 64) \<noteq> None" if "0 \<le> k" "k < n + 1" for k
    using that keep some at by (cases "k = n") auto
  ultimately show "ring_ok f' r' (n + 1) (xs[nat r' := Some x])"
    using f' r' len by (simp add: ring_ok_def)
  have "[0..n] = [0..n - 1] @ [n]" using n0 by (rule upto_rec2)
  then show "ring_contents f' (n + 1) (xs[nat r' := Some x]) = ring_contents f n xs @ [x]"
    using keep at by (simp add: ring_contents_def)
qed

lemma ring_get:
  assumes "ring_ok f r n xs" and "f \<noteq> - 1"
  defines "f' \<equiv> if f = r then - 1 else (f + 1) mod 64" and "r' \<equiv> if f = r then - 1 else r"
  shows "ring_ok f' r' (n - 1) xs"
    and "ring_contents f n xs = the (xs ! nat f) # ring_contents f' (n - 1) xs"
    and "xs ! nat f \<noteq> None"
proof -
  have b: "0 \<le> f" "f < 64" "0 \<le> r" "r < 64" "n = (r - f) mod 64 + 1" "length xs = 64"
    using assms(1,2) by (auto simp: ring_ok_def)
  have some: "xs ! nat ((f + k) mod 64) \<noteq> None" if "0 \<le> k" "k < n" for k
    using assms(1,2) that by (auto simp: ring_ok_def)
  have n1: "1 \<le> n" using b(5) by (simp add: pos_mod_sign)
  have one: "f = r \<longleftrightarrow> n = 1"
  proof
    assume "n = 1"
    then have "(r - f) mod 64 = 0" using b(5) by simp
    then show "f = r" using b(1-4) by (auto simp: mod64_diff split: if_splits)
  qed (use b(5) in simp)
  show "xs ! nat f \<noteq> None" using some[of 0] n1 b by simp
  show "ring_ok f' r' (n - 1) xs"
  proof (cases "f = r")
    case True
    then show ?thesis using one b by (simp add: ring_ok_def f'_def r'_def)
  next
    case False
    then have n2: "2 \<le> n" using one n1 by simp
    have "(r - (f + 1) mod 64) mod 64 = (r - f - 1) mod 64" by (simp add: mod_simps algebra_simps)
    also have "\<dots> = ((r - f) mod 64 - 1) mod 64" by (simp add: mod_simps)
    also have "\<dots> = n - 2" using b(5) n2 by (simp add: mod_pos_pos_trivial)
    finally have "n - 1 = (r - (f + 1) mod 64) mod 64 + 1" by simp
    moreover have "xs ! nat (((f + 1) mod 64 + k) mod 64) \<noteq> None" if "0 \<le> k" "k < n - 1" for k
      using some[of "k + 1"] that by (simp add: mod_simps algebra_simps)
    ultimately show ?thesis using False b by (simp add: ring_ok_def f'_def r'_def)
  qed
  have "[0..n - 1] = 0 # map (\<lambda>k. k + 1) [0..n - 2]"
  proof -
    have "[0..n - 1] = 0 # [1..n - 1]" using n1 by (simp add: upto_rec1)
    also have "[1..n - 1] = map (\<lambda>k. k + 1) [0..n - 2]"
      by (rule nth_equalityI) auto
    finally show ?thesis .
  qed
  then show "ring_contents f n xs = the (xs ! nat f) # ring_contents f' (n - 1) xs"
    using one b by (auto simp: ring_contents_def f'_def mod_simps algebra_simps)
qed

text \<open>The test of \<^verbatim>\<open>push\<close> on an index says whether the slot is in use.\<close>

definition used :: "int \<Rightarrow> int \<Rightarrow> int \<Rightarrow> bool" where
  "used f r j \<longleftrightarrow> 0 \<le> j \<and> j < 64 \<and> (if f > r then j \<ge> f \<or> j \<le> r else f \<le> j \<and> j \<le> r)"

lemma ring_members:
  assumes "ring_ok f r n xs"
  shows "x \<in> set (ring_contents f n xs) \<longleftrightarrow> (\<exists>j. used f r j \<and> xs ! nat j = Some x)"
proof (cases "f = - 1")
  case True
  then have "n = 0" "r = - 1" using assms by (auto simp: ring_ok_def)
  then show ?thesis using True by (auto simp: ring_contents_def used_def)
next
  case False
  then have b: "0 \<le> f" "f < 64" "0 \<le> r" "r < 64" "n = (r - f) mod 64 + 1"
    using assms by (auto simp: ring_ok_def)
  have some: "xs ! nat ((f + k) mod 64) \<noteq> None" if "0 \<le> k" "k < n" for k
    using assms False that by (auto simp: ring_ok_def)
  have "used f r ((f + k) mod 64)" if k: "0 \<le> k" "k < n" for k
  proof (cases "f + k < 64")
    case True
    then show ?thesis using b k by (auto simp: used_def mod64_diff split: if_splits)
  next
    case False
    have "k < 64" using k b(5) pos_mod_bound[of 64 "r - f"] by linarith
    then have "(f + k) mod 64 = f + k - 64"
      using False b by (subst minus_mod_self2[symmetric], intro mod_pos_pos_trivial) auto
    then show ?thesis using b k False by (auto simp: used_def mod64_diff split: if_splits)
  qed
  moreover have "\<exists>k. 0 \<le> k \<and> k < n \<and> (f + k) mod 64 = j" if j: "used f r j" for j
  proof (intro exI conjI)
    show "0 \<le> (j - f) mod 64" by simp
    show "(j - f) mod 64 < n" using j b by (auto simp: used_def mod64_diff split: if_splits)
    show "(f + (j - f) mod 64) mod 64 = j" using j by (simp add: used_def mod_simps)
  qed
  moreover have "x \<in> set (ring_contents f n xs) \<longleftrightarrow>
      (\<exists>k. 0 \<le> k \<and> k < n \<and> xs ! nat ((f + k) mod 64) = Some x)"
  proof -
    have "x = the (xs ! nat ((f + k) mod 64)) \<longleftrightarrow> xs ! nat ((f + k) mod 64) = Some x"
      if "0 \<le> k" "k < n" for k
      using some[OF that] by auto
    then show ?thesis by (auto simp: ring_contents_def image_iff)
  qed
  ultimately show ?thesis by metis
qed

lemma used_nat: "(\<exists>j. used f r j \<and> P (nat j)) \<longleftrightarrow> (\<exists>j<64. used f r (int j) \<and> P j)"
proof
  assume "\<exists>j. used f r j \<and> P (nat j)"
  then obtain j where "used f r j" "P (nat j)" by blast
  moreover from this have "int (nat j) = j" "nat j < 64" by (auto simp: used_def)
  ultimately show "\<exists>j<64. used f r (int j) \<and> P j" by (intro exI[of _ "nat j"]) simp
next
  assume "\<exists>j<64. used f r (int j) \<and> P j"
  then obtain j where "used f r (int j)" "P j" by blast
  then show "\<exists>j. used f r j \<and> P (nat j)" by (intro exI[of _ "int j"]) simp
qed

lemma in_queue_used:
  assumes "ring_ok f r n xs" and "f = q_front s ! i" and "r = q_rear s ! i" and "xs = q_slots s ! i"
  shows "in_queue i cur s \<longleftrightarrow> (\<exists>j. used f r j \<and> xs ! nat j = Some cur)"
proof (cases "f > r")
  case True
  then have "used f r (int j) \<longleftrightarrow> int j \<ge> f \<or> int j \<le> r" if "j < 64" for j
    using that by (simp add: used_def)
  then show ?thesis
    using True assms(2-4) unfolding used_nat[of f r "\<lambda>j. xs ! j = Some cur"]
    by (auto simp: in_queue_def list_ex_iff NPROC_def)
next
  case False
  show ?thesis
  proof (cases "f = - 1")
    case True
    then have "r = - 1" using assms(1) by (simp add: ring_ok_def)
    then show ?thesis using True assms(2-4) by (auto simp: in_queue_def used_def)
  next
    case f: False
    then have b: "0 \<le> f" "r < 64" using assms(1) by (auto simp: ring_ok_def)
    then have "takeWhile (\<lambda>j. j \<ge> 0) [f..r] = [f..r]" by (simp add: takeWhile_eq_all_conv)
    then have "in_queue i cur s \<longleftrightarrow> list_ex (\<lambda>j. xs ! nat j = Some cur) [f..r]"
      using False by (simp only: in_queue_def Let_def assms(2-4) if_False)
    moreover have "used f r j \<longleftrightarrow> f \<le> j \<and> j \<le> r" for j using False b by (auto simp: used_def)
    ultimately show ?thesis by (auto simp: list_ex_iff)
  qed
qed

lemma in_queue_iff:
  assumes "rings_ok s" and "i < 5"
  shows "in_queue i cur s \<longleftrightarrow> cur \<in> set (q_contents i s)"
  using in_queue_used[OF rings_okD[OF assms] refl refl refl] ring_members[OF rings_okD[OF assms]]
  by (simp add: q_contents_def)

lemma isFull_iff: "rings_ok s \<Longrightarrow> q < 5 \<Longrightarrow> isFull q s \<longleftrightarrow> length (q_contents q s) = 64"
  using ring_full[OF rings_okD, of s q] ring_length[OF rings_okD, of s q] ring_size[OF rings_okD, of s q]
  by (auto simp: isFull_def q_contents_def NPROC_def)

lemma isEmpty_iff: "rings_ok s \<Longrightarrow> q < 5 \<Longrightarrow> isEmpty q s \<longleftrightarrow> q_contents q s = []"
  using ring_empty[OF rings_okD, of s q] ring_length[OF rings_okD, of s q] ring_size[OF rings_okD, of s q]
  by (auto simp: isEmpty_def q_contents_def simp flip: length_0_conv)

lemma q_contents_le: "rings_ok s \<Longrightarrow> q < 5 \<Longrightarrow> length (q_contents q s) \<le> 64"
  using ring_length[OF rings_okD, of s q] ring_size[OF rings_okD, of s q] by (auto simp: q_contents_def)

lemma q_sz_contents: "rings_ok s \<Longrightarrow> q < 5 \<Longrightarrow> q_sz s ! q = int (length (q_contents q s))"
  using ring_length[OF rings_okD, of s q] ring_size[OF rings_okD, of s q] by (auto simp: q_contents_def)

text \<open>An operation on queue \<open>q\<close> replaces the entries of the four arrays at \<open>q\<close>.\<close>

definition ring_set :: "nat \<Rightarrow> int \<Rightarrow> int \<Rightarrow> int \<Rightarrow> nat option list \<Rightarrow> 'z ptab_scheme \<Rightarrow> 'z ptab_scheme \<Rightarrow> bool" where
  "ring_set q f r n xs s t \<longleftrightarrow> q_front t = (q_front s)[q := f] \<and> q_rear t = (q_rear s)[q := r] \<and>
     q_sz t = (q_sz s)[q := n] \<and> q_slots t = (q_slots s)[q := xs]"

lemma ring_set_ok:
  assumes "rings_ok s" and "q < 5" and "ring_set q f r n xs s t" and "ring_ok f r n xs"
  shows "rings_ok t"
    and "i < 5 \<Longrightarrow> q_contents i t = (if i = q then ring_contents f n xs else q_contents i s)"
  using assms by (simp_all add: rings_ok_def ring_set_def q_contents_def nth_list_update)

lemma enqueue_set:
  "ring_set q (if q_front s ! q = - 1 then 0 else q_front s ! q) ((q_rear s ! q + 1) mod 64) (q_sz s ! q + 1)
     ((q_slots s ! q)[nat ((q_rear s ! q + 1) mod 64) := Some cur]) s (enqueue q cur s)"
  by (simp add: ring_set_def enqueue_def Let_def NPROC_def)

lemma dequeue_set:
  "ring_set q (if q_front s ! q = q_rear s ! q then - 1 else (q_front s ! q + 1) mod 64)
     (if q_front s ! q = q_rear s ! q then - 1 else q_rear s ! q) (q_sz s ! q - 1)
     (q_slots s ! q) s (snd (dequeue q s))"
  by (simp add: ring_set_def dequeue_def Let_def NPROC_def)

lemma enqueue_ring:
  assumes "rings_ok s" and "q < 5" and "\<not> isFull q s"
  shows "rings_ok (enqueue q cur s)"
    and "i < 5 \<Longrightarrow> q_contents i (enqueue q cur s) = (if i = q then q_contents q s @ [cur] else q_contents i s)"
proof -
  have n: "q_sz s ! q < 64"
    using assms isFull_iff[OF assms(1,2)] q_contents_le[OF assms(1,2)] q_sz_contents[OF assms(1,2)] by simp
  note put = ring_put[OF rings_okD[OF assms(1,2)] n, of cur]
  note set = ring_set_ok[OF assms(1,2) enqueue_set put(1)]
  show "rings_ok (enqueue q cur s)" by (rule set(1))
  show "q_contents i (enqueue q cur s) = (if i = q then q_contents q s @ [cur] else q_contents i s)"
    if "i < 5"
    unfolding set(2)[OF that] put(2) by (simp add: q_contents_def)
qed

lemma dequeue_ring:
  assumes "rings_ok s" and "q < 5" and "\<not> isEmpty q s" and "dequeue q s = (x, t)"
  shows "rings_ok t"
    and "i < 5 \<Longrightarrow> q_contents i t = (if i = q then tl (q_contents q s) else q_contents i s)"
    and "x = Some (hd (q_contents q s))"
proof -
  have f: "q_front s ! q \<noteq> - 1" using assms(3) by (simp add: isEmpty_def)
  note get = ring_get[OF rings_okD[OF assms(1,2)] f]
  have t: "t = snd (dequeue q s)" using assms(4) by simp
  note set = ring_set_ok[OF assms(1,2) dequeue_set get(1)]
  show "rings_ok t" unfolding t by (rule set(1))
  show "q_contents i t = (if i = q then tl (q_contents q s) else q_contents i s)" if "i < 5"
    unfolding t set(2)[OF that] using get(2) by (simp add: q_contents_def)
  have "x = q_slots s ! q ! nat (q_front s ! q)" using assms(4) by (auto simp: dequeue_def Let_def)
  then show "x = Some (hd (q_contents q s))" using get(2,3) by (auto simp: q_contents_def)
qed

text \<open>Each of the five queues is a bounded buffer of \<^verbatim>\<open>NPROC\<close> process pointers.\<close>

interpretation ready: fifo "\<lambda>s. rings_ok s \<and> q < 5" "q_contents q" 64 "isFull q" "isEmpty q" "enqueue q"
  "\<lambda>s. map_prod the id (dequeue q s)" for q
proof (unfold_locales, goal_cases)
  case (1 s)
  then show ?case using isFull_iff[of s q] q_contents_le[of s q] by auto
next
  case (2 s)
  then show ?case using isEmpty_iff[of s q] by simp
next
  case (3 s x)
  then show ?case using enqueue_ring(1)[of s q x] by simp
next
  case (4 s x)
  then show ?case using enqueue_ring(2)[of s q q x] by simp
next
  case (5 s)
  then show ?case using dequeue_ring(1)[of s q] by (cases "dequeue q s") simp
next
  case (6 s)
  then have ne: "q_contents q s \<noteq> []" using isEmpty_iff[of s q] by simp
  show ?case using 6 dequeue_ring(2)[of s q _ _ q] dequeue_ring(3)[of s q] ne
    by (cases "dequeue q s") (auto simp: hd_Cons_tl)
qed

subsection \<open>The five queues together\<close>

text \<open>
  Abstractly the queues are five lists. \<open>apush\<close> is what \<^verbatim>\<open>push\<close> promises: nothing if the process is in
  some queue, else it goes to the end of the queue.
\<close>

definition queues :: "'z ptab_scheme \<Rightarrow> nat list list" where
  "queues s = map (\<lambda>i. q_contents i s) [0..<5]"

definition queued :: "'z ptab_scheme \<Rightarrow> nat set" where
  "queued s = set (concat (queues s))"

definition apush :: "nat \<Rightarrow> nat \<Rightarrow> nat list list \<Rightarrow> nat list list" where
  "apush q p qs = (if p \<in> set (concat qs) then qs else qs[q := qs ! q @ [p]])"

definition mlfq_ok :: "'z ptab_scheme \<Rightarrow> bool" where
  "mlfq_ok s \<longleftrightarrow> rings_ok s \<and> distinct (concat (queues s)) \<and> queued s \<subseteq> {..<64}"

lemma queues_length [simp]: "length (queues s) = 5"
  by (simp add: queues_def)

lemma queues_nth [simp]: "i < 5 \<Longrightarrow> queues s ! i = q_contents i s"
  by (simp add: queues_def)

lemma queues_cong:
  "q_front t = q_front s \<Longrightarrow> q_sz t = q_sz s \<Longrightarrow> q_slots t = q_slots s \<Longrightarrow> queues t = queues s"
  by (simp add: queues_def q_contents_def)

lemma rings_ok_cong:
  "q_front t = q_front s \<Longrightarrow> q_rear t = q_rear s \<Longrightarrow> q_sz t = q_sz s \<Longrightarrow> q_slots t = q_slots s \<Longrightarrow>
   rings_ok t = rings_ok s"
  by (simp add: rings_ok_def)

lemma mlfq_ok_cong:
  assumes "q_front t = q_front s" and "q_rear t = q_rear s" and "q_sz t = q_sz s" and "q_slots t = q_slots s"
  shows "mlfq_ok t = mlfq_ok s"
  using rings_ok_cong[OF assms] queues_cong[OF assms(1,3,4)] by (simp add: mlfq_ok_def queued_def)

lemma mset_concat_update:
  "q < length qs \<Longrightarrow> mset (concat (qs[q := xs])) + mset (qs ! q) = mset (concat qs) + mset xs"
proof (induction qs arbitrary: q)
  case Nil
  then show ?case by simp
next
  case (Cons a qs)
  then show ?case by (cases q) auto
qed

lemma queues_eqI:
  assumes "\<And>i. i < 5 \<Longrightarrow> q_contents i t = (if i = q then xs else q_contents i s)"
  shows "queues t = (queues s)[q := xs]"
  using assms by (intro nth_equalityI) (auto simp: nth_list_update)

lemma queued_in_queue:
  assumes "rings_ok s"
  shows "list_ex (\<lambda>i. in_queue i p s) [0..<5] \<longleftrightarrow> p \<in> queued s"
  using in_queue_iff[OF assms] by (auto simp: list_ex_iff queued_def queues_def)

text \<open>A process outside all queues finds room: the queues together hold each process at most once.\<close>

lemma push_room:
  assumes "mlfq_ok s" and "p < 64" and "p \<notin> queued s" and "q < 5"
  shows "\<not> isFull q s"
proof -
  have "distinct (p # concat (queues s))" "set (p # concat (queues s)) \<subseteq> {..<64}"
    using assms by (auto simp: mlfq_ok_def queued_def)
  then have "length (p # concat (queues s)) \<le> 64"
    by (metis card_lessThan card_mono distinct_card finite_lessThan)
  moreover have "mset (concat ((queues s)[q := []])) + mset (q_contents q s) = mset (concat (queues s))"
    using mset_concat_update[of q "queues s" "[]"] assms(4) by simp
  then have "length (q_contents q s) \<le> length (concat (queues s))"
    by (metis le_add2 size_mset size_union)
  ultimately show ?thesis using isFull_iff[of s q] assms by (simp add: mlfq_ok_def)
qed

lemma push_run:
  assumes "mlfq_ok s" and "p < 64" and "0 \<le> q" and "q < 5"
  shows "push q p s = Ret () (if p \<in> queued s then s else enqueue (nat q) p s)"
  using queued_in_queue[of s p] push_room[OF assms(1,2), of "nat q"] assms
  by (auto simp: push_def mlfq_ok_def)

lemma enqueue_queues:
  assumes "mlfq_ok s" and "p < 64" and "p \<notin> queued s" and "q < 5"
  shows "queues (enqueue q p s) = (queues s)[q := queues s ! q @ [p]]"
    and "mlfq_ok (enqueue q p s)"
    and "queued (enqueue q p s) = insert p (queued s)"
proof -
  have r: "rings_ok s" using assms(1) by (simp add: mlfq_ok_def)
  note e = enqueue_ring[OF r assms(4) push_room[OF assms], where cur = p]
  show q: "queues (enqueue q p s) = (queues s)[q := queues s ! q @ [p]]"
    using e(2) assms(4) by (intro queues_eqI) simp
  have m: "mset (concat (queues (enqueue q p s))) = add_mset p (mset (concat (queues s)))"
    using mset_concat_update[of q "queues s" "queues s ! q @ [p]"] assms(4) q by simp
  then show "queued (enqueue q p s) = insert p (queued s)"
    unfolding queued_def by (metis set_mset_add_mset_insert set_mset_mset)
  have "distinct (concat (queues (enqueue q p s)))"
    using m assms(1,3) mset_eq_imp_distinct_iff[of "concat (queues (enqueue q p s))" "p # concat (queues s)"]
    by (simp add: mlfq_ok_def queued_def)
  then show "mlfq_ok (enqueue q p s)"
    using e(1) assms \<open>queued (enqueue q p s) = insert p (queued s)\<close> by (auto simp: mlfq_ok_def)
qed

lemma pop_run:
  assumes "mlfq_ok s" and "0 \<le> q" and "q < 5" and "queues s ! nat q = p # ps"
  obtains t where "pop q s = Ret (Some p) t" and "queues t = (queues s)[nat q := ps]" and "mlfq_ok t"
    and "queued t = queued s - {p}"
    and "t = s\<lparr>q_front := q_front t, q_rear := q_rear t, q_sz := q_sz t\<rparr>"
proof -
  let ?q = "nat q"
  have r: "rings_ok s" and q5: "?q < 5" using assms by (auto simp: mlfq_ok_def)
  have c: "q_contents ?q s = p # ps" using assms(4) q5 by simp
  then have ne: "\<not> isEmpty ?q s" using isEmpty_iff[OF r q5] by simp
  obtain x t where d: "dequeue ?q s = (x, t)" by (metis surj_pair)
  note e = dequeue_ring[OF r q5 ne d]
  have x: "x = Some p" using e(3) c by simp
  have "0 \<le> q_front s ! ?q"
    using ne rings_okD[OF r q5] by (auto simp: isEmpty_def ring_ok_def)
  then have run: "pop q s = Ret (Some p) t" using assms(2,3) d x by (simp add: pop_def)
  have qs: "queues t = (queues s)[?q := ps]" using e(2) c by (intro queues_eqI) simp
  have m: "mset (concat (queues s)) = add_mset p (mset (concat (queues t)))"
    using mset_concat_update[of ?q "queues s" ps] q5 c qs by simp
  then have dis: "distinct (p # concat (queues t))"
    using assms(1) mset_eq_imp_distinct_iff[of "concat (queues s)" "p # concat (queues t)"]
    by (simp add: mlfq_ok_def)
  moreover have "queued s = insert p (queued t)"
    unfolding queued_def using m by (metis set_mset_add_mset_insert set_mset_mset)
  ultimately have "queued t = queued s - {p}" and "mlfq_ok t"
    using e(1) assms(1) by (auto simp: mlfq_ok_def queued_def)
  moreover have "t = s\<lparr>q_front := q_front t, q_rear := q_rear t, q_sz := q_sz t\<rparr>"
    using d by (auto simp: dequeue_def Let_def split: if_splits)
  ultimately show ?thesis using that run qs by blast
qed

end
