(* ===== verification/Xv6_Sched.thy ===== *)
theory Xv6_Sched
  imports Xv6_Mlfq
begin

text \<open>
  The four schedulers of \<^verbatim>\<open>proc.c\<close>, the operations that enter them, the clock tick and the life cycle
  of a process slot. The build selects the policy; here it is an argument.

  A scheduler is a coroutine: it runs with \<^verbatim>\<open>ptable.lock\<close> held until \<^verbatim>\<open>swtch\<close> starts a process or until
  its pass over the table ends and it releases the lock. \<open>scheduler_pass\<close> is the code from the top
  of the endless loop to that point, \<open>scheduler_resume\<close> the code from the return of \<^verbatim>\<open>swtch\<close>. A process
  gives up the CPU by calling \<^verbatim>\<open>sched\<close>, which switches to the return of that \<^verbatim>\<open>swtch\<close>; so \<open>sched\<close> goes on
  with \<open>scheduler_resume\<close>. The messages the schedulers print are left out.
\<close>

subsection \<open>Choosing a process\<close>

abbreviation runnable :: "'z ptab_scheme \<Rightarrow> nat \<Rightarrow> bool" where
  "runnable s j \<equiv> p_state (proc_at s j) = RUNNABLE"

definition dispatch :: "nat \<Rightarrow> (unit, 'z ptab_scheme) kernel" where
  "dispatch j =
     kbind (kmod (upd_cpu (\<lambda>c. c\<lparr>c_proc := Some j\<rparr>))) (\<lambda>_.
     kbind (switchuvm (Some j)) (\<lambda>_.
     kmod (upd_proc j (\<lambda>p. p\<lparr>p_state := RUNNING\<rparr>))))"

text \<open>Round robin goes on through the table after the process that ran; \<open>i\<close> is where it goes on.\<close>

definition scheduler_rr :: "nat \<Rightarrow> (unit, 'z ptab_scheme) kernel" where
  "scheduler_rr i s =
     (case find (runnable s) [i..<NPROC] of None \<Rightarrow> Ret () s | Some j \<Rightarrow> dispatch j s)"

definition fcfs_pick :: "'z ptab_scheme \<Rightarrow> nat option" where
  "fcfs_pick s =
     foldl (\<lambda>best j.
       if \<not> runnable s j then best
       else case best of None \<Rightarrow> Some j
            | Some b \<Rightarrow> if p_start_time (proc_at s j) < p_start_time (proc_at s b) then Some j else Some b)
       None [0..<NPROC]"

definition scheduler_fcfs :: "(unit, 'z ptab_scheme) kernel" where
  "scheduler_fcfs s = (case fcfs_pick s of None \<Rightarrow> Ret () s | Some j \<Rightarrow> dispatch j s)"

definition pbs_pick :: "'z ptab_scheme \<Rightarrow> nat \<Rightarrow> nat" where
  "pbs_pick s p =
     foldl (\<lambda>best j.
       if \<not> runnable s j then best
       else if p_priority (proc_at s j) < p_priority (proc_at s best) then j else best) p [0..<NPROC]"

text \<open>The loop variable of the outer loop is set to the process chosen, so the loop goes on after it.\<close>

definition scheduler_pbs :: "nat \<Rightarrow> (unit, 'z ptab_scheme) kernel" where
  "scheduler_pbs i s =
     (case find (runnable s) [i..<NPROC] of None \<Rightarrow> Ret () s | Some p \<Rightarrow> dispatch (pbs_pick s p) s)"

text \<open>
  The inner loop of the feedback scheduler: take processes off queue \<open>i\<close>, put back those that are not
  runnable, stop at the first that is or after \<^verbatim>\<open>sz[i]\<close> turns. For termination: a turn takes one off
  the queue and puts at most one back.
\<close>

lemma pop_sz: "pop q s = Ret p t \<Longrightarrow> q_sz t = (q_sz s)[nat q := q_sz s ! nat q - 1]"
  by (auto simp: pop_def dequeue_def Let_def split: if_splits prod.splits)

lemma push_sz: "push q p s = Ret u t \<Longrightarrow> q_sz t = q_sz s \<or> q_sz t = (q_sz s)[nat q := q_sz s ! nat q + 1]"
  by (auto simp: push_def enqueue_def Let_def split: if_splits)

lemma pop_push_sz:
  assumes "pop (int i) s = Ret p t" and "push (int i) j t = Ret u w"
  shows "q_sz w ! i \<le> q_sz s ! i"
proof (cases "i < length (q_sz s)")
  case True
  then show ?thesis using pop_sz[OF assms(1)] push_sz[OF assms(2)] by auto
next
  case False
  then show ?thesis using pop_sz[OF assms(1)] push_sz[OF assms(2)] by (auto simp: list_update_beyond)
qed

function mlfq_scan :: "nat \<Rightarrow> int \<Rightarrow> (nat option, 'z ptab_scheme) kernel" where
  "mlfq_scan i cursz s =
     (if q_sz s ! i > cursz
      then (case pop (int i) s of
              Ret p t \<Rightarrow>
                (case p of
                   None \<Rightarrow> Fault (Undef ''null process'')
                 | Some j \<Rightarrow>
                     if p_state (proc_at t j) \<noteq> RUNNABLE
                     then (case push (int i) j t of
                             Ret _ u \<Rightarrow> mlfq_scan i (cursz + 1) u
                           | Sleep c u \<Rightarrow> Sleep c u | Fault e \<Rightarrow> Fault e)
                     else Ret (Some j) t)
            | Sleep c t \<Rightarrow> Sleep c t | Fault e \<Rightarrow> Fault e)
      else Ret None s)"
  by pat_completeness auto
termination
  by (relation "measure (\<lambda>(i, cursz, s). nat (q_sz s ! i - cursz))") (auto dest: pop_push_sz)

declare mlfq_scan.simps [simp del]

primrec mlfq_search :: "nat list \<Rightarrow> (nat option, 'z ptab_scheme) kernel" where
  "mlfq_search [] = kret None"
| "mlfq_search (i # is) =
     kbind (kget (isEmpty i)) (\<lambda>e.
     if e then mlfq_search is
     else kbind (mlfq_scan i 0) (\<lambda>r. case r of None \<Rightarrow> mlfq_search is | Some j \<Rightarrow> kret (Some j)))"

definition requeue :: "(unit, 'z ptab_scheme) kernel" where
  "requeue =
     kfor [0..<NPROC] (\<lambda>j s.
       if p_pid (proc_at s j) = 0 \<or> p_state (proc_at s j) \<noteq> RUNNABLE then Ret () s else push 0 j s)"

definition scheduler_mlfq :: "(unit, 'z ptab_scheme) kernel" where
  "scheduler_mlfq =
     kbind (mlfq_search [0..<5]) (\<lambda>r.
     case r of
       None \<Rightarrow> requeue
     | Some j \<Rightarrow> kbind (kmod (upd_proc j (\<lambda>p. p\<lparr>p_wait_time := 0, p_num_run := p_num_run p + 1\<rparr>))) (\<lambda>_.
                 dispatch j))"

definition scheduler_pass :: "policy \<Rightarrow> (unit, 'z ptab_scheme) kernel" where
  "scheduler_pass sc =
     (case sc of ROUND_ROBIN \<Rightarrow> scheduler_rr 0 | FCFS \<Rightarrow> scheduler_fcfs | PBS \<Rightarrow> scheduler_pbs 0
      | MLFQ \<Rightarrow> scheduler_mlfq)"

definition scheduler_resume :: "policy \<Rightarrow> (unit, 'z ptab_scheme) kernel" where
  "scheduler_resume sc =
     kbind curproc (\<lambda>j.
     kbind switchkvm (\<lambda>_.
     kbind (kmod (upd_cpu (\<lambda>c. c\<lparr>c_proc := None\<rparr>))) (\<lambda>_.
     case sc of ROUND_ROBIN \<Rightarrow> scheduler_rr (Suc j) | FCFS \<Rightarrow> kret () | PBS \<Rightarrow> scheduler_pbs (Suc j)
     | MLFQ \<Rightarrow> requeue)))"

subsection \<open>Giving up the CPU\<close>

definition sched :: "policy \<Rightarrow> (unit, 'z ptab_scheme) kernel" where
  "sched sc =
     kbind curproc (\<lambda>p s.
       if p_state (proc_at s p) = RUNNING then Fault (Panic ''sched running'') else scheduler_resume sc s)"

definition yield :: "policy \<Rightarrow> (unit, 'z ptab_scheme) kernel" where
  "yield sc =
     kbind curproc (\<lambda>p.
     kbind (kmod (upd_proc p (\<lambda>pr. pr\<lparr>p_state := RUNNABLE\<rparr>))) (\<lambda>_.
     kbind (if sc = MLFQ
            then kbind (kmod (upd_proc p (\<lambda>pr. pr\<lparr>p_cur_time := 0, p_queueNo := p_queueNo pr + 1\<rparr>))) (\<lambda>_.
                 kbind (kget (\<lambda>s. p_queueNo (proc_at s p))) (\<lambda>q. push q p))
            else kret ()) (\<lambda>_.
     sched sc)))"

text \<open>
  \<^verbatim>\<open>sleep\<close> up to the switch to the scheduler, and what it does when the process runs again.
\<close>

definition sleep :: "policy \<Rightarrow> chan \<Rightarrow> (unit, 'z ptab_scheme) kernel" where
  "sleep sc c =
     kbind myproc (\<lambda>p.
     case p of
       None \<Rightarrow> kpanic ''sleep''
     | Some i \<Rightarrow> kbind (kmod (upd_proc i (\<lambda>pr. pr\<lparr>p_chan := Some c, p_state := SLEEPING\<rparr>))) (\<lambda>_. sched sc))"

definition sleep_return :: "(unit, 'z ptab_scheme) kernel" where
  "sleep_return = kbind curproc (\<lambda>p. kmod (upd_proc p (\<lambda>pr. pr\<lparr>p_chan := None\<rparr>)))"

subsection \<open>The clock\<close>

definition AGE :: int where "AGE = 20"

definition modify_times1 :: "policy \<Rightarrow> nat \<Rightarrow> (unit, 'z ptab_scheme) kernel" where
  "modify_times1 sc j s =
     (let p = proc_at s j
      in if p_state p = RUNNING
         then if sc = MLFQ
              then if p_queueNo p < 0 \<or> 5 \<le> p_queueNo p then Fault (Undef ''modify_times: queue number'')
                   else Ret () (upd_proc j (\<lambda>p. p\<lparr>p_run_time := p_run_time p + 1,
                          p_ticks := (p_ticks p)[nat (p_queueNo p) := p_ticks p ! nat (p_queueNo p) + 1],
                          p_cur_time := p_cur_time p + 1\<rparr>) s)
              else Ret () (upd_proc j (\<lambda>p. p\<lparr>p_run_time := p_run_time p + 1\<rparr>) s)
         else let t = upd_proc j (\<lambda>p. p\<lparr>p_wait_time := p_wait_time p + 1\<rparr>) s
              in if sc = MLFQ \<and> p_queueNo p \<noteq> 0 \<and> p_wait_time p + 1 > AGE
                 then push (p_queueNo p - 1) j
                        (upd_proc j (\<lambda>p. p\<lparr>p_queueNo := p_queueNo p - 1, p_cur_time := 0, p_wait_time := 0\<rparr>) t)
                 else Ret () t)"

definition modify_times :: "policy \<Rightarrow> (unit, 'z ptab_scheme) kernel" where
  "modify_times sc = kfor [0..<NPROC] (modify_times1 sc)"

text \<open>The clock interrupt on CPU 0, in \<^verbatim>\<open>trap\<close>.\<close>

definition timer_tick :: "policy \<Rightarrow> (unit, 'z ptab_scheme) kernel" where
  "timer_tick sc =
     kbind (kmod (\<lambda>s. s\<lparr>ticks := ticks s + 1\<rparr>)) (\<lambda>_.
     kbind (modify_times sc) (\<lambda>_.
     wakeup Chan_ticks))"

text \<open>The conditions at the end of \<^verbatim>\<open>trap\<close> under which it calls \<^verbatim>\<open>yield\<close>; \<open>timer\<close> says that the trap is the clock.\<close>

definition preempts :: "policy \<Rightarrow> bool \<Rightarrow> 'z ptab_scheme \<Rightarrow> bool" where
  "preempts sc timer s =
     (case c_proc (cpus s ! thiscpu s) of
        None \<Rightarrow> False
      | Some j \<Rightarrow> (let p = proc_at s j
          in p_state p = RUNNING \<and>
             (case sc of
                ROUND_ROBIN \<Rightarrow> timer
              | FCFS \<Rightarrow> False
              | PBS \<Rightarrow> checkPremption (p_priority p) timer s
              | MLFQ \<Rightarrow> p_queueNo p \<noteq> 4 \<and> p_cur_time p > ticksQ (nat (p_queueNo p)))))"

subsection \<open>The life of a process slot\<close>

text \<open>The part of \<^verbatim>\<open>allocproc\<close> under \<^verbatim>\<open>ptable.lock\<close>, from the label \<^verbatim>\<open>found\<close>.\<close>

definition alloc_slot :: "policy \<Rightarrow> nat \<Rightarrow> (unit, 'z ptab_scheme) kernel" where
  "alloc_slot sc i =
     kbind (kmod (\<lambda>s. (upd_proc i (\<lambda>p. p\<lparr>p_state := EMBRYO, p_pid := nextpid s,
              p_start_time := sint (ticks s), p_end_time := 0, p_run_time := 0, p_wait_time := 0,
              p_priority := 60, p_queueNo := 0, p_cur_time := 0, p_num_run := 0,
              p_ticks := replicate 5 0\<rparr>) s)\<lparr>nextpid := nextpid s + 1\<rparr>)) (\<lambda>_ s.
       if sc = MLFQ
       then case find (\<lambda>q. \<not> isFull q s) [0..<5] of None \<Rightarrow> Ret () s | Some q \<Rightarrow> push (int q) i s
       else Ret () s)"

text \<open>The kernel stack: room for the trap frame, the return address \<^verbatim>\<open>trapret\<close> and the first context.\<close>

definition alloc_kstack :: "nat \<Rightarrow> (nat option, 'z ptab_scheme) kernel" where
  "alloc_kstack i =
     kbind kalloc (\<lambda>ks.
     kbind (kmod (upd_proc i (\<lambda>p. p\<lparr>p_kstack := ks\<rparr>))) (\<lambda>_.
     if ks = 0 then kbind (kmod (upd_proc i (\<lambda>p. p\<lparr>p_state := UNUSED\<rparr>))) (\<lambda>_. kret None)
     else let tf = ks + KSTACKSIZE - 76; ctx = tf - 4 - 20
          in kbind (kmod (\<lambda>s. s\<lparr>mem := write32 (mem s) (tf - 4) (trapret_addr s)\<rparr>)) (\<lambda>_.
             kbind (kmod (\<lambda>s. s\<lparr>mem := write32 (memset (mem s) ctx 0 20) (ctx + 16) (forkret_addr s)\<rparr>)) (\<lambda>_.
             kbind (kmod (upd_proc i (\<lambda>p. p\<lparr>p_tf := tf, p_context := ctx\<rparr>))) (\<lambda>_.
             kret (Some i))))))"

definition allocproc :: "policy \<Rightarrow> (nat option, 'z ptab_scheme) kernel" where
  "allocproc sc s =
     (case find_proc (\<lambda>p. p_state p = UNUSED) s of
        None \<Rightarrow> Ret None s
      | Some i \<Rightarrow> kbind (alloc_slot sc i) (\<lambda>_. alloc_kstack i) s)"

text \<open>The part of \<^verbatim>\<open>exit\<close> under \<^verbatim>\<open>ptable.lock\<close>.\<close>

definition reparent1 :: "nat \<Rightarrow> 'z ptab_scheme \<Rightarrow> nat \<Rightarrow> 'z ptab_scheme" where
  "reparent1 p s j =
     (if p_parent (proc_at s j) = Some p
      then let t = upd_proc j (\<lambda>pr. pr\<lparr>p_parent := initproc s\<rparr>) s
           in if p_state (proc_at s j) = ZOMBIE then wakeup1 (map_option Chan_proc (initproc s)) t else t
      else s)"

definition exit_locked :: "policy \<Rightarrow> (unit, 'z ptab_scheme) kernel" where
  "exit_locked sc =
     kbind curproc (\<lambda>p.
     kbind (kmod (\<lambda>s. wakeup1 (map_option Chan_proc (p_parent (proc_at s p))) s)) (\<lambda>_.
     kbind (kmod (\<lambda>s. foldl (reparent1 p) s [0..<NPROC])) (\<lambda>_.
     kbind (kmod (\<lambda>s. upd_proc p (\<lambda>pr. pr\<lparr>p_end_time := sint (ticks s), p_state := ZOMBIE\<rparr>) s)) (\<lambda>_.
     sched sc))))"

text \<open>
  \<^verbatim>\<open>wait\<close> and \<^verbatim>\<open>waitx\<close>: one turn of the endless loop; the outcome \<open>Sleep\<close> is the call of \<^verbatim>\<open>sleep\<close> at its
  end. \<open>waitx\<close> also returns what it stores at \<^verbatim>\<open>wtime\<close> and \<^verbatim>\<open>rtime\<close>.
\<close>

definition reap :: "nat \<Rightarrow> (int, 'z ptab_scheme) kernel" where
  "reap i =
     kbind (kget (\<lambda>s. proc_at s i)) (\<lambda>p.
     kbind (kfree (p_kstack p)) (\<lambda>_.
     kbind (freevm (p_pgdir p)) (\<lambda>_.
     kbind (kmod (upd_proc i (\<lambda>p. p\<lparr>p_kstack := 0, p_pid := 0, p_parent := None,
              p_name := (p_name p)(0 := 0), p_killed := 0, p_state := UNUSED\<rparr>))) (\<lambda>_.
     kret (p_pid p)))))"

definition wait :: "(int, 'z ptab_scheme) kernel" where
  "wait =
     kbind curproc (\<lambda>c s.
       case find_proc (\<lambda>p. p_parent p = Some c \<and> p_state p = ZOMBIE) s of
         Some i \<Rightarrow> reap i s
       | None \<Rightarrow> if find_proc (\<lambda>p. p_parent p = Some c) s = None \<or> p_killed (proc_at s c) \<noteq> 0
                 then Ret (- 1) s else Sleep (Chan_proc c) s)"

definition waitx :: "(int \<times> (int \<times> int) option, 'z ptab_scheme) kernel" where
  "waitx =
     kbind curproc (\<lambda>c s.
       case find_proc (\<lambda>p. p_parent p = Some c \<and> p_state p = ZOMBIE) s of
         Some i \<Rightarrow> kbind (reap i) (\<lambda>pid.
           kbind (kget (\<lambda>s. proc_at s i)) (\<lambda>p.
           kret (pid, Some ((p_end_time p - p_start_time p) - p_run_time p, p_run_time p)))) s
       | None \<Rightarrow> if find_proc (\<lambda>p. p_parent p = Some c) s = None \<or> p_killed (proc_at s c) \<noteq> 0
                 then Ret (- 1, None) s else Sleep (Chan_proc c) s)"

end
