(* ===== verification/Xv6_Policy.thy ===== *)
theory Xv6_Policy
  imports Xv6_Sched
begin

text \<open>
  Which process each scheduler chooses: first come first served the runnable process that started
  first, the priority scheduler one with the numerically least priority, and the feedback scheduler
  the first runnable process of the lowest-numbered queue that has one, leaving the order of the
  others as it is up to the rotation of that queue.
\<close>

subsection \<open>First come first served and priorities\<close>

lemma fcfs_fold:
  fixes s :: "'z ptab_scheme"
  defines "step \<equiv> \<lambda>best j.
       if \<not> runnable s j then best
       else case best of None \<Rightarrow> Some j
            | Some b \<Rightarrow> if p_start_time (proc_at s j) < p_start_time (proc_at s b) then Some j else Some b"
  shows "case foldl step None [0..<n] of
      None \<Rightarrow> \<forall>k<n. \<not> runnable s k
    | Some j \<Rightarrow> j < n \<and> runnable s j \<and>
        (\<forall>k<n. runnable s k \<longrightarrow> p_start_time (proc_at s j) \<le> p_start_time (proc_at s k)) \<and>
        (\<forall>k<j. runnable s k \<longrightarrow> p_start_time (proc_at s j) < p_start_time (proc_at s k))"
proof (induction n)
  case 0
  then show ?case by simp
next
  case (Suc n)
  show ?case
  proof (cases "foldl step None [0..<n]")
    case None
    then show ?thesis using Suc by (auto simp: step_def less_Suc_eq)
  next
    case (Some b)
    then have b: "b < n" "runnable s b"
      "\<And>k. k < n \<Longrightarrow> runnable s k \<Longrightarrow> p_start_time (proc_at s b) \<le> p_start_time (proc_at s k)"
      "\<And>k. k < b \<Longrightarrow> runnable s k \<Longrightarrow> p_start_time (proc_at s b) < p_start_time (proc_at s k)"
      using Suc by auto
    have "foldl step None [0..<Suc n] = step (Some b) n" using Some by simp
    also have "\<dots> = (if runnable s n \<and> p_start_time (proc_at s n) < p_start_time (proc_at s b)
        then Some n else Some b)" by (simp add: step_def)
    finally show ?thesis using b by (fastforce simp: less_Suc_eq dest: b(3))
  qed
qed

lemma fcfs_pick_None: "fcfs_pick s = None \<longleftrightarrow> (\<forall>k<NPROC. \<not> runnable s k)"
  using fcfs_fold[of NPROC s] by (auto simp: fcfs_pick_def split: option.splits)

lemma fcfs_pick_Some:
  assumes "fcfs_pick s = Some j"
  shows "j < NPROC" and "runnable s j"
    and "k < NPROC \<Longrightarrow> runnable s k \<Longrightarrow> p_start_time (proc_at s j) \<le> p_start_time (proc_at s k)"
    and "k < j \<Longrightarrow> runnable s k \<Longrightarrow> p_start_time (proc_at s j) < p_start_time (proc_at s k)"
  using assms fcfs_fold[of NPROC s] by (auto simp: fcfs_pick_def)

lemma pbs_fold:
  assumes "runnable s p" and "p < NPROC"
  defines "step \<equiv> \<lambda>best j.
       if \<not> runnable s j then best
       else if p_priority (proc_at s j) < p_priority (proc_at s best) then j else best"
  shows "n \<le> NPROC \<Longrightarrow> (let j = foldl step p [0..<n] in
    j < NPROC \<and> runnable s j \<and> p_priority (proc_at s j) \<le> p_priority (proc_at s p) \<and>
    (\<forall>k<n. runnable s k \<longrightarrow> p_priority (proc_at s j) \<le> p_priority (proc_at s k)) \<and>
    (j = p \<or> p_priority (proc_at s j) < p_priority (proc_at s p)))"
proof (induction n)
  case 0
  then show ?case using assms(1,2) by simp
next
  case (Suc n)
  let ?j = "foldl step p [0..<n]"
  have "foldl step p [0..<Suc n] = step ?j n" by simp
  also have "\<dots> = (if runnable s n \<and> p_priority (proc_at s n) < p_priority (proc_at s ?j) then n else ?j)"
    by (simp add: step_def)
  finally show ?case using Suc by (auto simp: Let_def less_Suc_eq)
qed

lemma pbs_pick_min:
  assumes "runnable s p" and "p < NPROC"
  shows "pbs_pick s p < NPROC" and "runnable s (pbs_pick s p)"
    and "k < NPROC \<Longrightarrow> runnable s k \<Longrightarrow> p_priority (proc_at s (pbs_pick s p)) \<le> p_priority (proc_at s k)"
    and "pbs_pick s p = p \<or> p_priority (proc_at s (pbs_pick s p)) < p_priority (proc_at s p)"
  using pbs_fold[OF assms, of NPROC] by (auto simp: pbs_pick_def Let_def)

subsection \<open>The feedback queues\<close>

text \<open>
  Two states that differ only in the queues and in the time the processes have used of their slice.
\<close>

definition core :: "proc \<Rightarrow> proc" where
  "core p = p\<lparr>p_cur_time := 0\<rparr>"

definition same_core :: "'z ptab_scheme \<Rightarrow> 'z ptab_scheme \<Rightarrow> bool" where
  "same_core s t \<longleftrightarrow> map core (ptable t) = map core (ptable s) \<and>
     t = s\<lparr>ptable := ptable t, q_front := q_front t, q_rear := q_rear t, q_sz := q_sz t, q_slots := q_slots t\<rparr>"

lemma core_eqD:
  assumes "core p = core q"
  shows "p_state p = p_state q" "p_pid p = p_pid q" "p_queueNo p = p_queueNo q"
    "p_run_time p = p_run_time q" "p_start_time p = p_start_time q" "p_end_time p = p_end_time q"
    "p_ticks p = p_ticks q" "p_parent p = p_parent q" "p_chan p = p_chan q" "p_wait_time p = p_wait_time q"
  using assms by (cases p; cases q; simp add: core_def)+

lemma same_core_refl [simp]: "same_core s s"
  by (simp add: same_core_def)

lemma same_core_trans: "same_core s t \<Longrightarrow> same_core t u \<Longrightarrow> same_core s u"
  unfolding same_core_def by (cases s; cases t; cases u) simp

lemma same_core_length: "same_core s t \<Longrightarrow> length (ptable t) = length (ptable s)"
  unfolding same_core_def by (metis length_map)

lemma same_core_nth: "same_core s t \<Longrightarrow> i < length (ptable s) \<Longrightarrow> core (proc_at t i) = core (proc_at s i)"
  unfolding same_core_def by (metis length_map nth_map)

lemma same_core_rest:
  assumes "same_core s t"
  shows "nextpid t = nextpid s" "cpus t = cpus s" "thiscpu t = thiscpu s" "ticks t = ticks s"
    "initproc t = initproc s" "mem t = mem s" "freelist t = freelist s" "kend t = kend s"
proof -
  have t: "t = s\<lparr>ptable := ptable t, q_front := q_front t, q_rear := q_rear t, q_sz := q_sz t,
      q_slots := q_slots t\<rparr>"
    using assms by (simp add: same_core_def)
  show "nextpid t = nextpid s" "cpus t = cpus s" "thiscpu t = thiscpu s" "ticks t = ticks s"
    "initproc t = initproc s" "mem t = mem s" "freelist t = freelist s" "kend t = kend s"
    by (subst t, simp)+
qed

lemma enqueue_core: "same_core s (enqueue q p s)"
proof -
  have "map core ((ptable s)[p := (proc_at s p)\<lparr>p_cur_time := 0\<rparr>]) = map core (ptable s)"
    by (cases "p < length (ptable s)") (auto simp: core_def map_update list_update_beyond list_update_same_conv)
  then show ?thesis by (simp add: same_core_def enqueue_def Let_def upd_proc_def)
qed

lemma push_core: "push q p s = Ret u t \<Longrightarrow> same_core s t"
  by (auto simp: push_def enqueue_core split: if_splits)

lemma pop_core: "pop q s = Ret x t \<Longrightarrow> same_core s t \<and> ptable t = ptable s"
  by (auto simp: pop_def dequeue_def Let_def same_core_def split: if_splits)

lemma queue_queued: "i < 5 \<Longrightarrow> j \<in> set (queues s ! i) \<Longrightarrow> j \<in> queued s"
  by (auto simp: queued_def queues_def)

lemma queued_bound: "mlfq_ok s \<Longrightarrow> j \<in> queued s \<Longrightarrow> j < 64"
  by (auto simp: mlfq_ok_def)

text \<open>
  One scan of queue \<open>i\<close> after \<open>length zs\<close> turns: the processes \<open>zs\<close> have been put back at the end.
\<close>

lemma mlfq_scan_rotates:
  assumes "mlfq_ok s" and "length (ptable s) = 64" and "i < 5" and "queues s ! i = ws @ zs"
    and "c = int (length zs)"
  shows "\<exists>t. same_core s t \<and> mlfq_ok t \<and>
    (case dropWhile (\<lambda>j. \<not> runnable s j) ws of
       [] \<Rightarrow> mlfq_scan i c s = Ret None t \<and> queues t = (queues s)[i := zs @ ws]
     | j # bs \<Rightarrow> mlfq_scan i c s = Ret (Some j) t \<and>
         queues t = (queues s)[i := bs @ zs @ takeWhile (\<lambda>j. \<not> runnable s j) ws] \<and> queued t = queued s - {j})"
  using assms
proof (induction ws arbitrary: s zs c)
  case Nil
  have "q_sz s ! i = c"
    using q_sz_contents[of s i] Nil by (simp add: mlfq_ok_def)
  moreover have "(queues s)[i := zs] = queues s" using Nil by (metis append_Nil list_update_id)
  ultimately show ?case using Nil by (intro exI[of _ s]) (simp add: mlfq_scan.simps[of i])
next
  case (Cons w ws)
  have lt: "c < q_sz s ! i"
    using q_sz_contents[of s i] Cons.prems by (simp add: mlfq_ok_def)
  have "queues s ! nat (int i) = w # (ws @ zs)" using Cons.prems(4) by simp
  from pop_run[OF Cons.prems(1) _ _ this] obtain t where t: "pop (int i) s = Ret (Some w) t"
    "queues t = (queues s)[i := ws @ zs]" "mlfq_ok t" "queued t = queued s - {w}"
    using Cons.prems(3) by auto
  have core: "same_core s t" "ptable t = ptable s" using pop_core[OF t(1)] by auto
  have w: "w < 64" "w \<notin> queued t"
  proof -
    have "w \<in> set (queues s ! i)" using Cons.prems(4) by simp
    then show "w < 64" using queued_bound[OF Cons.prems(1) queue_queued[OF Cons.prems(3)]] by simp
    show "w \<notin> queued t" using t(4) by simp
  qed
  show ?case
  proof (cases "runnable s w")
    case True
    then have "mlfq_scan i c s = Ret (Some w) t"
      using lt t(1) core(2) by (simp add: mlfq_scan.simps[of i])
    then show ?thesis using True core t by (intro exI[of _ t]) simp
  next
    case False
    let ?u = "enqueue i w t"
    have push: "push (int i) w t = Ret () ?u"
      using push_run[OF t(3) w(1), of "int i"] w(2) Cons.prems(3) by simp
    note e = enqueue_queues[OF t(3) w Cons.prems(3)]
    have su: "same_core s ?u" using same_core_trans[OF core(1) enqueue_core] .
    have q: "queues ?u = (queues s)[i := ws @ (zs @ [w])]" and qi: "queues ?u ! i = ws @ (zs @ [w])"
      using e(1) t(2) Cons.prems(3) by simp_all
    have run: "runnable ?u j \<longleftrightarrow> runnable s j" if "j \<in> set ws" for j
    proof -
      have "j \<in> set (queues s ! i)" using Cons.prems(4) that by simp
      then have "j < 64" using queued_bound[OF Cons.prems(1) queue_queued[OF Cons.prems(3)]] by simp
      then show ?thesis using core_eqD(1)[OF same_core_nth[OF su]] Cons.prems(2) by simp
    qed
    then have dw: "dropWhile (\<lambda>j. \<not> runnable ?u j) ws = dropWhile (\<lambda>j. \<not> runnable s j) ws"
        "takeWhile (\<lambda>j. \<not> runnable ?u j) ws = takeWhile (\<lambda>j. \<not> runnable s j) ws"
      by (auto intro!: dropWhile_cong takeWhile_cong)
    have scan: "mlfq_scan i c s = mlfq_scan i (c + 1) ?u"
      using lt t(1) core(2) False push by (simp add: mlfq_scan.simps[of i c s])
    have qd: "queued ?u = queued s" using e(3) t(4) w Cons.prems(3,4)
      by (auto simp: queued_def queues_def)
    have "length (ptable ?u) = 64" using same_core_length[OF su] Cons.prems(2) by simp
    from Cons.IH[OF e(2) this Cons.prems(3) qi, of "c + 1"] Cons.prems(5)
    obtain v where v: "same_core ?u v" "mlfq_ok v"
      "case dropWhile (\<lambda>j. \<not> runnable s j) ws of
         [] \<Rightarrow> mlfq_scan i (c + 1) ?u = Ret None v \<and> queues v = (queues ?u)[i := (zs @ [w]) @ ws]
       | j # bs \<Rightarrow> mlfq_scan i (c + 1) ?u = Ret (Some j) v \<and>
           queues v = (queues ?u)[i := bs @ (zs @ [w]) @ takeWhile (\<lambda>j. \<not> runnable s j) ws] \<and>
           queued v = queued ?u - {j}"
      unfolding dw by auto
    then show ?thesis
      using False scan q qd same_core_trans[OF su v(1)]
      by (intro exI[of _ v]) (cases "dropWhile (\<lambda>j. \<not> runnable s j) ws"; simp del: dropWhile_eq_Nil_conv)
  qed
qed

text \<open>The search through the queues, as the choice it makes among five lists.\<close>

fun first_runnable :: "(nat \<Rightarrow> bool) \<Rightarrow> nat list list \<Rightarrow> nat option" where
  "first_runnable R [] = None"
| "first_runnable R (xs # xss) = (case find R xs of None \<Rightarrow> first_runnable R xss | Some j \<Rightarrow> Some j)"

lemma find_dropWhile: "find R xs = (case dropWhile (\<lambda>x. \<not> R x) xs of [] \<Rightarrow> None | y # ys \<Rightarrow> Some y)"
  by (induction xs) auto

lemma mlfq_scan_find:
  assumes "mlfq_ok s" and "length (ptable s) = 64" and "i < 5"
  obtains t where "mlfq_scan i 0 s = Ret (find (runnable s) (queues s ! i)) t" and "same_core s t"
    and "mlfq_ok t" and "queued t = queued s - set_option (find (runnable s) (queues s ! i))"
    and "find (runnable s) (queues s ! i) = None \<Longrightarrow> queues t = queues s"
proof -
  let ?ws = "queues s ! i"
  obtain t where t: "same_core s t" "mlfq_ok t"
    "case dropWhile (\<lambda>j. \<not> runnable s j) ?ws of
       [] \<Rightarrow> mlfq_scan i 0 s = Ret None t \<and> queues t = (queues s)[i := [] @ ?ws]
     | j # bs \<Rightarrow> mlfq_scan i 0 s = Ret (Some j) t \<and>
         queues t = (queues s)[i := bs @ [] @ takeWhile (\<lambda>j. \<not> runnable s j) ?ws] \<and> queued t = queued s - {j}"
    using mlfq_scan_rotates[OF assms, of ?ws "[]" 0] by auto
  show ?thesis
  proof (cases "dropWhile (\<lambda>j. \<not> runnable s j) ?ws")
    case Nil
    then have "queues t = queues s" using t(3) by (simp del: dropWhile_eq_Nil_conv)
    then show ?thesis using that t Nil
      by (simp add: find_dropWhile queued_def del: dropWhile_eq_Nil_conv)
  next
    case (Cons j bs)
    then show ?thesis using that t by (simp add: find_dropWhile)
  qed
qed

lemma first_runnable_core:
  assumes "mlfq_ok s" and "length (ptable s) = 64" and "same_core s t" and "set js \<subseteq> {..<5}"
  shows "first_runnable (runnable t) (map (\<lambda>i. queues s ! i) js) =
    first_runnable (runnable s) (map (\<lambda>i. queues s ! i) js)"
proof -
  have same: "find (runnable t) xs = find (runnable s) xs" if "set xs \<subseteq> queued s" for xs
    using that
  proof (induction xs)
    case (Cons x xs)
    then have "x < length (ptable s)" using queued_bound[OF assms(1)] assms(2) by auto
    then show ?case using Cons core_eqD(1)[OF same_core_nth[OF assms(3)]] by simp
  qed simp
  show ?thesis
    using assms(4)
  proof (induction js)
    case (Cons j js)
    have "set (queues s ! j) \<subseteq> queued s" using Cons.prems queue_queued[of j] by auto
    then show ?case using Cons same by (simp split: option.split)
  qed simp
qed

lemma mlfq_search_first:
  assumes "mlfq_ok s" and "length (ptable s) = 64" and "set is \<subseteq> {..<5}"
  defines "r \<equiv> first_runnable (runnable s) (map (\<lambda>i. queues s ! i) is)"
  shows "\<exists>t. mlfq_search is s = Ret r t \<and> same_core s t \<and> mlfq_ok t \<and>
    queued t = queued s - set_option r \<and> (r = None \<longrightarrow> queues t = queues s)"
  using assms(1-3) unfolding r_def
proof (induction "is" arbitrary: s)
  case Nil
  then show ?case by simp
next
  case (Cons i "is")
  have i: "i < 5" and is5: "set is \<subseteq> {..<5}" using Cons.prems(3) by auto
  have r: "rings_ok s" using Cons.prems(1) by (simp add: mlfq_ok_def)
  show ?case
  proof (cases "isEmpty i s")
    case True
    then have "queues s ! i = []" using isEmpty_iff[OF r i] i by simp
    then show ?thesis using Cons.IH[OF Cons.prems(1,2) is5] True by simp
  next
    case False
    let ?f = "find (runnable s) (queues s ! i)"
    obtain t where t: "mlfq_scan i 0 s = Ret ?f t" "same_core s t" "mlfq_ok t"
      "queued t = queued s - set_option ?f" "?f = None \<Longrightarrow> queues t = queues s"
      using mlfq_scan_find[OF Cons.prems(1,2) i] by blast
    show ?thesis
    proof (cases ?f)
      case None
      then have q: "queues t = queues s" by (rule t(5))
      have "length (ptable t) = 64" using same_core_length[OF t(2)] Cons.prems(2) by simp
      from Cons.IH[OF t(3) this is5, unfolded q first_runnable_core[OF Cons.prems(1,2) t(2) is5]]
      obtain u where u: "mlfq_search is t = Ret (first_runnable (runnable s) (map (\<lambda>i. queues s ! i) is)) u"
        "same_core t u" "mlfq_ok u"
        "queued u = queued t - set_option (first_runnable (runnable s) (map (\<lambda>i. queues s ! i) is))"
        "first_runnable (runnable s) (map (\<lambda>i. queues s ! i) is) = None \<longrightarrow> queues u = queues s"
        by (elim exE conjE)
      show ?thesis
        using u t(1,4) None False same_core_trans[OF t(2) u(2)]
        by (intro exI[of _ u]) (simp add: kbind_def)
    next
      case (Some j)
      then show ?thesis using t False by (intro exI[of _ t]) (simp add: kbind_def)
    qed
  qed
qed

subsection \<open>Properties\<close>

text \<open>
  C6. \<^verbatim>\<open>push\<close> implements its contract on the abstract queues: if the process is in one of the five queues
  nothing changes, else it is appended to the queue asked for. It never finds that queue full.
\<close>

theorem push_refines:
  assumes "mlfq_ok s" and "p < NPROC" and "0 \<le> q" and "q < 5"
  shows "\<exists>t. push q p s = Ret () t \<and> queues t = apush (nat q) p (queues s) \<and> mlfq_ok t"
proof (cases "p \<in> queued s")
  case True
  then show ?thesis
    using push_run[OF assms(1) _ assms(3,4), of p] assms(1,2) by (simp add: apush_def queued_def NPROC_def)
next
  case False
  then show ?thesis
    using push_run[OF assms(1) _ assms(3,4), of p] enqueue_queues[OF assms(1) _ False, of "nat q"] assms
    by (simp add: apush_def queued_def NPROC_def)
qed

lemma boot_mlfq_ok: "mlfq_ok (queues_init (zero_ptab n))" "queues (queues_init (zero_ptab n)) = replicate 5 []"
proof -
  let ?s = "queues_init (zero_ptab n)"
  have rings: "rings_ok ?s"
    by (simp add: rings_ok_def ring_ok_def queues_init_def zero_ptab_def NPROC_def)
  have "q_contents i ?s = []" if "i < 5" for i
    using that by (simp add: q_contents_def ring_contents_def queues_init_def)
  then show q: "queues ?s = replicate 5 []" by (intro nth_equalityI) simp_all
  show "mlfq_ok ?s" using rings by (simp add: mlfq_ok_def queued_def q)
qed

theorem push_refines_witness:
  "\<exists>t. push 2 7 (queues_init (zero_ptab 1)) = Ret () t \<and> queues t = [[], [], [7], [], []]"
proof -
  obtain t where "push 2 7 (queues_init (zero_ptab 1)) = Ret () t"
    "queues t = apush 2 7 (queues (queues_init (zero_ptab 1)))"
    using push_refines[of "queues_init (zero_ptab 1)" 7 2] boot_mlfq_ok(1)[of 1] by (auto simp: NPROC_def)
  then show ?thesis by (auto simp: boot_mlfq_ok apush_def numeral_eq_Suc)
qed

text \<open>
  C7. Any sequence of operations on a ready queue (put unless full, get unless empty) behaves as on a
  list of at most 64 processes: first in, first out, no process lost or invented.
\<close>

theorem ready_queue_fifo:
  assumes "rings_ok s" and "q < 5"
  shows "case buf_run (isFull q) (isEmpty q) (enqueue q) (\<lambda>s. map_prod the id (dequeue q s)) ops s of
    (out, t) \<Rightarrow> rings_ok t \<and> list_run 64 ops (q_contents q s) = (out, q_contents q t)"
  using ready.run_refines_list[of s q ops] assms by (simp split: prod.splits)

theorem ready_queue_fifo_witness:
  "fst (buf_run (isFull 1) (isEmpty 1) (enqueue 1) (\<lambda>s. map_prod the id (dequeue 1 s))
     [Put 3, Put 9, Get, Put 4, Get] (queues_init (zero_ptab 1))) = [3, 9]"
proof -
  let ?s = "queues_init (zero_ptab 1)"
  have ok: "rings_ok ?s" and empty: "q_contents 1 ?s = []"
    using boot_mlfq_ok[of 1] by (auto simp: mlfq_ok_def q_contents_def ring_contents_def queues_init_def)
  obtain out t where b: "buf_run (isFull 1) (isEmpty 1) (enqueue 1)
      (\<lambda>s. map_prod the id (dequeue 1 s)) [Put 3, Put 9, Get, Put 4, Get] ?s = (out, t)"
    by (rule prod.exhaust)
  have "list_run 64 [Put 3, Put 9, Get, Put 4, Get] [] = (out, q_contents 1 t)"
    using ready_queue_fifo[of ?s 1 "[Put 3, Put 9, Get, Put 4, Get]", OF ok, unfolded b prod.case empty]
    by (elim meta_impE) (simp, elim conjE)
  then have "out = [3, 9]" by simp
  then show ?thesis unfolding b by simp
qed

text \<open>
  C8. The feedback scheduler's search returns the first runnable process of the lowest-numbered queue
  that has one. The loop ends; the process found leaves the queues, and if none is found the queues
  are as before.
\<close>

theorem mlfq_picks_first:
  assumes "mlfq_ok s" and "length (ptable s) = NPROC"
  shows "\<exists>t. mlfq_search [0..<5] s = Ret (first_runnable (runnable s) (queues s)) t \<and> mlfq_ok t \<and>
    queued t = queued s - set_option (first_runnable (runnable s) (queues s)) \<and>
    (first_runnable (runnable s) (queues s) = None \<longrightarrow> queues t = queues s)"
proof -
  have m: "map (\<lambda>i. queues s ! i) [0..<5] = queues s" by (rule nth_equalityI) simp_all
  have "length (ptable s) = 64" "set [0..<5] \<subseteq> {..<5}" using assms(2) by (auto simp: NPROC_def)
  from mlfq_search_first[OF assms(1) this, unfolded m] show ?thesis
    by (elim exE conjE, intro exI conjI)
qed

theorem mlfq_picks_first_witness:
  "\<exists>t. mlfq_search [0..<5] (queues_init (zero_ptab 1)) = Ret None t \<and> queues t = replicate 5 []"
proof -
  have "first_runnable (runnable (queues_init (zero_ptab 1))) (replicate 5 []) = None"
    by (simp add: numeral_eq_Suc)
  moreover have "length (ptable (queues_init (zero_ptab 1))) = NPROC"
    by (simp add: queues_init_def zero_ptab_def)
  ultimately show ?thesis
    using mlfq_picks_first[of "queues_init (zero_ptab 1)"] by (auto simp: boot_mlfq_ok)
qed

text \<open>
  C9. First come first served picks a runnable process if there is one, no runnable process has started
  earlier, and among those that started at the same time it is the first in the table.
\<close>

theorem fcfs_picks_oldest:
  "case fcfs_pick s of
     None \<Rightarrow> (\<forall>k<NPROC. \<not> runnable s k)
   | Some j \<Rightarrow> j < NPROC \<and> runnable s j \<and>
       (\<forall>k<NPROC. runnable s k \<longrightarrow> p_start_time (proc_at s j) \<le> p_start_time (proc_at s k)) \<and>
       (\<forall>k<j. runnable s k \<longrightarrow> p_start_time (proc_at s j) < p_start_time (proc_at s k))"
  using fcfs_pick_None[of s] fcfs_pick_Some[of s] by (cases "fcfs_pick s") auto

theorem fcfs_picks_oldest_witness:
  "fcfs_pick (queues_init (zero_ptab 1)) = None"
proof -
  have "\<not> runnable (queues_init (zero_ptab 1)) k" if "k < NPROC" for k
    using that by (simp add: queues_init_def zero_ptab_def zero_proc_def)
  then show ?thesis
    using fcfs_picks_oldest[of "queues_init (zero_ptab 1)"]
    by (cases "fcfs_pick (queues_init (zero_ptab 1))") auto
qed

text \<open>
  C10. The priority scheduler, having found a runnable process \<open>p\<close>, runs a runnable process of the
  numerically least priority; it passes \<open>p\<close> over only for a process of strictly better priority.
\<close>

theorem pbs_picks_best:
  assumes "runnable s p" and "p < NPROC"
  shows "pbs_pick s p < NPROC \<and> runnable s (pbs_pick s p) \<and>
    (\<forall>k<NPROC. runnable s k \<longrightarrow> p_priority (proc_at s (pbs_pick s p)) \<le> p_priority (proc_at s k)) \<and>
    (pbs_pick s p = p \<or> p_priority (proc_at s (pbs_pick s p)) < p_priority (proc_at s p))"
  using pbs_pick_min[OF assms] by simp

theorem pbs_picks_best_witness:
  "pbs_pick ((zero_ptab 1)\<lparr>ptable := (replicate NPROC zero_proc)[5 := zero_proc\<lparr>p_state := RUNNABLE, p_priority := 60\<rparr>]\<rparr>) 5 = 5"
proof -
  let ?s = "(zero_ptab 1)\<lparr>ptable := (replicate NPROC zero_proc)[5 := zero_proc\<lparr>p_state := RUNNABLE, p_priority := 60\<rparr>]\<rparr>"
  have r: "runnable ?s k \<longleftrightarrow> k = 5" if "k < NPROC" for k
    using that by (auto simp: nth_list_update zero_proc_def NPROC_def)
  have five: "5 < NPROC" by (simp add: NPROC_def)
  then have "pbs_pick ?s 5 < NPROC" "runnable ?s (pbs_pick ?s 5)"
    using pbs_picks_best[of ?s 5] r[of 5] by blast+
  then show ?thesis using r by blast
qed

end
