(* ===== verification/Xv6_Invariant.thy ===== *)
theory Xv6_Invariant
  imports Xv6_Policy
begin

text \<open>
  The invariant of the process table and that every operation on the table keeps it without undefined
  behaviour: process identifiers are distinct, a process runs on exactly one CPU if it is
  \<^verbatim>\<open>RUNNING\<close>, the time a process has run is at most the time since it was created, and with the
  feedback scheduler every queue number is in range, the ticks per queue add up to the running
  time, and no running process is in a queue.
\<close>

subsection \<open>The invariant\<close>

text \<open>What holds of one slot at time \<open>now\<close>, with process identifiers below \<open>np\<close> given out.\<close>

definition slot_ok :: "policy \<Rightarrow> int \<Rightarrow> int \<Rightarrow> proc \<Rightarrow> bool" where
  "slot_ok sc now np p \<longleftrightarrow>
     0 \<le> p_pid p \<and> p_pid p < np \<and> (p_state p \<noteq> UNUSED \<longrightarrow> p_pid p \<noteq> 0) \<and>
     0 \<le> p_run_time p \<and>
     (p_state p \<noteq> UNUSED \<and> p_state p \<noteq> ZOMBIE \<longrightarrow> p_run_time p \<le> now - p_start_time p) \<and>
     (p_state p = ZOMBIE \<longrightarrow> p_run_time p \<le> p_end_time p - p_start_time p) \<and>
     (sc = MLFQ \<longrightarrow> 0 \<le> p_queueNo p \<and> p_queueNo p < 5 \<and> length (p_ticks p) = 5 \<and>
        sum_list (p_ticks p) = p_run_time p)"

definition pids_distinct :: "'z ptab_scheme \<Rightarrow> bool" where
  "pids_distinct s \<longleftrightarrow> (\<forall>i<64. \<forall>j<64. p_pid (proc_at s i) = p_pid (proc_at s j) \<longrightarrow>
     p_pid (proc_at s i) \<noteq> 0 \<longrightarrow> i = j)"

text \<open>\<open>P c\<close> is the process on CPU \<open>c < n\<close>: the running processes are those on some CPU, each on one.\<close>

definition assigned :: "nat \<Rightarrow> (nat \<Rightarrow> nat option) \<Rightarrow> (nat \<Rightarrow> bool) \<Rightarrow> bool" where
  "assigned n P run \<longleftrightarrow> (\<forall>c<n. \<forall>i. P c = Some i \<longrightarrow> i < 64 \<and> run i) \<and>
     (\<forall>i<64. run i \<longrightarrow> (\<exists>c<n. P c = Some i)) \<and>
     (\<forall>c<n. \<forall>d<n. \<forall>i. P c = Some i \<longrightarrow> P d = Some i \<longrightarrow> c = d)"

definition cpus_ok :: "'z ptab_scheme \<Rightarrow> bool" where
  "cpus_ok s \<longleftrightarrow> thiscpu s < length (cpus s) \<and>
     assigned (length (cpus s)) (\<lambda>c. c_proc (cpus s ! c)) (\<lambda>i. p_state (proc_at s i) = RUNNING)"

lemma assigned_cong:
  assumes "assigned n P run" and "\<And>c. c < n \<Longrightarrow> P' c = P c" and "\<And>i. i < 64 \<Longrightarrow> run' i = run i"
  shows "assigned n P' run'"
  unfolding assigned_def
proof (intro conjI allI impI)
  fix c i
  assume c: "c < n" "P' c = Some i"
  then have i: "i < 64" "run i" using assms(1,2) by (auto simp: assigned_def)
  show "i < 64" by (fact i(1))
  show "run' i" using i assms(3) by simp
next
  fix i :: nat
  assume "i < 64" "run' i"
  then obtain c where "c < n" "P c = Some i" using assms(1,3) by (auto simp: assigned_def)
  then show "\<exists>c<n. P' c = Some i" using assms(2) by auto
next
  fix c d i
  assume "c < n" "d < n" "P' c = Some i" "P' d = Some i"
  then show "c = d" using assms(1,2) by (auto simp: assigned_def)
qed

lemma assigned_start:
  assumes "assigned n P run" and "k < n" and "P k = None" and "j < 64" and "\<not> run j"
  shows "assigned n (P(k := Some j)) (run(j := True))"
proof -
  have a: "\<And>c i. c < n \<Longrightarrow> P c = Some i \<Longrightarrow> i < 64 \<and> run i" and b: "\<And>i. i < 64 \<Longrightarrow> run i \<Longrightarrow> \<exists>c<n. P c = Some i"
    and d: "\<And>c d i. c < n \<Longrightarrow> d < n \<Longrightarrow> P c = Some i \<Longrightarrow> P d = Some i \<Longrightarrow> c = d"
    using assms(1) unfolding assigned_def by blast+
  show ?thesis
    unfolding assigned_def
  proof (intro conjI allI impI)
    fix i :: nat
    assume i: "i < 64" "(run(j := True)) i"
    show "\<exists>c<n. (P(k := Some j)) c = Some i"
    proof (cases "i = j")
      case False
      then obtain c where "c < n" "P c = Some i" using b[of i] i by auto
      then show ?thesis using assms(3) by (intro exI[of _ c]) auto
    qed (use assms(2) in auto)
  next
    fix c i
    assume "c < n" "(P(k := Some j)) c = Some i"
    then show "i < 64" "(run(j := True)) i" using a[of c i] assms(4) by (auto split: if_splits)
  next
    fix c e i
    assume "c < n" "e < n" "(P(k := Some j)) c = Some i" "(P(k := Some j)) e = Some i"
    then show "c = e" using d[of c e i] a[of c i] a[of e i] assms(5) by (auto split: if_splits)
  qed
qed

lemma assigned_stop:
  assumes "assigned n P run" and "k < n" and "P k = Some j"
  shows "assigned n (P(k := None)) (run(j := False))"
proof -
  have a: "\<And>c i. c < n \<Longrightarrow> P c = Some i \<Longrightarrow> i < 64 \<and> run i" and b: "\<And>i. i < 64 \<Longrightarrow> run i \<Longrightarrow> \<exists>c<n. P c = Some i"
    and d: "\<And>c d i. c < n \<Longrightarrow> d < n \<Longrightarrow> P c = Some i \<Longrightarrow> P d = Some i \<Longrightarrow> c = d"
    using assms(1) unfolding assigned_def by blast+
  show ?thesis
    unfolding assigned_def
  proof (intro conjI allI impI)
    fix i :: nat
    assume "i < 64" "(run(j := False)) i"
    then have "i \<noteq> j" "run i" "i < 64" by (auto split: if_splits)
    moreover from this obtain c where "c < n" "P c = Some i" using b by blast
    ultimately show "\<exists>c<n. (P(k := None)) c = Some i" using assms(3) by (intro exI[of _ c]) auto
  next
    fix c i
    assume c: "c < n" "(P(k := None)) c = Some i"
    then have p: "c \<noteq> k" "P c = Some i" by (auto split: if_splits)
    then have "i \<noteq> j" using d[OF c(1) assms(2) _ assms(3)] by auto
    then show "i < 64" "(run(j := False)) i" using a[OF c(1) p(2)] by auto
  next
    fix c e i
    assume "c < n" "e < n" "(P(k := None)) c = Some i" "(P(k := None)) e = Some i"
    then show "c = e" using d[of c e i] by (auto split: if_splits)
  qed
qed

definition levels_ok :: "'z ptab_scheme \<Rightarrow> bool" where
  "levels_ok s \<longleftrightarrow> mlfq_ok s \<and> (\<forall>i\<in>queued s. p_state (proc_at s i) \<noteq> RUNNING)"

text \<open>While the clock tick updates the slots one after the other, they differ in the time reached.\<close>

definition inv_at :: "policy \<Rightarrow> (nat \<Rightarrow> int) \<Rightarrow> 'z ptab_scheme \<Rightarrow> bool" where
  "inv_at sc now s \<longleftrightarrow> length (ptable s) = 64 \<and> 1 \<le> nextpid s \<and>
     (\<forall>i<64. slot_ok sc (now i) (nextpid s) (proc_at s i)) \<and> pids_distinct s \<and> cpus_ok s \<and>
     (sc = MLFQ \<longrightarrow> levels_ok s)"

text \<open>The clock is a C \<^verbatim>\<open>int\<close> where the table stores it; it has not overflowed.\<close>

definition inv_now :: "policy \<Rightarrow> int \<Rightarrow> 'z ptab_scheme \<Rightarrow> bool" where
  "inv_now sc now s \<longleftrightarrow> inv_at sc (\<lambda>_. now) s \<and> sint (ticks s) = now \<and> 0 \<le> now"

definition sched_inv :: "policy \<Rightarrow> 'z ptab_scheme \<Rightarrow> bool" where
  "sched_inv sc s \<longleftrightarrow> inv_now sc (sint (ticks s)) s"

lemma slot_ok_mono: "slot_ok sc now np p \<Longrightarrow> now \<le> now' \<Longrightarrow> np \<le> np' \<Longrightarrow> slot_ok sc now' np' p"
  by (auto simp: slot_ok_def)

subsection \<open>Small changes of the state\<close>

text \<open>
  A change that keeps the queues, and of each slot the pid and whether it is running.
\<close>

definition proc_step :: "'z ptab_scheme \<Rightarrow> 'z ptab_scheme \<Rightarrow> bool" where
  "proc_step s t \<longleftrightarrow> length (ptable t) = length (ptable s) \<and> nextpid t = nextpid s \<and> ticks t = ticks s \<and>
     map c_proc (cpus t) = map c_proc (cpus s) \<and> thiscpu t = thiscpu s \<and> q_front t = q_front s \<and>
     q_rear t = q_rear s \<and> q_sz t = q_sz s \<and> q_slots t = q_slots s \<and>
     (\<forall>i<length (ptable s). p_pid (proc_at t i) = p_pid (proc_at s i) \<and>
        (p_state (proc_at t i) = RUNNING \<longleftrightarrow> p_state (proc_at s i) = RUNNING))"

lemma cpus_same:
  assumes "map c_proc (cpus t) = map c_proc (cpus s)"
  shows "length (cpus t) = length (cpus s)"
    and "c < length (cpus s) \<Longrightarrow> c_proc (cpus t ! c) = c_proc (cpus s ! c)"
  using assms map_eq_imp_length_eq[OF assms] by (metis, metis nth_map)

lemma inv_proc_step:
  assumes "inv_at sc now s" and "proc_step s t"
    and "\<And>i. i < 64 \<Longrightarrow> slot_ok sc (now' i) (nextpid s) (proc_at t i)"
  shows "inv_at sc now' t"
proof -
  have len: "length (ptable s) = 64" using assms(1) by (simp add: inv_at_def)
  have cp: "map c_proc (cpus t) = map c_proc (cpus s)" using assms(2) by (simp add: proc_step_def)
  have pid: "p_pid (proc_at t i) = p_pid (proc_at s i)"
    and run: "p_state (proc_at t i) = RUNNING \<longleftrightarrow> p_state (proc_at s i) = RUNNING" if "i < 64" for i
    using assms(2) that len by (simp_all add: proc_step_def)
  have "pids_distinct t" using assms(1) by (simp add: inv_at_def pids_distinct_def pid)
  moreover have "cpus_ok t"
  proof -
    have "cpus_ok s" using assms(1) by (simp add: inv_at_def)
    moreover have "thiscpu t = thiscpu s" using assms(2) by (simp add: proc_step_def)
    ultimately show ?thesis
      unfolding cpus_ok_def cpus_same(1)[OF cp]
      by (intro conjI) (simp, elim conjE, erule assigned_cong, simp_all add: cpus_same(2)[OF cp] run)
  qed
  moreover have "levels_ok t" if "sc = MLFQ"
  proof -
    have l: "levels_ok s" using assms(1) that by (simp add: inv_at_def)
    have "mlfq_ok t = mlfq_ok s" and "queued t = queued s"
      using assms(2) mlfq_ok_cong[of t s] queues_cong[of t s] by (auto simp: proc_step_def queued_def)
    moreover have "i < 64" if "i \<in> queued s" for i
      using l queued_bound that unfolding levels_ok_def by blast
    ultimately show ?thesis using l run by (simp add: levels_ok_def)
  qed
  ultimately show ?thesis using assms len by (simp add: inv_at_def proc_step_def)
qed

lemma proc_step_upd:
  assumes "p_pid (f (proc_at s j)) = p_pid (proc_at s j)"
    and "p_state (f (proc_at s j)) = RUNNING \<longleftrightarrow> p_state (proc_at s j) = RUNNING"
  shows "proc_step s (upd_proc j f s)"
  using assms by (cases "j < length (ptable s)") (auto simp: proc_step_def nth_list_update list_update_beyond)

lemma inv_upd_proc:
  assumes "inv_at sc now s" and "j < 64" and "slot_ok sc (now' j) (nextpid s) (f (proc_at s j))"
    and "p_pid (f (proc_at s j)) = p_pid (proc_at s j)"
    and "p_state (f (proc_at s j)) = RUNNING \<longleftrightarrow> p_state (proc_at s j) = RUNNING"
    and "\<And>i. i < 64 \<Longrightarrow> i \<noteq> j \<Longrightarrow> now i \<le> now' i"
  shows "inv_at sc now' (upd_proc j f s)"
proof (rule inv_proc_step[OF assms(1) proc_step_upd[where f = f and s = s and j = j, OF assms(4,5)]])
  fix i :: nat
  assume "i < 64"
  then show "slot_ok sc (now' i) (nextpid s) (proc_at (upd_proc j f s) i)"
    using assms(1-3,6) by (auto simp: inv_at_def nth_list_update intro: slot_ok_mono)
qed

lemma inv_upd_same:
  assumes "inv_now sc now s" and "j < 64"
    and "slot_ok sc now (nextpid s) (proc_at s j) \<Longrightarrow> slot_ok sc now (nextpid s) (f (proc_at s j))"
    and "p_pid (f (proc_at s j)) = p_pid (proc_at s j)"
    and "p_state (f (proc_at s j)) = RUNNING \<longleftrightarrow> p_state (proc_at s j) = RUNNING"
  shows "inv_now sc now (upd_proc j f s)"
  using inv_upd_proc[of sc "\<lambda>_. now" s j "\<lambda>_. now" f] assms by (simp add: inv_now_def inv_at_def)

text \<open>Memory and registers do not matter.\<close>

lemma inv_now_step:
  assumes "inv_now sc now s" and "proc_step s t" and "ptable t = ptable s"
  shows "inv_now sc now t"
  using assms inv_proc_step[of sc "\<lambda>_. now" s t "\<lambda>_. now"]
  by (auto simp: inv_now_def inv_at_def proc_step_def)

lemma mem_frame_ptab:
  assumes "mem_frame s t"
  shows "proc_step s t" and "ptable t = ptable s"
proof -
  obtain m fl where "t = s\<lparr>mem := m, freelist := fl\<rparr>" using assms by (auto simp: mem_frame_def)
  then show "proc_step s t" "ptable t = ptable s" by (simp_all add: proc_step_def)
qed

lemma inv_mem_frame: "inv_now sc now s \<Longrightarrow> mem_frame s t \<Longrightarrow> inv_now sc now t"
  using inv_now_step mem_frame_ptab by blast

lemma inv_upd_cpu:
  assumes "inv_now sc now s" and "\<And>c. c_proc (g c) = c_proc c"
  shows "inv_now sc now (upd_cpu g s)"
proof (rule inv_now_step[OF assms(1)])
  have "map c_proc ((cpus s)[k := g (cpus s ! k)]) = map c_proc (cpus s)" for k
    using assms(2) by (cases "k < length (cpus s)") (auto simp: map_update list_update_same_conv list_update_beyond)
  then show "proc_step s (upd_cpu g s)" by (simp add: proc_step_def)
qed simp

lemma inv_slot: "inv_at sc now s \<Longrightarrow> j < 64 \<Longrightarrow> slot_ok sc (now j) (nextpid s) (proc_at s j)"
  by (simp add: inv_at_def)

text \<open>A change to the queues and to the times used of a slice.\<close>

lemma inv_same_core:
  assumes "inv_at sc now s" and "same_core s t"
    and "sc = MLFQ \<Longrightarrow> levels_ok t"
  shows "inv_at sc now t"
proof -
  have len: "length (ptable s) = 64" using assms(1) by (simp add: inv_at_def)
  note c = core_eqD[OF same_core_nth[OF assms(2)], unfolded len]
  note r = same_core_rest[OF assms(2)]
  have "slot_ok sc (now i) (nextpid t) (proc_at t i)" if "i < 64" for i
    using inv_slot[OF assms(1) that] by (simp add: slot_ok_def c[OF that] r)
  moreover have "pids_distinct t"
    using assms(1) by (simp add: inv_at_def pids_distinct_def c)
  moreover have "cpus_ok t"
  proof -
    have "cpus_ok s" using assms(1) by (simp add: inv_at_def)
    then show ?thesis
      unfolding cpus_ok_def r by (elim conjE, intro conjI) (simp, erule assigned_cong, simp_all add: c)
  qed
  moreover have "1 \<le> nextpid t" "length (ptable t) = 64"
    using assms(1) r same_core_length[OF assms(2)] by (simp_all add: inv_at_def)
  ultimately show ?thesis using assms(3) by (simp add: inv_at_def)
qed

lemma levels_bound: "levels_ok s \<Longrightarrow> i \<in> queued s \<Longrightarrow> i < 64"
  using queued_bound unfolding levels_ok_def by blast

lemma push_inv:
  assumes "inv_at MLFQ now s" and "j < 64" and "0 \<le> q" and "q < 5" and "p_state (proc_at s j) \<noteq> RUNNING"
  shows "sound (push q j) s (\<lambda>_ t. inv_at MLFQ now t \<and> same_core s t) R"
proof -
  have l: "levels_ok s" and len: "length (ptable s) = 64" using assms(1) by (simp_all add: inv_at_def)
  then have ok: "mlfq_ok s" by (simp add: levels_ok_def)
  let ?t = "if j \<in> queued s then s else enqueue (nat q) j s"
  have run: "push q j s = Ret () ?t" by (rule push_run[OF ok assms(2-4)])
  have core: "same_core s ?t" using push_core[OF run] .
  have "levels_ok ?t"
  proof (cases "j \<in> queued s")
    case False
    note e = enqueue_queues[OF ok assms(2) False, of "nat q"]
    have "p_state (proc_at ?t i) = p_state (proc_at s i)" if "i < 64" for i
      using core_eqD(1)[OF same_core_nth[OF core]] that len by simp
    then show ?thesis
      using False e assms(2,4,5) l levels_bound[OF l] by (auto simp: levels_ok_def)
  qed (use l in simp)
  then have "inv_at MLFQ now ?t" using inv_same_core[OF assms(1) core] by simp
  then show ?thesis using run core by (simp add: sound_Ret)
qed

lemma push_now:
  assumes "inv_now MLFQ now s" and "j < 64" and "0 \<le> q" and "q < 5" and "p_state (proc_at s j) \<noteq> RUNNING"
  shows "sound (push q j) s (\<lambda>_ t. inv_now MLFQ now t \<and> same_core s t) R"
proof -
  have "sound (push q j) s (\<lambda>_ t. inv_at MLFQ (\<lambda>_. now) t \<and> same_core s t) R"
    using assms by (intro push_inv) (simp_all add: inv_now_def)
  then show ?thesis
    by (rule sound_mono) (use assms(1) in \<open>auto simp: inv_now_def same_core_rest\<close>)
qed

subsection \<open>Starting and stopping a process\<close>

definition idle :: "'z ptab_scheme \<Rightarrow> bool" where
  "idle s \<longleftrightarrow> c_proc (cpus s ! thiscpu s) = None"

lemma upd_comm: "upd_cpu g (upd_proc j f s) = upd_proc j f (upd_cpu g s)"
  by (simp add: upd_cpu_def upd_proc_def)

lemma queued_upd [simp]:
  "queued (upd_proc j f s) = queued s" "queued (upd_cpu g s) = queued s"
  "mlfq_ok (upd_proc j f s) = mlfq_ok s" "mlfq_ok (upd_cpu g s) = mlfq_ok s"
proof -
  show "queued (upd_proc j f s) = queued s" "queued (upd_cpu g s) = queued s"
    using queues_cong[of "upd_proc j f s" s] queues_cong[of "upd_cpu g s" s] by (simp_all add: queued_def)
  show "mlfq_ok (upd_proc j f s) = mlfq_ok s" "mlfq_ok (upd_cpu g s) = mlfq_ok s"
    by (simp_all add: mlfq_ok_cong[of "upd_proc j f s" s] mlfq_ok_cong[of "upd_cpu g s" s])
qed

text \<open>A runnable process starts on this CPU, which was idle.\<close>

lemma inv_start:
  assumes "inv_now sc now s" and "idle s" and "j < 64" and "runnable s j"
    and "sc = MLFQ \<Longrightarrow> j \<notin> queued s" and "c_proc (g (cpus s ! thiscpu s)) = Some j"
  shows "inv_now sc now (upd_proc j (\<lambda>p. p\<lparr>p_state := RUNNING\<rparr>) (upd_cpu g s))"
proof -
  let ?t = "upd_proc j (\<lambda>p. p\<lparr>p_state := RUNNING\<rparr>) (upd_cpu g s)"
  have inv: "inv_at sc (\<lambda>_. now) s" using assms(1) by (simp add: inv_now_def)
  have len: "length (ptable s) = 64" using inv by (simp add: inv_at_def)
  have nth: "proc_at ?t i = (if i = j then (proc_at s j)\<lparr>p_state := RUNNING\<rparr> else proc_at s i)" if "i < 64" for i
    using that len assms(3) by (simp add: nth_list_update)
  have "slot_ok sc now (nextpid s) (proc_at ?t i)" if "i < 64" for i
    using inv_slot[OF inv that] assms(4) by (auto simp: nth[OF that] slot_ok_def simp del: upd_proc_simps upd_cpu_simps)
  moreover have "p_pid (proc_at ?t i) = p_pid (proc_at s i)" if "i < 64" for i
    by (auto simp: nth[OF that] simp del: upd_proc_simps upd_cpu_simps)
  then have "pids_distinct ?t"
    using inv by (simp add: inv_at_def pids_distinct_def del: upd_proc_simps upd_cpu_simps)
  moreover have "cpus_ok ?t"
  proof -
    have c: "cpus_ok s" using inv by (simp add: inv_at_def)
    then have cur: "thiscpu s < length (cpus s)" by (simp add: cpus_ok_def)
    have "assigned (length (cpus s)) ((\<lambda>c. c_proc (cpus s ! c))(thiscpu s := Some j))
        ((\<lambda>i. p_state (proc_at s i) = RUNNING)(j := True))"
      using c assms(2-4) by (intro assigned_start) (simp_all add: cpus_ok_def idle_def)
    then have "assigned (length (cpus s)) (\<lambda>c. c_proc (cpus ?t ! c)) (\<lambda>i. p_state (proc_at ?t i) = RUNNING)"
      by (rule assigned_cong)
        (use cur assms(3,6) len in \<open>auto simp: nth_list_update\<close>)
    then show ?thesis using cur by (simp add: cpus_ok_def)
  qed
  moreover have "levels_ok ?t" if "sc = MLFQ"
  proof -
    have l: "levels_ok s" using inv that by (simp add: inv_at_def)
    then show ?thesis using assms(5)[OF that] levels_bound[OF l]
      by (auto simp: levels_ok_def nth_list_update len assms(3))
  qed
  ultimately show ?thesis using assms(1) len by (simp add: inv_now_def inv_at_def)
qed

text \<open>The process on this CPU stops running; the CPU is idle.\<close>

lemma inv_stop:
  assumes "inv_now sc now s" and "c_proc (cpus s ! thiscpu s) = Some j"
    and "p_state (f (proc_at s j)) \<noteq> RUNNING" and "p_pid (f (proc_at s j)) = p_pid (proc_at s j)"
    and "slot_ok sc now (nextpid s) (proc_at s j) \<Longrightarrow> slot_ok sc now (nextpid s) (f (proc_at s j))"
  shows "inv_now sc now (upd_proc j f (upd_cpu (\<lambda>c. c\<lparr>c_proc := None\<rparr>) s))"
proof -
  let ?t = "upd_proc j f (upd_cpu (\<lambda>c. c\<lparr>c_proc := None\<rparr>) s)"
  have inv: "inv_at sc (\<lambda>_. now) s" using assms(1) by (simp add: inv_now_def)
  have len: "length (ptable s) = 64" and c: "cpus_ok s" using inv by (simp_all add: inv_at_def)
  have cur: "thiscpu s < length (cpus s)" and j: "j < 64"
    using c assms(2) by (auto simp: cpus_ok_def assigned_def)
  have nth: "proc_at ?t i = (if i = j then f (proc_at s j) else proc_at s i)" if "i < 64" for i
    using that len j by (simp add: nth_list_update)
  have "slot_ok sc now (nextpid s) (proc_at ?t i)" if "i < 64" for i
    using inv_slot[OF inv that] assms(5) by (auto simp: nth[OF that] simp del: upd_proc_simps upd_cpu_simps)
  moreover have "p_pid (proc_at ?t i) = p_pid (proc_at s i)" if "i < 64" for i
    using assms(4) by (auto simp: nth[OF that] simp del: upd_proc_simps upd_cpu_simps)
  then have "pids_distinct ?t"
    using inv by (simp add: inv_at_def pids_distinct_def del: upd_proc_simps upd_cpu_simps)
  moreover have "cpus_ok ?t"
  proof -
    have "assigned (length (cpus s)) ((\<lambda>c. c_proc (cpus s ! c))(thiscpu s := None))
        ((\<lambda>i. p_state (proc_at s i) = RUNNING)(j := False))"
      using c assms(2) by (intro assigned_stop) (simp_all add: cpus_ok_def)
    then have "assigned (length (cpus s)) (\<lambda>c. c_proc (cpus ?t ! c)) (\<lambda>i. p_state (proc_at ?t i) = RUNNING)"
      by (rule assigned_cong) (use cur assms(3) j len in \<open>auto simp: nth_list_update\<close>)
    then show ?thesis using cur by (simp add: cpus_ok_def)
  qed
  moreover have "levels_ok ?t" if "sc = MLFQ"
  proof -
    have l: "levels_ok s" using inv that by (simp add: inv_at_def)
    then show ?thesis using levels_bound[OF l] assms(3)
      by (auto simp: levels_ok_def nth_list_update len j)
  qed
  ultimately show ?thesis using assms(1) len by (simp add: inv_now_def inv_at_def)
qed

subsection \<open>The schedulers keep the invariant\<close>

lemma dispatch_inv:
  assumes "inv_now sc now s" and "idle s" and "j < 64" and "runnable s j" and "sc = MLFQ \<Longrightarrow> j \<notin> queued s"
  shows "sound (dispatch j) s (\<lambda>_. inv_now sc now) R"
proof -
  let ?p = "proc_at s j"
  let ?g = "\<lambda>c. c\<lparr>c_proc := Some j, c_esp0 := p_kstack ?p + KSTACKSIZE, c_cr3 := V2P (p_pgdir ?p)\<rparr>"
  have this_ok: "thiscpu s < length (cpus s)"
    using assms(1) by (simp add: inv_now_def inv_at_def cpus_ok_def)
  have "dispatch j s = (if p_kstack ?p = 0 then Fault (Panic ''switchuvm: no kstack'')
      else if p_pgdir ?p = 0 then Fault (Panic ''switchuvm: no pgdir'')
      else Ret () (upd_proc j (\<lambda>p. p\<lparr>p_state := RUNNING\<rparr>) (upd_cpu ?g s)))"
    using this_ok by (simp add: dispatch_def switchuvm_def kbind_def upd_cpu_def)
  then show ?thesis
    using inv_start[OF assms(1-4), of ?g] assms(5) by (simp add: sound_def)
qed

lemma find_runnable: "find (runnable s) [i..<NPROC] = Some j \<Longrightarrow> j < 64 \<and> runnable s j"
  by (simp add: find_upt_Some NPROC_def)

lemma scheduler_rr_inv:
  assumes "inv_now sc now s" and "idle s" and "sc \<noteq> MLFQ"
  shows "sound (scheduler_rr i) s (\<lambda>_. inv_now sc now) R"
proof (cases "find (runnable s) [i..<NPROC]")
  case None
  then show ?thesis using assms(1) by (simp add: scheduler_rr_def sound_def)
next
  case (Some j)
  then have "sound (dispatch j) s (\<lambda>_. inv_now sc now) R"
    using find_runnable[OF Some] assms by (intro dispatch_inv) auto
  then show ?thesis using Some by (simp add: scheduler_rr_def sound_def)
qed

lemma scheduler_fcfs_inv:
  assumes "inv_now sc now s" and "idle s" and "sc \<noteq> MLFQ"
  shows "sound scheduler_fcfs s (\<lambda>_. inv_now sc now) R"
proof (cases "fcfs_pick s")
  case None
  then show ?thesis using assms(1) by (simp add: scheduler_fcfs_def sound_def)
next
  case (Some j)
  then have "sound (dispatch j) s (\<lambda>_. inv_now sc now) R"
    using fcfs_pick_Some(1,2)[OF Some] assms by (intro dispatch_inv) (auto simp: NPROC_def)
  then show ?thesis using Some by (simp add: scheduler_fcfs_def sound_def)
qed

lemma scheduler_pbs_inv:
  assumes "inv_now sc now s" and "idle s" and "sc \<noteq> MLFQ"
  shows "sound (scheduler_pbs i) s (\<lambda>_. inv_now sc now) R"
proof (cases "find (runnable s) [i..<NPROC]")
  case None
  then show ?thesis using assms(1) by (simp add: scheduler_pbs_def sound_def)
next
  case (Some p)
  then have p: "runnable s p" "p < NPROC" using find_runnable[OF Some] by (auto simp: NPROC_def)
  have "sound (dispatch (pbs_pick s p)) s (\<lambda>_. inv_now sc now) R"
    using pbs_pick_min(1,2)[OF p] assms by (intro dispatch_inv) (auto simp: NPROC_def)
  then show ?thesis using Some by (simp add: scheduler_pbs_def sound_def)
qed

lemma requeue_inv:
  fixes s :: "'z ptab_scheme"
  assumes "inv_now MLFQ now s"
  shows "sound requeue s (\<lambda>_. inv_now MLFQ now) R"
  unfolding requeue_def
proof (rule sound_kfor[where I = "inv_now MLFQ now", OF assms])
  fix j and t :: "'z ptab_scheme"
  assume "j \<in> set [0..<NPROC]" and t: "inv_now MLFQ now t"
  then have j: "j < 64" by (simp add: NPROC_def)
  show "sound (\<lambda>s. if p_pid (proc_at s j) = 0 \<or> p_state (proc_at s j) \<noteq> RUNNABLE then Ret () s else push 0 j s) t
      (\<lambda>_. inv_now MLFQ now) R"
  proof (cases "p_pid (proc_at t j) = 0 \<or> p_state (proc_at t j) \<noteq> RUNNABLE")
    case True
    then show ?thesis using t by (simp add: sound_def)
  next
    case False
    then have "sound (push 0 j) t (\<lambda>_. inv_now MLFQ now) R"
      using push_now[OF t j, of 0 R] by (auto elim: sound_mono)
    then show ?thesis using False by (simp add: sound_def)
  qed
qed

lemma first_runnable_Some:
  "first_runnable R xss = Some j \<Longrightarrow> R j \<and> (\<exists>xs \<in> set xss. j \<in> set xs)"
  by (induction xss) (auto split: option.splits simp: find_Some_iff)

lemma scheduler_mlfq_inv:
  assumes "inv_now MLFQ now s" and "idle s"
  shows "sound scheduler_mlfq s (\<lambda>_. inv_now MLFQ now) R"
proof -
  have l: "levels_ok s" and len: "length (ptable s) = 64"
    using assms(1) by (simp_all add: inv_now_def inv_at_def)
  let ?r = "first_runnable (runnable s) (map (\<lambda>i. queues s ! i) [0..<5])"
  obtain t where t: "mlfq_search [0..<5] s = Ret ?r t" "same_core s t" "mlfq_ok t"
    "queued t = queued s - set_option ?r"
    using mlfq_search_first[of s "[0..<5]"] l len by (auto simp: levels_ok_def atLeast0LessThan)
  have st: "p_state (proc_at t i) = p_state (proc_at s i)" if "i < 64" for i
    using core_eqD(1)[OF same_core_nth[OF t(2)]] that len by simp
  have "levels_ok t" using l t(3,4) st levels_bound[OF l] by (auto simp: levels_ok_def)
  then have inv: "inv_now MLFQ now t"
    using inv_same_core[of MLFQ "\<lambda>_. now" s t] assms(1) t(2) by (simp add: inv_now_def same_core_rest)
  have idle: "idle t" using assms(2) t(2) by (simp add: idle_def same_core_rest)
  show ?thesis
  proof (cases ?r)
    case None
    then show ?thesis using t(1) requeue_inv[OF inv, of R] by (simp add: scheduler_mlfq_def sound_def kbind_def)
  next
    case (Some j)
    then have j: "runnable s j" "j \<in> queued s"
      using first_runnable_Some[OF Some] queue_queued by auto
    then have j64: "j < 64" by (simp add: levels_bound[OF l])
    let ?f = "\<lambda>p. p\<lparr>p_wait_time := 0, p_num_run := p_num_run p + 1\<rparr>"
    let ?u = "upd_proc j ?f t"
    have "inv_now MLFQ now ?u" by (rule inv_upd_same[OF inv j64]) (auto simp: slot_ok_def)
    moreover have "runnable ?u j"
      using j(1) st[OF j64] j64 same_core_length[OF t(2)] len by (simp add: nth_list_update)
    moreover have "idle ?u" using idle by (simp add: idle_def)
    moreover have "j \<notin> queued ?u" using t(4) Some by simp
    ultimately have "sound (dispatch j) ?u (\<lambda>_. inv_now MLFQ now) R"
      using j64 by (intro dispatch_inv) auto
    then show ?thesis using t(1) Some by (simp add: scheduler_mlfq_def sound_def kbind_def)
  qed
qed

lemma scheduler_pass_inv:
  assumes "inv_now sc now s" and "idle s"
  shows "sound (scheduler_pass sc) s (\<lambda>_. inv_now sc now) R"
  using assms scheduler_rr_inv[of sc now s] scheduler_fcfs_inv[of sc now s] scheduler_pbs_inv[of sc now s]
    scheduler_mlfq_inv[of now s]
  by (cases sc) (simp_all add: scheduler_pass_def)

text \<open>
  \<^verbatim>\<open>sched\<close> is called when the process on this CPU is no longer running: the invariant holds but for this CPU.
\<close>

abbreviation go_idle :: "'z ptab_scheme \<Rightarrow> 'z ptab_scheme" where
  "go_idle s \<equiv> upd_cpu (\<lambda>c. c\<lparr>c_proc := None\<rparr>) s"

lemma sched_inv_keeps:
  assumes "inv_now sc now (go_idle s)" and "c_proc (cpus s ! thiscpu s) = Some j" and "p_state (proc_at s j) \<noteq> RUNNING"
  shows "sound (sched sc) s (\<lambda>_. inv_now sc now) R"
proof -
  let ?t = "upd_cpu (\<lambda>c. c\<lparr>c_cr3 := V2P (kpgdir s)\<rparr>) (go_idle s)"
  have this_ok: "thiscpu s < length (cpus s)"
    using assms(1) by (simp add: inv_now_def inv_at_def cpus_ok_def)
  have inv: "inv_now sc now ?t" by (rule inv_upd_cpu[OF assms(1)]) simp
  have idle: "idle ?t" using this_ok by (simp add: idle_def)
  have eq: "go_idle (upd_cpu (\<lambda>c. c\<lparr>c_cr3 := V2P (kpgdir s)\<rparr>) s) = ?t"
    using this_ok by (cases "cpus s ! thiscpu s") (simp add: upd_cpu_def)
  have run: "sched sc s = (case sc of ROUND_ROBIN \<Rightarrow> scheduler_rr (Suc j) | FCFS \<Rightarrow> kret ()
      | PBS \<Rightarrow> scheduler_pbs (Suc j) | MLFQ \<Rightarrow> requeue) ?t"
    using assms(2,3) eq
    by (simp add: sched_def curproc_def myproc_def scheduler_resume_def switchkvm_def kbind_def)
  have "sound (case sc of ROUND_ROBIN \<Rightarrow> scheduler_rr (Suc j) | FCFS \<Rightarrow> kret ()
      | PBS \<Rightarrow> scheduler_pbs (Suc j) | MLFQ \<Rightarrow> requeue) ?t (\<lambda>_. inv_now sc now) R"
    using scheduler_rr_inv[OF inv idle] scheduler_pbs_inv[OF inv idle] requeue_inv[of now ?t] inv
    by (cases sc) simp_all
  then show ?thesis using run by (simp add: sound_def)
qed

subsection \<open>The operations of a process keep the invariant\<close>

text \<open>The current process changes its own slot so that it is not running, and calls \<^verbatim>\<open>sched\<close>.\<close>

lemma stop_sched:
  assumes "inv_now sc now s" and "c_proc (cpus s ! thiscpu s) = Some j"
    and "p_state (f (proc_at s j)) \<noteq> RUNNING" and "p_pid (f (proc_at s j)) = p_pid (proc_at s j)"
    and "slot_ok sc now (nextpid s) (proc_at s j) \<Longrightarrow> slot_ok sc now (nextpid s) (f (proc_at s j))"
  shows "sound (sched sc) (upd_proc j f s) (\<lambda>_. inv_now sc now) R"
proof (rule sched_inv_keeps)
  have "inv_now sc now (upd_proc j f (go_idle s))" by (rule inv_stop) (use assms in auto)
  then show "inv_now sc now (go_idle (upd_proc j f s))" by (simp only: upd_comm)
  show "c_proc (cpus (upd_proc j f s) ! thiscpu (upd_proc j f s)) = Some j" using assms(2) by simp
  have "j < 64" "length (ptable s) = 64"
    using assms(1,2) by (auto simp: inv_now_def inv_at_def cpus_ok_def assigned_def)
  then show "p_state (proc_at (upd_proc j f s) j) \<noteq> RUNNING" using assms(3) by simp
qed

lemma current_running:
  assumes "inv_now sc now s" and "c_proc (cpus s ! thiscpu s) = Some j"
  shows "j < 64" and "j < length (ptable s)" and "p_state (proc_at s j) = RUNNING"
  using assms by (auto simp: inv_now_def inv_at_def cpus_ok_def assigned_def)

lemma sleep_inv:
  assumes "inv_now sc now s"
  shows "sound (sleep sc c) s (\<lambda>_. inv_now sc now) R"
proof (cases "c_proc (cpus s ! thiscpu s)")
  case None
  then show ?thesis by (simp add: sleep_def myproc_def sound_def)
next
  case (Some j)
  have "sound (sched sc) (upd_proc j (\<lambda>pr. pr\<lparr>p_chan := Some c, p_state := SLEEPING\<rparr>) s) (\<lambda>_. inv_now sc now) R"
    by (rule stop_sched[OF assms Some]) (use current_running[OF assms Some] in \<open>auto simp: slot_ok_def\<close>)
  then show ?thesis using Some by (simp add: sleep_def myproc_def sound_def)
qed

text \<open>\<^verbatim>\<open>yield\<close> moves the process to the next queue: its guard in \<^verbatim>\<open>trap\<close> keeps it out of the last one.\<close>

lemma yield_inv:
  assumes "inv_now sc now s" and "preempts sc timer s"
  shows "sound (yield sc) s (\<lambda>_. inv_now sc now) R"
proof -
  obtain j where j: "c_proc (cpus s ! thiscpu s) = Some j"
    using assms(2) by (auto simp: preempts_def split: option.splits)
  note r = current_running[OF assms(1) j]
  show ?thesis
  proof (cases "sc = MLFQ")
    case False
    have "sound (sched sc) (upd_proc j (\<lambda>pr. pr\<lparr>p_state := RUNNABLE\<rparr>) s) (\<lambda>_. inv_now sc now) R"
      by (rule stop_sched[OF assms(1) j]) (use r in \<open>auto simp: slot_ok_def\<close>)
    then show ?thesis using j False by (simp add: yield_def curproc_def myproc_def sound_def kbind_def)
  next
    case True
    let ?f = "\<lambda>pr. pr\<lparr>p_state := RUNNABLE, p_cur_time := 0, p_queueNo := p_queueNo pr + 1\<rparr>"
    let ?t = "go_idle (upd_proc j ?f s)"
    let ?q = "p_queueNo (proc_at s j) + 1"
    have slot: "slot_ok MLFQ now (nextpid s) (proc_at s j)"
      using assms(1) True r(1) by (auto simp: inv_now_def intro: inv_slot)
    have ne: "p_queueNo (proc_at s j) \<noteq> 4"
      using assms(2) j True by (simp add: preempts_def Let_def)
    have "inv_now MLFQ now (upd_proc j ?f (go_idle s))"
      by (rule inv_stop) (use assms(1) True j r ne slot in \<open>auto simp: slot_ok_def\<close>)
    then have inv: "inv_now MLFQ now ?t" by (simp only: upd_comm)
    have q: "0 \<le> ?q" "?q < 5" using slot ne by (auto simp: slot_ok_def)
    then have push: "sound (push ?q j) ?t (\<lambda>_ u. inv_now MLFQ now u \<and> same_core ?t u) R"
      by (intro push_now[OF inv r(1)]) (use r in simp_all)
    let ?s' = "upd_proc j ?f s"
    let ?w = "if j \<in> queued ?s' then ?s' else enqueue (nat ?q) j ?s'"
    have ok: "mlfq_ok ?s'" "mlfq_ok ?t" using inv by (simp_all add: inv_now_def inv_at_def levels_ok_def)
    have run: "push ?q j ?s' = Ret () ?w" by (rule push_run[OF ok(1) r(1) q])
    have "enqueue (nat ?q) j ?t = go_idle (enqueue (nat ?q) j ?s')"
      by (simp add: enqueue_def upd_cpu_def upd_proc_def Let_def)
    then have "push ?q j ?t = Ret () (go_idle ?w)" using push_run[OF ok(2) r(1) q] by simp
    then have w: "inv_now MLFQ now (go_idle ?w)" using push by (simp add: sound_Ret)
    have c: "same_core ?s' ?w" by (simp add: enqueue_core)
    have "sound (sched MLFQ) ?w (\<lambda>_. inv_now MLFQ now) R"
    proof (rule sched_inv_keeps[OF w])
      show "c_proc (cpus ?w ! thiscpu ?w) = Some j" using same_core_rest[OF c] j by simp
      show "p_state (proc_at ?w j) \<noteq> RUNNING"
        using core_eqD(1)[OF same_core_nth[OF c, of j]] r by simp
    qed
    moreover have "yield MLFQ s = sched MLFQ ?w"
      using j r run by (simp add: yield_def curproc_def myproc_def kbind_def upd_proc_def)
    ultimately show ?thesis using True by (simp add: sound_def)
  qed
qed

end
