(* ===== verification/Xv6_Kstep.thy ===== *)
theory Xv6_Kstep
  imports Xv6_Invariant
begin

text \<open>
  The operations on the process table as a step relation of the machine: any CPU, any order, one
  critical section of \<^verbatim>\<open>ptable.lock\<close> per step. The invariant of the table holds in every reachable state.
\<close>

subsection \<open>Waking, killing, priorities\<close>

lemma wakeup1_inv:
  assumes "inv_now sc now s"
  shows "inv_now sc now (wakeup1 c s)"
proof -
  let ?t = "wakeup1 c s"
  have inv: "inv_at sc (\<lambda>_. now) s" and len: "length (ptable s) = 64"
    using assms by (simp_all add: inv_now_def inv_at_def)
  have nth: "proc_at ?t i = (if p_state (proc_at s i) = SLEEPING \<and> p_chan (proc_at s i) = c
      then (proc_at s i)\<lparr>p_state := RUNNABLE\<rparr> else proc_at s i)" if "i < 64" for i
    using that len by (simp add: wakeup1_def)
  have "proc_step s ?t" using nth len by (simp add: proc_step_def) (simp add: wakeup1_def)
  moreover have "slot_ok sc now (nextpid s) (proc_at ?t i)" if "i < 64" for i
    using inv_slot[OF inv that] by (auto simp: nth[OF that] slot_ok_def)
  ultimately have "inv_at sc (\<lambda>_. now) ?t" by (rule inv_proc_step[OF inv])
  then show ?thesis using assms by (simp add: inv_now_def wakeup1_def)
qed

lemma kill_inv: "inv_now sc now s \<Longrightarrow> sound (kill pid) s (\<lambda>_. inv_now sc now) R"
  by (auto simp: kill_def sound_def find_proc_Some NPROC_def split: option.splits if_splits
      intro!: inv_upd_same simp: slot_ok_def)

lemma set_priority_inv: "inv_now sc now s \<Longrightarrow> sound (set_priority pid pr) s (\<lambda>_. inv_now sc now) R"
  by (auto simp: set_priority_def sound_def find_proc_Some NPROC_def split: option.splits
      intro!: inv_upd_same simp: slot_ok_def)

subsection \<open>The clock\<close>

lemma sint_inc:
  assumes "0 \<le> sint (w :: uint)" and "sint w < 2147483647"
  shows "sint (w + 1) = sint w + 1"
proof -
  have "sint (w + 1) = signed_take_bit 31 (sint w + 1)" 
    using sint_word_ariths(1)[of w 1] by simp
  also have "\<dots> = sint w + 1"
    by (rule signed_take_bit_int_eq_self) (use assms in auto)
  finally show ?thesis .
qed

lemma sum_list_inc:
  "i < length xs \<Longrightarrow> sum_list (xs[i := xs ! i + 1]) = sum_list xs + (1 :: int)"
  by (induction xs arbitrary: i) (auto split: nat.split)

text \<open>Slots before \<open>k\<close> have had their tick.\<close>

abbreviation tick_at :: "int \<Rightarrow> nat \<Rightarrow> nat \<Rightarrow> int" where
  "tick_at now k \<equiv> \<lambda>i. if i < k then now + 1 else now"

lemma modify_times1_inv:
  assumes "inv_at sc (tick_at now k) s" and "k < 64"
  shows "sound (modify_times1 sc k) s (\<lambda>_ t. inv_at sc (tick_at now (Suc k)) t \<and> ticks t = ticks s) R"
proof -
  let ?p = "proc_at s k"
  have slot: "slot_ok sc now (nextpid s) ?p" using inv_slot[OF assms] by simp
  have upd: "inv_at sc (tick_at now (Suc k)) (upd_proc k f s)"
    if "slot_ok sc (now + 1) (nextpid s) (f ?p)" "p_pid (f ?p) = p_pid ?p"
      "p_state (f ?p) = RUNNING \<longleftrightarrow> p_state ?p = RUNNING" for f
    by (rule inv_upd_proc[OF assms]) (use that in auto)
  have len: "length (ptable s) = 64" using assms(1) by (simp add: inv_at_def)
  show ?thesis
  proof (cases "p_state ?p = RUNNING")
    case True
    then show ?thesis
    proof (cases "sc = MLFQ")
      case mlfq: True
      have q: "0 \<le> p_queueNo ?p" "p_queueNo ?p < 5" using slot mlfq by (auto simp: slot_ok_def)
      then have "nat (p_queueNo ?p) < length (p_ticks ?p)" using slot mlfq by (auto simp: slot_ok_def)
      then show ?thesis using True mlfq q slot
        by (auto simp: modify_times1_def sound_def slot_ok_def sum_list_inc intro!: upd[unfolded mlfq])
    next
      case False
      then show ?thesis using True slot
        by (auto simp: modify_times1_def sound_def slot_ok_def intro!: upd)
    qed
  next
    case False
    let ?age = "sc = MLFQ \<and> p_queueNo ?p \<noteq> 0 \<and> p_wait_time ?p + 1 > AGE"
    show ?thesis
    proof (cases ?age)
      case False
      then show ?thesis using \<open>p_state ?p \<noteq> RUNNING\<close> slot
        by (auto simp: modify_times1_def sound_def slot_ok_def Let_def intro!: upd)
    next
      case True
      let ?f = "\<lambda>p. p\<lparr>p_queueNo := p_queueNo p - 1, p_cur_time := 0, p_wait_time := 0\<rparr>"
      let ?t = "upd_proc k ?f (upd_proc k (\<lambda>p. p\<lparr>p_wait_time := p_wait_time p + 1\<rparr>) s)"
      have t: "?t = upd_proc k ?f s"
        using assms(2) len by (simp add: upd_proc_def)
      have q: "0 \<le> p_queueNo ?p - 1" "p_queueNo ?p - 1 < 5" using slot True by (auto simp: slot_ok_def)
      have inv: "inv_at MLFQ (tick_at now (Suc k)) ?t"
        unfolding t using upd[of ?f] slot True by (auto simp: slot_ok_def)
      have "p_state (proc_at ?t k) \<noteq> RUNNING"
        unfolding t using \<open>p_state ?p \<noteq> RUNNING\<close> assms(2) len by simp
      from push_inv[OF inv assms(2) q this, of R]
      have "sound (push (p_queueNo ?p - 1) k) ?t
          (\<lambda>_ t. inv_at sc (tick_at now (Suc k)) t \<and> ticks t = ticks s) R"
        by (rule sound_mono) (use True in \<open>auto simp: same_core_rest\<close>)
      then show ?thesis using True \<open>p_state ?p \<noteq> RUNNING\<close>
        by (simp add: modify_times1_def sound_def Let_def)
    qed
  qed
qed

lemma timer_tick_inv:
  assumes "inv_now sc now s" and "now < 2147483647"
  shows "sound (timer_tick sc) s (\<lambda>_. inv_now sc (now + 1)) R"
proof -
  let ?s = "s\<lparr>ticks := ticks s + 1\<rparr>"
  have tk: "sint (ticks ?s) = now + 1" using assms sint_inc[of "ticks s"] by (simp add: inv_now_def)
  have "inv_at sc (\<lambda>_. now) ?s"
  proof -
    have inv: "inv_at sc (\<lambda>_. now) s" using assms(1) by (simp add: inv_now_def)
    have "mlfq_ok ?s = mlfq_ok s" "queued ?s = queued s"
      using mlfq_ok_cong[of ?s s] queues_cong[of ?s s] by (simp_all add: queued_def)
    then show ?thesis using inv
      by (simp add: inv_at_def pids_distinct_def cpus_ok_def levels_ok_def)
  qed
  then have start: "inv_at sc (tick_at now 0) ?s \<and> ticks ?s = ticks s + 1" by simp
  have "sound (modify_times sc) ?s (\<lambda>_ t. inv_at sc (tick_at now NPROC) t \<and> ticks t = ticks s + 1) R"
    unfolding modify_times_def
    by (rule sound_kfor_upt[where I = "\<lambda>k t. inv_at sc (tick_at now k) t \<and> ticks t = ticks s + 1", OF start])
      (auto simp: NPROC_def intro: sound_mono[OF modify_times1_inv])
  then have "sound (modify_times sc) ?s (\<lambda>_ t. inv_now sc (now + 1) t) R"
  proof (rule sound_mono)
    fix t
    assume t: "inv_at sc (tick_at now NPROC) t \<and> ticks t = ticks s + 1"
    then have "inv_at sc (\<lambda>_. now + 1) t" by (auto simp: inv_at_def NPROC_def)
    then show "inv_now sc (now + 1) t" using t tk assms(1) by (simp add: inv_now_def)
  qed
  then show ?thesis
    by (auto simp: timer_tick_def sound_def kbind_def wakeup_def intro: wakeup1_inv split: outcome.splits)
qed

subsection \<open>Allocating and freeing a slot\<close>

text \<open>A slot gets a new pid, or the pid 0 of a free slot.\<close>

lemma inv_new_pid:
  assumes "inv_now sc now s" and "j < 64" and "nextpid s \<le> np"
    and "p_pid (f (proc_at s j)) = 0 \<or> nextpid s \<le> p_pid (f (proc_at s j))"
    and "p_state (f (proc_at s j)) = RUNNING \<longleftrightarrow> p_state (proc_at s j) = RUNNING"
    and "slot_ok sc now np (f (proc_at s j))"
  shows "inv_now sc now ((upd_proc j f s)\<lparr>nextpid := np\<rparr>)"
proof -
  let ?t = "(upd_proc j f s)\<lparr>nextpid := np\<rparr>"
  have inv: "inv_at sc (\<lambda>_. now) s" and len: "length (ptable s) = 64"
    using assms(1) by (simp_all add: inv_now_def inv_at_def)
  have nth: "proc_at ?t i = (if i = j then f (proc_at s j) else proc_at s i)" if "i < 64" for i
    using that len by (simp add: nth_list_update)
  have lt: "p_pid (proc_at s i) < nextpid s" if "i < 64" for i
    using inv_slot[OF inv that] by (simp add: slot_ok_def)
  have "slot_ok sc now np (proc_at ?t i)" if "i < 64" for i
    unfolding nth[OF that] using slot_ok_mono[OF inv_slot[OF inv that], of now np] assms(3,6) by simp
  moreover have "pids_distinct ?t"
  proof -
    have d: "pids_distinct s" using inv by (simp add: inv_at_def)
    show ?thesis
      unfolding pids_distinct_def
    proof (intro allI impI)
      fix a b :: nat
      assume ab: "a < 64" "b < 64" "p_pid (proc_at ?t a) = p_pid (proc_at ?t b)" "p_pid (proc_at ?t a) \<noteq> 0"
      then show "a = b"
        using d lt[OF ab(1)] lt[OF ab(2)] assms(4) unfolding nth[OF ab(1)] nth[OF ab(2)]
        by (auto simp: pids_distinct_def split: if_splits)
    qed
  qed
  moreover have "cpus_ok ?t"
  proof -
    have c: "cpus_ok s" using inv by (simp add: inv_at_def)
    then have "assigned (length (cpus s)) (\<lambda>c. c_proc (cpus ?t ! c)) (\<lambda>i. p_state (proc_at ?t i) = RUNNING)"
      unfolding cpus_ok_def
      by (elim conjE, elim assigned_cong) (use nth assms(5) in auto)
    then show ?thesis using c by (simp add: cpus_ok_def)
  qed
  moreover have "levels_ok ?t" if "sc = MLFQ"
  proof -
    have l: "levels_ok s" using inv that by (simp add: inv_at_def)
    have "mlfq_ok ?t = mlfq_ok s" "queued ?t = queued s"
      using mlfq_ok_cong[of ?t s] queues_cong[of ?t s] by (simp_all add: queued_def)
    then show ?thesis using l levels_bound[OF l] assms(5) nth by (simp add: levels_ok_def)
  qed
  ultimately show ?thesis using assms(1,3) len by (simp add: inv_now_def inv_at_def)
qed

lemma alloc_slot_inv:
  assumes "inv_now sc now s" and "i < 64" and "p_state (proc_at s i) = UNUSED"
  shows "sound (alloc_slot sc i) s (\<lambda>_. inv_now sc now) R"
proof -
  let ?f = "\<lambda>p. p\<lparr>p_state := EMBRYO, p_pid := nextpid s,
              p_start_time := sint (ticks s), p_end_time := 0, p_run_time := 0, p_wait_time := 0,
              p_priority := 60, p_queueNo := 0, p_cur_time := 0, p_num_run := 0,
              p_ticks := replicate 5 0\<rparr>"
  let ?t = "(upd_proc i ?f s)\<lparr>nextpid := nextpid s + 1\<rparr>"
  have np: "1 \<le> nextpid s" and len: "length (ptable s) = 64" and tk: "sint (ticks s) = now"
    using assms(1) by (simp_all add: inv_now_def inv_at_def)
  have inv: "inv_now sc now ?t"
    by (rule inv_new_pid[OF assms(1,2)]) (use assms(3) np tk in \<open>simp_all add: slot_ok_def sum_list_replicate\<close>)
  have st: "p_state (proc_at ?t i) \<noteq> RUNNING" using len assms(2) by simp
  have run: "alloc_slot sc i s = (if sc = MLFQ
       then case find (\<lambda>q. \<not> isFull q ?t) [0..<5] of None \<Rightarrow> Ret () ?t | Some q \<Rightarrow> push (int q) i ?t
       else Ret () ?t)"
    by (simp add: alloc_slot_def)
  show ?thesis
  proof (cases "sc = MLFQ")
    case True
    show ?thesis
    proof (cases "find (\<lambda>q. \<not> isFull q ?t) [0..<5]")
      case (Some q)
      then have "q < 5" by (simp add: find_upt_Some)
      then have "sound (push (int q) i) ?t (\<lambda>_. inv_now sc now) R"
        using push_now[of now ?t i "int q" R] inv True assms(2) st by (auto elim: sound_mono)
      then show ?thesis using run True Some by (simp add: sound_def)
    qed (use run True inv in \<open>simp add: sound_def\<close>)
  qed (use run inv in \<open>simp add: sound_def\<close>)
qed

lemma reap_inv:
  assumes "inv_now sc now s" and "i < 64" and "p_state (proc_at s i) = ZOMBIE"
  shows "sound (reap i) s (\<lambda>r t. inv_now sc now t \<and> r = p_pid (proc_at s i) \<and>
    p_run_time (proc_at t i) = p_run_time (proc_at s i) \<and> p_start_time (proc_at t i) = p_start_time (proc_at s i) \<and>
    p_end_time (proc_at t i) = p_end_time (proc_at s i)) (\<lambda>_ _. False)"
proof -
  let ?f = "\<lambda>p. p\<lparr>p_kstack := 0, p_pid := 0, p_parent := None,
              p_name := (p_name p)(0 := 0), p_killed := 0, p_state := UNUSED\<rparr>"
  let ?p = "proc_at s i"
  have free: "mem_sound (kbind (kfree (p_kstack ?p)) (\<lambda>_. freevm (p_pgdir ?p))) s"
    by (rule mem_sound_bind[OF kfree_mem_sound]) (rule freevm_sound)
  have len: "length (ptable s) = 64" using assms(1) by (simp add: inv_now_def inv_at_def)
  have rest: "inv_now sc now (upd_proc i ?f t)" "p_run_time (proc_at (upd_proc i ?f t) i) = p_run_time ?p"
      "p_start_time (proc_at (upd_proc i ?f t) i) = p_start_time ?p"
      "p_end_time (proc_at (upd_proc i ?f t) i) = p_end_time ?p" if "mem_frame s t" for t
  proof -
    have inv: "inv_now sc now t" and p: "ptable t = ptable s"
      using inv_mem_frame[OF assms(1) that] mem_frame_ptab[OF that] by simp_all
    have np: "1 \<le> nextpid t" using inv by (simp add: inv_now_def inv_at_def)
    have slot: "slot_ok sc now (nextpid t) (proc_at t i)"
      using inv assms(2) by (auto simp: inv_now_def intro: inv_slot)
    have "inv_now sc now ((upd_proc i ?f t)\<lparr>nextpid := nextpid t\<rparr>)"
      by (rule inv_new_pid[OF inv assms(2)]) (use slot np assms(3) p in \<open>auto simp: slot_ok_def\<close>)
    then show "inv_now sc now (upd_proc i ?f t)" by (simp add: upd_proc_def)
    show "p_run_time (proc_at (upd_proc i ?f t) i) = p_run_time ?p"
      "p_start_time (proc_at (upd_proc i ?f t) i) = p_start_time ?p"
      "p_end_time (proc_at (upd_proc i ?f t) i) = p_end_time ?p"
      using p len assms(2) by simp_all
  qed
  have "reap i s = kbind (kbind (kfree (p_kstack ?p)) (\<lambda>_. freevm (p_pgdir ?p)))
      (\<lambda>_ t. Ret (p_pid ?p) (upd_proc i ?f t)) s"
    by (simp add: reap_def kbind_assoc kbind_def split: outcome.splits)
  moreover have "sound (kbind (kbind (kfree (p_kstack ?p)) (\<lambda>_. freevm (p_pgdir ?p)))
      (\<lambda>_ t. Ret (p_pid ?p) (upd_proc i ?f t))) s (\<lambda>r t. inv_now sc now t \<and> r = p_pid ?p \<and>
    p_run_time (proc_at t i) = p_run_time ?p \<and> p_start_time (proc_at t i) = p_start_time ?p \<and>
    p_end_time (proc_at t i) = p_end_time ?p) (\<lambda>_ _. False)"
    by (rule sound_bind, rule sound_mono[OF free]) (use rest in \<open>auto simp: sound_def\<close>)
  ultimately show ?thesis by (simp add: sound_def)
qed

lemma curproc_run [simp]: "c_proc (cpus s ! thiscpu s) = Some c \<Longrightarrow> kbind curproc g s = g c s"
  by (simp add: curproc_def myproc_def kbind_def)

lemma wait_inv:
  assumes "inv_now sc now s" and "c_proc (cpus s ! thiscpu s) = Some c"
  shows "sound wait s (\<lambda>_. inv_now sc now) (\<lambda>_ t. t = s)"
proof (cases "find_proc (\<lambda>p. p_parent p = Some c \<and> p_state p = ZOMBIE) s")
  case None
  then show ?thesis using assms by (simp add: wait_def sound_def)
next
  case (Some i)
  then have i: "i < 64" "p_state (proc_at s i) = ZOMBIE" by (simp_all add: find_proc_Some NPROC_def)
  have "sound (reap i) s (\<lambda>_. inv_now sc now) (\<lambda>_ t. t = s)"
    by (rule sound_mono[OF reap_inv[OF assms(1) i]]) auto
  then show ?thesis using Some assms(2) by (simp add: wait_def sound_def)
qed

text \<open>\<^verbatim>\<open>waitx\<close> also reports times; they are the times of the child and not negative.\<close>

lemma waitx_inv:
  assumes "inv_now sc now s" and "c_proc (cpus s ! thiscpu s) = Some c"
  shows "sound waitx s (\<lambda>(pid, times) t. inv_now sc now t \<and>
      (case times of None \<Rightarrow> pid = - 1 | Some (wtime, rtime) \<Rightarrow> 0 \<le> wtime \<and> 0 \<le> rtime \<and>
        (\<exists>i<64. p_parent (proc_at s i) = Some c \<and> p_state (proc_at s i) = ZOMBIE \<and> pid = p_pid (proc_at s i) \<and>
           rtime = p_run_time (proc_at s i) \<and>
           wtime + rtime = p_end_time (proc_at s i) - p_start_time (proc_at s i)))) (\<lambda>_ t. t = s)"
proof (cases "find_proc (\<lambda>p. p_parent p = Some c \<and> p_state p = ZOMBIE) s")
  case None
  then show ?thesis using assms by (simp add: waitx_def sound_def)
next
  case (Some i)
  then have i: "i < 64" "p_parent (proc_at s i) = Some c" "p_state (proc_at s i) = ZOMBIE"
    by (simp_all add: find_proc_Some NPROC_def)
  have "slot_ok sc now (nextpid s) (proc_at s i)"
    using assms(1) i(1) by (auto simp: inv_now_def intro: inv_slot)
  then have tm: "0 \<le> p_run_time (proc_at s i)"
    "p_run_time (proc_at s i) \<le> p_end_time (proc_at s i) - p_start_time (proc_at s i)"
    using i(3) by (auto simp: slot_ok_def)
  have "waitx s = kbind (reap i) (\<lambda>pid t. Ret (pid, Some
      ((p_end_time (proc_at t i) - p_start_time (proc_at t i)) - p_run_time (proc_at t i), p_run_time (proc_at t i))) t) s"
    using Some assms(2) by (simp add: waitx_def) (simp add: kbind_def split: outcome.split)
  moreover note reap_inv[OF assms(1) i(1,3)]
  ultimately show ?thesis using tm i
    by (auto simp: sound_def kbind_def split: outcome.splits)
qed

subsection \<open>Exit\<close>

lemma wakeup1_keeps [simp]:
  "cpus (wakeup1 c s) = cpus s" "thiscpu (wakeup1 c s) = thiscpu s" "ticks (wakeup1 c s) = ticks s"
  by (simp_all add: wakeup1_def)

lemma reparent1_inv:
  assumes "inv_now sc now s" and "j < 64"
  shows "inv_now sc now (reparent1 p s j) \<and> cpus (reparent1 p s j) = cpus s \<and>
    thiscpu (reparent1 p s j) = thiscpu s"
proof -
  have "inv_now sc now (upd_proc j (\<lambda>pr. pr\<lparr>p_parent := initproc s\<rparr>) s)"
    by (rule inv_upd_same[OF assms]) (auto simp: slot_ok_def)
  then show ?thesis using assms(1) by (simp add: reparent1_def Let_def wakeup1_inv)
qed

lemma reparent_inv:
  assumes "inv_now sc now s" and "set js \<subseteq> {..<64}"
  shows "inv_now sc now (foldl (reparent1 p) s js) \<and> cpus (foldl (reparent1 p) s js) = cpus s \<and>
    thiscpu (foldl (reparent1 p) s js) = thiscpu s"
  using assms
proof (induction js arbitrary: s)
  case (Cons j js)
  then show ?case using reparent1_inv[of sc now s j p] Cons.IH[of "reparent1 p s j"] by simp
qed simp

lemma exit_locked_inv:
  assumes "inv_now sc now s" and "c_proc (cpus s ! thiscpu s) = Some p"
  shows "sound (exit_locked sc) s (\<lambda>_. inv_now sc now) R"
proof -
  let ?s1 = "wakeup1 (map_option Chan_proc (p_parent (proc_at s p))) s"
  let ?s2 = "foldl (reparent1 p) ?s1 [0..<NPROC]"
  let ?f = "\<lambda>pr. pr\<lparr>p_end_time := sint (ticks ?s2), p_state := ZOMBIE\<rparr>"
  have two: "inv_now sc now ?s2" "cpus ?s2 = cpus s" "thiscpu ?s2 = thiscpu s"
    using reparent_inv[OF wakeup1_inv[OF assms(1)], of "[0..<NPROC]"]
    by (simp_all add: NPROC_def atLeast0LessThan)
  have c: "c_proc (cpus ?s2 ! thiscpu ?s2) = Some p" using two assms(2) by simp
  have tk: "sint (ticks ?s2) = now" using two(1) by (simp add: inv_now_def)
  have "sound (sched sc) (upd_proc p ?f ?s2) (\<lambda>_. inv_now sc now) R"
    by (rule stop_sched[OF two(1) c]) (use current_running[OF two(1) c] tk in \<open>auto simp: slot_ok_def\<close>)
  moreover have "exit_locked sc s = sched sc (upd_proc p ?f ?s2)"
    using assms(2) by (simp add: exit_locked_def)
  ultimately show ?thesis by (simp add: sound_def)
qed

subsection \<open>The machine\<close>

text \<open>
  Fields of a slot that the rest of the kernel may change: neither the state, the pid, the times nor
  the queue.
\<close>

definition private_change :: "(proc \<Rightarrow> proc) \<Rightarrow> bool" where
  "private_change f \<longleftrightarrow> (\<forall>p. p_state (f p) = p_state p \<and> p_pid (f p) = p_pid p \<and>
     p_start_time (f p) = p_start_time p \<and> p_end_time (f p) = p_end_time p \<and>
     p_run_time (f p) = p_run_time p \<and> p_queueNo (f p) = p_queueNo p \<and> p_ticks (f p) = p_ticks p)"

inductive kstep :: "policy \<Rightarrow> 'z ptab_scheme \<Rightarrow> 'z ptab_scheme \<Rightarrow> bool" for sc where
  cpu: "c < length (cpus s) \<Longrightarrow> kstep sc s (s\<lparr>thiscpu := c\<rparr>)"
| pass: "idle s \<Longrightarrow> scheduler_pass sc s = Ret () t \<Longrightarrow> kstep sc s t"
| tick: "thiscpu s = 0 \<Longrightarrow> sint (ticks s) < 2147483647 \<Longrightarrow> timer_tick sc s = Ret () t \<Longrightarrow> kstep sc s t"
| preempt: "preempts sc timer s \<Longrightarrow> yield sc s = Ret () t \<Longrightarrow> kstep sc s t"
| sleeping: "sleep sc c s = Ret () t \<Longrightarrow> kstep sc s t"
| waking: "wakeup c s = Ret () t \<Longrightarrow> kstep sc s t"
| killing: "kill pid s = Ret r t \<Longrightarrow> kstep sc s t"
| priority: "set_priority pid pr s = Ret r t \<Longrightarrow> kstep sc s t"
| alloc: "find_proc (\<lambda>p. p_state p = UNUSED) s = Some i \<Longrightarrow> alloc_slot sc i s = Ret () t \<Longrightarrow> kstep sc s t"
| unalloc: "i < NPROC \<Longrightarrow> p_state (proc_at s i) = EMBRYO \<Longrightarrow>
    kstep sc s (upd_proc i (\<lambda>p. p\<lparr>p_state := UNUSED\<rparr>) s)"
| start: "i < NPROC \<Longrightarrow> p_state (proc_at s i) = EMBRYO \<Longrightarrow>
    kstep sc s (upd_proc i (\<lambda>p. p\<lparr>p_state := RUNNABLE\<rparr>) s)"
| exiting: "exit_locked sc s = Ret () t \<Longrightarrow> kstep sc s t"
| waiting: "wait s = Ret r t \<Longrightarrow> kstep sc s t"
| waitingx: "waitx s = Ret r t \<Longrightarrow> kstep sc s t"
| internal: "i < NPROC \<Longrightarrow> private_change f \<Longrightarrow> kstep sc s (upd_proc i f s)"
| memory: "mem_frame s t \<Longrightarrow> kstep sc s t"

inductive reachable :: "policy \<Rightarrow> ptab \<Rightarrow> bool" for sc where
  boot: "0 < ncpu \<Longrightarrow> ncpu \<le> 8 \<Longrightarrow> reachable sc (queues_init (zero_ptab ncpu))"
| step: "reachable sc s \<Longrightarrow> kstep sc s t \<Longrightarrow> reachable sc t"

lemma boot_inv: "0 < ncpu \<Longrightarrow> sched_inv sc (queues_init (zero_ptab ncpu))"
proof -
  assume n: "0 < ncpu"
  let ?s = "queues_init (zero_ptab ncpu)"
  have rings: "rings_ok ?s"
    by (simp add: rings_ok_def ring_ok_def queues_init_def zero_ptab_def NPROC_def)
  have "q_contents i ?s = []" if "i < 5" for i
    using that by (simp add: q_contents_def ring_contents_def queues_init_def)
  then have q: "concat (queues ?s) = []" by (simp add: queues_def)
  have "levels_ok ?s" using rings by (simp add: levels_ok_def mlfq_ok_def queued_def q)
  moreover have p: "proc_at ?s i = zero_proc" if "i < 64" for i
    using that by (simp add: queues_init_def zero_ptab_def NPROC_def)
  moreover have "slot_ok sc 0 1 zero_proc"
    by (simp add: slot_ok_def zero_proc_def sum_list_replicate)
  moreover have "cpus_ok ?s"
    using n p by (simp add: cpus_ok_def assigned_def queues_init_def zero_ptab_def zero_proc_def NPROC_def)
  ultimately show ?thesis
    by (simp add: sched_inv_def inv_now_def inv_at_def pids_distinct_def zero_proc_def queues_init_def
        zero_ptab_def NPROC_def)
qed

lemma inv_now_sched: "inv_now sc k t \<Longrightarrow> sched_inv sc t"
  by (simp add: sched_inv_def inv_now_def)

lemma sound_sched: "sound f s (\<lambda>_. inv_now sc k) R \<Longrightarrow> f s = Ret x t \<Longrightarrow> sched_inv sc t"
  using inv_now_sched by (fastforce dest: sound_RetD)

lemma current_of_Ret:
  assumes "kbind curproc g s = Ret x t"
  obtains c where "c_proc (cpus s ! thiscpu s) = Some c"
  using assms by (cases "c_proc (cpus s ! thiscpu s)") (auto simp: curproc_def myproc_def kbind_def)

lemma kstep_inv: "kstep sc s t \<Longrightarrow> sched_inv sc s \<Longrightarrow> sched_inv sc t"
proof (induction rule: kstep.induct)
  case (cpu c s)
  let ?t = "s\<lparr>thiscpu := c\<rparr>"
  have "mlfq_ok ?t = mlfq_ok s" "queued ?t = queued s"
    using mlfq_ok_cong[of ?t s] queues_cong[of ?t s] by (simp_all add: queued_def)
  then show ?case using cpu
    by (simp add: sched_inv_def inv_now_def inv_at_def pids_distinct_def cpus_ok_def levels_ok_def)
next
  case (pass s t)
  then show ?case using sound_sched[OF scheduler_pass_inv] unfolding sched_inv_def by blast
next
  case (tick s t)
  then show ?case using sound_sched[OF timer_tick_inv] unfolding sched_inv_def by blast
next
  case (preempt timer s t)
  then show ?case using sound_sched[OF yield_inv] unfolding sched_inv_def by blast
next
  case (sleeping c s t)
  then show ?case using sound_sched[OF sleep_inv] unfolding sched_inv_def by blast
next
  case (waking c s t)
  then have "inv_now sc (sint (ticks s)) (wakeup1 (Some c) s)" by (auto simp: sched_inv_def intro: wakeup1_inv)
  then show ?case using waking by (auto simp: wakeup_def intro: inv_now_sched)
next
  case (killing pid s r t)
  then show ?case using sound_sched[OF kill_inv] unfolding sched_inv_def by blast
next
  case (priority pid pr s r t)
  then show ?case using sound_sched[OF set_priority_inv] unfolding sched_inv_def by blast
next
  case (alloc s i t)
  then have "i < 64" "p_state (proc_at s i) = UNUSED" by (simp_all add: find_proc_Some NPROC_def)
  then show ?case using alloc sound_sched[OF alloc_slot_inv] unfolding sched_inv_def by blast
next
  case (unalloc i s)
  then have "inv_now sc (sint (ticks s)) (upd_proc i (\<lambda>p. p\<lparr>p_state := UNUSED\<rparr>) s)"
    by (intro inv_upd_same) (auto simp: sched_inv_def slot_ok_def NPROC_def)
  then show ?case by (rule inv_now_sched)
next
  case (start i s)
  then have "inv_now sc (sint (ticks s)) (upd_proc i (\<lambda>p. p\<lparr>p_state := RUNNABLE\<rparr>) s)"
    by (intro inv_upd_same) (auto simp: sched_inv_def slot_ok_def NPROC_def)
  then show ?case by (rule inv_now_sched)
next
  case (exiting s t)
  then obtain p where "c_proc (cpus s ! thiscpu s) = Some p" unfolding exit_locked_def by (elim current_of_Ret)
  then show ?case using exiting sound_sched[OF exit_locked_inv] unfolding sched_inv_def by blast
next
  case (waiting s r t)
  then obtain p where "c_proc (cpus s ! thiscpu s) = Some p" unfolding wait_def by (elim current_of_Ret)
  then show ?case using waiting sound_sched[OF wait_inv] unfolding sched_inv_def by blast
next
  case (waitingx s r t)
  then obtain p where "c_proc (cpus s ! thiscpu s) = Some p" unfolding waitx_def by (elim current_of_Ret)
  from waitx_inv[OF waitingx(2)[unfolded sched_inv_def] this] waitingx(1)
  have "inv_now sc (sint (ticks s)) t" by (simp add: sound_Ret split: prod.splits)
  then show ?case by (rule inv_now_sched)
next
  case (internal i f s)
  then have "inv_now sc (sint (ticks s)) (upd_proc i f s)"
    by (intro inv_upd_same) (auto simp: sched_inv_def slot_ok_def NPROC_def private_change_def)
  then show ?case by (rule inv_now_sched)
next
  case (memory s t)
  then have "inv_now sc (sint (ticks s)) t" by (auto simp: sched_inv_def intro: inv_mem_frame)
  then show ?case by (rule inv_now_sched)
qed

lemma reachable_inv: "reachable sc s \<Longrightarrow> sched_inv sc s"
  by (induction rule: reachable.induct) (auto intro: boot_inv kstep_inv)

subsection \<open>A reachable state with a running process\<close>

definition example_state :: ptab where
  "example_state =
     (let s1 = (upd_proc 0 (\<lambda>p. p\<lparr>p_state := EMBRYO, p_pid := 1, p_start_time := 0, p_end_time := 0,
              p_run_time := 0, p_wait_time := 0, p_priority := 60, p_queueNo := 0, p_cur_time := 0,
              p_num_run := 0, p_ticks := replicate 5 0\<rparr>) (queues_init (zero_ptab 2)))\<lparr>nextpid := 2\<rparr>;
          s2 = upd_proc 0 (\<lambda>p. p\<lparr>p_kstack := 0x80400000, p_pgdir := 0x80401000\<rparr>) s1
      in upd_proc 0 (\<lambda>p. p\<lparr>p_state := RUNNABLE\<rparr>) s2)"

lemma find_upt_0: "P 0 \<Longrightarrow> 0 < n \<Longrightarrow> find P [0..<n] = Some 0"
  by (simp add: find_upt_Some)

lemma example_reachable: "reachable ROUND_ROBIN example_state"
proof -
  let ?s0 = "queues_init (zero_ptab 2)"
  let ?s1 = "(upd_proc 0 (\<lambda>p. p\<lparr>p_state := EMBRYO, p_pid := 1, p_start_time := 0, p_end_time := 0,
              p_run_time := 0, p_wait_time := 0, p_priority := 60, p_queueNo := 0, p_cur_time := 0,
              p_num_run := 0, p_ticks := replicate 5 0\<rparr>) ?s0)\<lparr>nextpid := 2\<rparr>"
  let ?s2 = "upd_proc 0 (\<lambda>p. p\<lparr>p_kstack := 0x80400000, p_pgdir := 0x80401000\<rparr>) ?s1"
  have r0: "reachable ROUND_ROBIN ?s0" by (rule reachable.boot) simp_all
  have "find_proc (\<lambda>p. p_state p = UNUSED) ?s0 = Some 0"
    unfolding find_proc_def by (rule find_upt_0) (simp_all add: queues_init_def zero_ptab_def zero_proc_def NPROC_def)
  moreover have "alloc_slot ROUND_ROBIN 0 ?s0 = Ret () ?s1"
    by (simp add: alloc_slot_def) (simp add: queues_init_def zero_ptab_def upd_proc_def)
  ultimately have "kstep ROUND_ROBIN ?s0 ?s1" by (rule kstep.alloc)
  with r0 have r1: "reachable ROUND_ROBIN ?s1" by (rule reachable.step)
  have "kstep ROUND_ROBIN ?s1 ?s2"
    by (rule kstep.internal) (simp_all add: NPROC_def private_change_def)
  with r1 have r2: "reachable ROUND_ROBIN ?s2" by (rule reachable.step)
  have "kstep ROUND_ROBIN ?s2 (upd_proc 0 (\<lambda>p. p\<lparr>p_state := RUNNABLE\<rparr>) ?s2)"
    by (rule kstep.start) (simp_all add: NPROC_def queues_init_def zero_ptab_def)
  with r2 have "reachable ROUND_ROBIN (upd_proc 0 (\<lambda>p. p\<lparr>p_state := RUNNABLE\<rparr>) ?s2)" by (rule reachable.step)
  then show ?thesis by (simp add: example_state_def Let_def)
qed

lemma example_running:
  "\<exists>s. reachable ROUND_ROBIN s \<and> thiscpu s = 0 \<and> length (cpus s) = 2 \<and> c_proc (cpus s ! 0) = Some 0"
proof -
  let ?t = "upd_proc 0 (\<lambda>p. p\<lparr>p_state := RUNNING\<rparr>) (upd_cpu (\<lambda>c. c\<lparr>c_esp0 := 0x80401000, c_cr3 := 0x401000\<rparr>)
    (upd_cpu (\<lambda>c. c\<lparr>c_proc := Some 0\<rparr>) example_state))"
  have c: "thiscpu example_state = 0" "length (cpus example_state) = 2" "idle example_state"
    by (simp_all add: example_state_def Let_def idle_def queues_init_def zero_ptab_def)
  have p: "runnable example_state 0" "p_kstack (proc_at example_state 0) = 0x80400000"
    "p_pgdir (proc_at example_state 0) = 0x80401000"
    by (simp_all add: example_state_def Let_def queues_init_def zero_ptab_def NPROC_def)
  have "find (runnable example_state) [0..<NPROC] = Some 0"
    by (rule find_upt_0) (use p in \<open>simp_all add: NPROC_def\<close>)
  then have "scheduler_pass ROUND_ROBIN example_state = Ret () ?t"
    using p by (simp add: scheduler_pass_def scheduler_rr_def dispatch_def switchuvm_def kbind_def
        KSTACKSIZE_def V2P_def KERNBASE_def)
  then have "kstep ROUND_ROBIN example_state ?t" using c(3) by (intro kstep.pass)
  with example_reachable have "reachable ROUND_ROBIN ?t" by (rule reachable.step)
  then show ?thesis using c by (intro exI[of _ ?t]) simp
qed

subsection \<open>Properties\<close>

text \<open>
  C1. In every reachable state, with every scheduler, a process runs on at most one CPU, and the process
  a CPU runs is in the state \<^verbatim>\<open>RUNNING\<close>.
\<close>

theorem runs_on_one_cpu:
  assumes "reachable sc s" and "c < length (cpus s)" and "d < length (cpus s)"
    and "c_proc (cpus s ! c) = Some i" and "c_proc (cpus s ! d) = Some i"
  shows "c = d \<and> i < NPROC \<and> p_state (proc_at s i) = RUNNING"
  using reachable_inv[OF assms(1)] assms(2-5)
  by (auto simp: sched_inv_def inv_now_def inv_at_def cpus_ok_def assigned_def NPROC_def)

theorem runs_on_one_cpu_witness:
  "\<exists>s. reachable ROUND_ROBIN s \<and> c_proc (cpus s ! 0) = Some 0 \<and> p_state (proc_at s 0) = RUNNING"
proof -
  obtain s where s: "reachable ROUND_ROBIN s" "length (cpus s) = 2" "c_proc (cpus s ! 0) = Some 0"
    using example_running by blast
  have "p_state (proc_at s 0) = RUNNING"
    using runs_on_one_cpu[of ROUND_ROBIN s 0 0 0] s by simp
  then show ?thesis using s by blast
qed



text \<open>
  C3. With the feedback scheduler, in every reachable state every process has a queue number between 0
  and 4, and the ticks it received in the five queues add up to the time it has run.
\<close>

theorem mlfq_ticks_add_up:
  assumes "reachable MLFQ s" and "i < NPROC"
  shows "0 \<le> p_queueNo (proc_at s i) \<and> p_queueNo (proc_at s i) \<le> 4 \<and>
    sum_list (p_ticks (proc_at s i)) = p_run_time (proc_at s i)"
  using reachable_inv[OF assms(1)] assms(2)
  by (auto simp: sched_inv_def inv_now_def inv_at_def slot_ok_def NPROC_def)

theorem mlfq_ticks_add_up_witness:
  "reachable MLFQ (queues_init (zero_ptab 1)) \<and> (0::nat) < NPROC \<and>
   sum_list (p_ticks (proc_at (queues_init (zero_ptab 1)) 0)) = p_run_time (proc_at (queues_init (zero_ptab 1)) 0)"
proof -
  have "reachable MLFQ (queues_init (zero_ptab 1))" by (rule reachable.boot) simp_all
  then show ?thesis using mlfq_ticks_add_up[of "queues_init (zero_ptab 1)" 0] by (simp add: NPROC_def)
qed

text \<open>
  C4. Pids are never given to two processes: in every reachable state two slots with the same nonzero pid
  are the same slot, a slot in use has a nonzero pid, and every pid is below the next one to be given.
\<close>

theorem pids_unique:
  assumes "reachable sc s" and "i < NPROC" and "j < NPROC"
  shows "p_pid (proc_at s i) < nextpid s \<and> (p_pid (proc_at s i) = 0 \<longrightarrow> p_state (proc_at s i) = UNUSED) \<and>
    (p_pid (proc_at s i) = p_pid (proc_at s j) \<longrightarrow> p_pid (proc_at s i) = 0 \<or> i = j)"
  using reachable_inv[OF assms(1)] assms(2,3)
  by (auto simp: sched_inv_def inv_now_def inv_at_def slot_ok_def pids_distinct_def NPROC_def)

theorem pids_unique_witness:
  "reachable ROUND_ROBIN example_state \<and> p_pid (proc_at example_state 0) = 1 \<and> p_pid (proc_at example_state 1) \<noteq> 1"
proof -
  have "p_pid (proc_at example_state 0) = 1"
    by (simp add: example_state_def Let_def queues_init_def zero_ptab_def NPROC_def)
  then show ?thesis
    using example_reachable pids_unique[of ROUND_ROBIN example_state 0 1] by (auto simp: NPROC_def)
qed

text \<open>
  C5. In every reachable state an idle CPU can run its scheduler: it does not index a queue out of its
  bounds, pop an empty queue or use a null process (it may panic in \<^verbatim>\<open>switchuvm\<close>), and it leaves a
  state in which the invariants of the table hold.
\<close>

theorem scheduler_sound:
  assumes "reachable sc s" and "idle s"
  shows "sound (scheduler_pass sc) s (\<lambda>_ t. sched_inv sc t) (\<lambda>_ _. False)"
  using scheduler_pass_inv[OF reachable_inv[OF assms(1), unfolded sched_inv_def] assms(2)]
  by (rule sound_mono) (auto intro: inv_now_sched)

theorem scheduler_sound_witness:
  "sound (scheduler_pass MLFQ) (queues_init (zero_ptab 1)) (\<lambda>_ t. sched_inv MLFQ t) (\<lambda>_ _. False)"
proof (rule scheduler_sound)
  show "reachable MLFQ (queues_init (zero_ptab 1))" by (rule reachable.boot) simp_all
  show "idle (queues_init (zero_ptab 1))" by (simp add: idle_def queues_init_def zero_ptab_def)
qed

end
