(* ===== verification/Xv6_Bio.thy ===== *)
theory Xv6_Bio
  imports Xv6_Sched
begin

text \<open>
  Sleep locks (\<^verbatim>\<open>sleeplock.c\<close>), the memory disk (\<^verbatim>\<open>memide.c\<close>) and the buffer cache (\<^verbatim>\<open>bio.c\<close>). A buffer is
  its index in \<^verbatim>\<open>bcache.buf\<close>; the circular list through \<^verbatim>\<open>prev\<close> and \<^verbatim>\<open>next\<close> is the list of the buffers in
  the order of \<^verbatim>\<open>next\<close> from \<^verbatim>\<open>head\<close>, most recently used first. A disk block is a list of \<^verbatim>\<open>BSIZE\<close> bytes. The
  state also records the blocks written to the disk, in order: a crash leaves some of them on it.

  An operation that waits for a sleep lock has the outcome \<open>Sleep\<close> with the state in which it waits.
\<close>

definition BSIZE :: nat where "BSIZE = 512"

subsection \<open>Little-endian values in a block\<close>

definition get32 :: "uchar list \<Rightarrow> nat \<Rightarrow> uint" where
  "get32 d i = word_of_bytes (d ! i) (d ! (i + 1)) (d ! (i + 2)) (d ! (i + 3))"

definition put_bytes :: "uchar list \<Rightarrow> nat \<Rightarrow> uchar list \<Rightarrow> uchar list" where
  "put_bytes d i bs = take i d @ bs @ drop (i + length bs) d"

definition bytes32 :: "uint \<Rightarrow> uchar list" where
  "bytes32 w = [byte_of 0 w, byte_of 1 w, byte_of 2 w, byte_of 3 w]"

definition put32 :: "uchar list \<Rightarrow> nat \<Rightarrow> uint \<Rightarrow> uchar list" where
  "put32 d i w = put_bytes d i (bytes32 w)"

definition get16 :: "uchar list \<Rightarrow> nat \<Rightarrow> ushort" where
  "get16 d i = ucast (d ! i) OR push_bit 8 (ucast (d ! (i + 1)))"

definition bytes16 :: "ushort \<Rightarrow> uchar list" where
  "bytes16 w = [ucast w, ucast (drop_bit 8 w)]"

definition put16 :: "uchar list \<Rightarrow> nat \<Rightarrow> ushort \<Rightarrow> uchar list" where
  "put16 d i w = put_bytes d i (bytes16 w)"

lemma put_bytes_length [simp]: "i + length bs \<le> length d \<Longrightarrow> length (put_bytes d i bs) = length d"
  by (simp add: put_bytes_def)

lemma put_bytes_nth:
  assumes "i + length bs \<le> length d" and "k < length d"
  shows "put_bytes d i bs ! k = (if i \<le> k \<and> k < i + length bs then bs ! (k - i) else d ! k)"
  using assms by (auto simp: put_bytes_def nth_append min_def)

lemma put32_length [simp]: "i + 4 \<le> length d \<Longrightarrow> length (put32 d i w) = length d"
  by (simp add: put32_def bytes32_def)

lemma put16_length [simp]: "i + 2 \<le> length d \<Longrightarrow> length (put16 d i w) = length d"
  by (simp add: put16_def bytes16_def)

subsection \<open>Sleep locks\<close>

record sleeplock =
  sl_locked :: bool
  sl_pid :: int

definition initsleeplock :: sleeplock where
  "initsleeplock = \<lparr>sl_locked = False, sl_pid = 0\<rparr>"

text \<open>The lock is given by its channel and by how to read and to change it in the state.\<close>

definition acquiresleep ::
  "chan \<Rightarrow> ('z ptab_scheme \<Rightarrow> sleeplock) \<Rightarrow> ((sleeplock \<Rightarrow> sleeplock) \<Rightarrow> 'z ptab_scheme \<Rightarrow> 'z ptab_scheme) \<Rightarrow>
   (unit, 'z ptab_scheme) kernel" where
  "acquiresleep c lk upd s =
     (if sl_locked (lk s) then Sleep c s
      else kbind curproc (\<lambda>p. kmod (\<lambda>s. upd (\<lambda>_. \<lparr>sl_locked = True, sl_pid = p_pid (proc_at s p)\<rparr>) s)) s)"

definition releasesleep ::
  "chan \<Rightarrow> ((sleeplock \<Rightarrow> sleeplock) \<Rightarrow> 'z ptab_scheme \<Rightarrow> 'z ptab_scheme) \<Rightarrow> (unit, 'z ptab_scheme) kernel" where
  "releasesleep c upd =
     kbind (kmod (upd (\<lambda>_. \<lparr>sl_locked = False, sl_pid = 0\<rparr>))) (\<lambda>_. wakeup c)"

definition holdingsleep :: "('z ptab_scheme \<Rightarrow> sleeplock) \<Rightarrow> (bool, 'z ptab_scheme) kernel" where
  "holdingsleep lk =
     kbind curproc (\<lambda>p. kget (\<lambda>s. sl_locked (lk s) \<and> sl_pid (lk s) = p_pid (proc_at s p)))"

subsection \<open>Buffers and the disk\<close>

record buf =
  b_valid :: bool
  b_dirty :: bool
  b_dev :: uint
  b_blockno :: uint
  b_lock :: sleeplock
  b_refcnt :: uint
  b_data :: "uchar list"

record bstate = ptab +
  bufs :: "buf list"
  lru :: "nat list"
  disk :: "uint \<Rightarrow> uchar list"
  disksize :: uint
  dwrites :: "(uint \<times> uchar list) list"

abbreviation buf_at :: "'z bstate_scheme \<Rightarrow> nat \<Rightarrow> buf" where
  "buf_at s i \<equiv> bufs s ! i"

definition upd_buf :: "nat \<Rightarrow> (buf \<Rightarrow> buf) \<Rightarrow> 'z bstate_scheme \<Rightarrow> 'z bstate_scheme" where
  "upd_buf i f s = s\<lparr>bufs := (bufs s)[i := f (bufs s ! i)]\<rparr>"

definition upd_blk :: "nat \<Rightarrow> (sleeplock \<Rightarrow> sleeplock) \<Rightarrow> 'z bstate_scheme \<Rightarrow> 'z bstate_scheme" where
  "upd_blk i g = upd_buf i (\<lambda>b. b\<lparr>b_lock := g (b_lock b)\<rparr>)"

definition holding_buf :: "nat \<Rightarrow> (bool, 'z bstate_scheme) kernel" where
  "holding_buf i = holdingsleep (\<lambda>s. b_lock (buf_at s i))"

definition iderw :: "nat \<Rightarrow> (unit, 'z bstate_scheme) kernel" where
  "iderw i =
     kbind (holding_buf i) (\<lambda>h.
     if \<not> h then kpanic ''iderw: buf not locked''
     else kbind (kget (\<lambda>s. buf_at s i)) (\<lambda>b.
     if b_valid b \<and> \<not> b_dirty b then kpanic ''iderw: nothing to do''
     else if b_dev b \<noteq> 1 then kpanic ''iderw: request not for disk 1''
     else kbind (kget disksize) (\<lambda>n.
     if n \<le> b_blockno b then kpanic ''iderw: block out of range''
     else if b_dirty b
     then kmod (\<lambda>s. upd_buf i (\<lambda>b. b\<lparr>b_dirty := False, b_valid := True\<rparr>)
            (s\<lparr>disk := (disk s)(b_blockno b := b_data b), dwrites := dwrites s @ [(b_blockno b, b_data b)]\<rparr>))
     else kmod (\<lambda>s. upd_buf i (\<lambda>b. b\<lparr>b_data := disk s (b_blockno b), b_valid := True\<rparr>) s))))"

definition binit :: "'z bstate_scheme \<Rightarrow> 'z bstate_scheme" where
  "binit s = s\<lparr>bufs := map (\<lambda>b. b\<lparr>b_lock := initsleeplock\<rparr>) (bufs s),
               lru := foldl (\<lambda>l b. b # l) [] [0..<NBUF]\<rparr>"

definition bget :: "uint \<Rightarrow> uint \<Rightarrow> (nat, 'z bstate_scheme) kernel" where
  "bget dev blockno s =
     (case find (\<lambda>i. b_dev (buf_at s i) = dev \<and> b_blockno (buf_at s i) = blockno) (lru s) of
        Some i \<Rightarrow>
          kbind (kmod (upd_buf i (\<lambda>b. b\<lparr>b_refcnt := b_refcnt b + 1\<rparr>))) (\<lambda>_.
          kbind (acquiresleep (Chan_buflock i) (\<lambda>s. b_lock (buf_at s i)) (upd_blk i)) (\<lambda>_.
          kret i)) s
      | None \<Rightarrow>
          (case find (\<lambda>i. b_refcnt (buf_at s i) = 0 \<and> \<not> b_dirty (buf_at s i)) (rev (lru s)) of
             Some i \<Rightarrow>
               kbind (kmod (upd_buf i (\<lambda>b. b\<lparr>b_dev := dev, b_blockno := blockno, b_valid := False,
                        b_dirty := False, b_refcnt := 1\<rparr>))) (\<lambda>_.
               kbind (acquiresleep (Chan_buflock i) (\<lambda>s. b_lock (buf_at s i)) (upd_blk i)) (\<lambda>_.
               kret i)) s
           | None \<Rightarrow> Fault (Panic ''bget: no buffers'')))"

definition bread :: "uint \<Rightarrow> uint \<Rightarrow> (nat, 'z bstate_scheme) kernel" where
  "bread dev blockno =
     kbind (bget dev blockno) (\<lambda>i.
     kbind (kget (\<lambda>s. b_valid (buf_at s i))) (\<lambda>v.
     if \<not> v then kbind (iderw i) (\<lambda>_. kret i) else kret i))"

definition bwrite :: "nat \<Rightarrow> (unit, 'z bstate_scheme) kernel" where
  "bwrite i =
     kbind (holding_buf i) (\<lambda>h.
     if \<not> h then kpanic ''bwrite''
     else kbind (kmod (upd_buf i (\<lambda>b. b\<lparr>b_dirty := True\<rparr>))) (\<lambda>_. iderw i))"

definition brelse :: "nat \<Rightarrow> (unit, 'z bstate_scheme) kernel" where
  "brelse i =
     kbind (holding_buf i) (\<lambda>h.
     if \<not> h then kpanic ''brelse''
     else kbind (releasesleep (Chan_buflock i) (upd_blk i)) (\<lambda>_.
          kbind (kmod (upd_buf i (\<lambda>b. b\<lparr>b_refcnt := b_refcnt b - 1\<rparr>))) (\<lambda>_ s.
          if b_refcnt (buf_at s i) = 0
          then Ret () (s\<lparr>lru := i # remove1 i (lru s)\<rparr>)
          else Ret () s)))"

text \<open>Access to the data of a buffer: \<^verbatim>\<open>b->data\<close>.\<close>

definition buf_data :: "nat \<Rightarrow> (uchar list, 'z bstate_scheme) kernel" where
  "buf_data i = kget (\<lambda>s. b_data (buf_at s i))"

definition set_data :: "nat \<Rightarrow> (uchar list \<Rightarrow> uchar list) \<Rightarrow> (unit, 'z bstate_scheme) kernel" where
  "set_data i f = kmod (upd_buf i (\<lambda>b. b\<lparr>b_data := f (b_data b)\<rparr>))"

end
