(* ===== verification/Xv6_Log.thy ===== *)
theory Xv6_Log
  imports Xv6_Bio
begin

text \<open>
  The write-ahead log, \<^verbatim>\<open>log.c\<close>, and the superblock. The in-memory header \<^verbatim>\<open>log.lh\<close> is a count and an array
  of \<^verbatim>\<open>LOGSIZE\<close> block numbers; on disk it is the block \<^verbatim>\<open>log.start\<close>, the logged blocks follow it.
\<close>

subsection \<open>State\<close>

record superblock =
  sb_size :: uint
  sb_nblocks :: uint
  sb_ninodes :: uint
  sb_nlog :: uint
  sb_logstart :: uint
  sb_inodestart :: uint
  sb_bmapstart :: uint

record lstate = bstate +
  lg_start :: int
  lg_size :: int
  lg_outstanding :: int
  lg_committing :: bool
  lg_dev :: uint
  lg_n :: int
  lg_block :: "int list"

subsection \<open>Operations\<close>

definition sb_of :: "uchar list \<Rightarrow> superblock" where
  "sb_of d = \<lparr>sb_size = get32 d 0, sb_nblocks = get32 d 4, sb_ninodes = get32 d 8, sb_nlog = get32 d 12,
     sb_logstart = get32 d 16, sb_inodestart = get32 d 20, sb_bmapstart = get32 d 24\<rparr>"

definition readsb :: "uint \<Rightarrow> (superblock, 'z bstate_scheme) kernel" where
  "readsb dev =
     kbind (bread dev 1) (\<lambda>bp.
     kbind (buf_data bp) (\<lambda>d.
     kbind (brelse bp) (\<lambda>_.
     kret (sb_of d))))"

text \<open>The addresses of the logged block and of the home of the block at position \<open>tail\<close>.\<close>

definition log_block :: "int \<Rightarrow> nat \<Rightarrow> uint" where
  "log_block start tail = word_of_int (start + int tail + 1)"

definition install_trans1 :: "nat \<Rightarrow> (unit, 'z lstate_scheme) kernel" where
  "install_trans1 tail =
     kbind (kget (\<lambda>s. (lg_dev s, lg_start s, lg_block s ! tail))) (\<lambda>(dev, start, home).
     kbind (bread dev (log_block start tail)) (\<lambda>lbuf.
     kbind (bread dev (word_of_int home)) (\<lambda>dbuf.
     kbind (buf_data lbuf) (\<lambda>d.
     kbind (set_data dbuf (\<lambda>_. d)) (\<lambda>_.
     kbind (bwrite dbuf) (\<lambda>_.
     kbind (brelse lbuf) (\<lambda>_.
     brelse dbuf)))))))"

definition install_trans :: "(unit, 'z lstate_scheme) kernel" where
  "install_trans = kbind (kget lg_n) (\<lambda>n. kfor [0..<nat n] install_trans1)"

definition read_head :: "(unit, 'z lstate_scheme) kernel" where
  "read_head =
     kbind (kget (\<lambda>s. (lg_dev s, lg_start s))) (\<lambda>(dev, start).
     kbind (bread dev (word_of_int start)) (\<lambda>b.
     kbind (buf_data b) (\<lambda>d.
     kbind (kmod (\<lambda>s. s\<lparr>lg_n := sint (get32 d 0)\<rparr>)) (\<lambda>_.
     if sint (get32 d 0) > int LOGSIZE then kundef ''read_head: block index''
     else kbind (kmod (\<lambda>s. s\<lparr>lg_block := map (\<lambda>i. sint (get32 d (4 + 4 * i))) [0..<nat (sint (get32 d 0))] @
                    drop (nat (sint (get32 d 0))) (lg_block s)\<rparr>)) (\<lambda>_.
          brelse b)))))"

text \<open>The header as a block: the count and the block numbers over what the block had before.\<close>

definition head_data :: "int \<Rightarrow> int list \<Rightarrow> uchar list \<Rightarrow> uchar list" where
  "head_data n bs d =
     foldl (\<lambda>d i. put32 d (4 + 4 * i) (word_of_int (bs ! i))) (put32 d 0 (word_of_int n)) [0..<nat n]"

definition write_head :: "(unit, 'z lstate_scheme) kernel" where
  "write_head =
     kbind (kget (\<lambda>s. (lg_dev s, lg_start s, lg_n s, lg_block s))) (\<lambda>(dev, start, n, bs).
     kbind (bread dev (word_of_int start)) (\<lambda>b.
     kbind (set_data b (head_data n bs)) (\<lambda>_.
     kbind (bwrite b) (\<lambda>_.
     brelse b))))"

definition recover_from_log :: "(unit, 'z lstate_scheme) kernel" where
  "recover_from_log =
     kbind read_head (\<lambda>_.
     kbind install_trans (\<lambda>_.
     kbind (kmod (\<lambda>s. s\<lparr>lg_n := 0\<rparr>)) (\<lambda>_.
     write_head)))"

definition initlog :: "uint \<Rightarrow> (unit, 'z lstate_scheme) kernel" where
  "initlog dev =
     (if BSIZE \<le> 4 + 4 * LOGSIZE then kpanic ''initlog: too big logheader''
      else kbind (readsb dev) (\<lambda>sb.
           kbind (kmod (\<lambda>s. s\<lparr>lg_start := sint (sb_logstart sb), lg_size := sint (sb_nlog sb), lg_dev := dev\<rparr>)) (\<lambda>_.
           recover_from_log)))"

definition begin_op :: "(unit, 'z lstate_scheme) kernel" where
  "begin_op s =
     (if lg_committing s then Sleep Chan_log s
      else if lg_n s + (lg_outstanding s + 1) * int MAXOPBLOCKS > int LOGSIZE then Sleep Chan_log s
      else Ret () (s\<lparr>lg_outstanding := lg_outstanding s + 1\<rparr>))"

definition write_log1 :: "nat \<Rightarrow> (unit, 'z lstate_scheme) kernel" where
  "write_log1 tail =
     kbind (kget (\<lambda>s. (lg_dev s, lg_start s, lg_block s ! tail))) (\<lambda>(dev, start, home).
     kbind (bread dev (log_block start tail)) (\<lambda>to.
     kbind (bread dev (word_of_int home)) (\<lambda>from.
     kbind (buf_data from) (\<lambda>d.
     kbind (set_data to (\<lambda>_. d)) (\<lambda>_.
     kbind (bwrite to) (\<lambda>_.
     kbind (brelse from) (\<lambda>_.
     brelse to)))))))"

definition write_log :: "(unit, 'z lstate_scheme) kernel" where
  "write_log = kbind (kget lg_n) (\<lambda>n. kfor [0..<nat n] write_log1)"

definition commit :: "(unit, 'z lstate_scheme) kernel" where
  "commit =
     kbind (kget lg_n) (\<lambda>n.
     if n > 0
     then kbind write_log (\<lambda>_.
          kbind write_head (\<lambda>_.
          kbind install_trans (\<lambda>_.
          kbind (kmod (\<lambda>s. s\<lparr>lg_n := 0\<rparr>)) (\<lambda>_.
          write_head))))
     else kret ())"

definition end_op :: "(unit, 'z lstate_scheme) kernel" where
  "end_op =
     kbind (kmod (\<lambda>s. s\<lparr>lg_outstanding := lg_outstanding s - 1\<rparr>)) (\<lambda>_ s.
       if lg_committing s then Fault (Panic ''log.committing'')
       else if lg_outstanding s = 0
       then kbind (kmod (\<lambda>s. s\<lparr>lg_committing := True\<rparr>)) (\<lambda>_.
            kbind commit (\<lambda>_.
            kbind (kmod (\<lambda>s. s\<lparr>lg_committing := False\<rparr>)) (\<lambda>_.
            wakeup Chan_log))) s
       else wakeup Chan_log s)"

text \<open>The search of \<^verbatim>\<open>log_write\<close> for the block among those logged; \<open>n\<close> if it is not there.\<close>

definition log_slot :: "'z lstate_scheme \<Rightarrow> uint \<Rightarrow> nat" where
  "log_slot s b =
     (case find (\<lambda>i. word_of_int (lg_block s ! i) = b) [0..<nat (lg_n s)] of
        Some i \<Rightarrow> i | None \<Rightarrow> nat (lg_n s))"

definition log_write :: "nat \<Rightarrow> (unit, 'z lstate_scheme) kernel" where
  "log_write i s =
     (if lg_n s \<ge> int LOGSIZE \<or> lg_n s \<ge> lg_size s - 1 then Fault (Panic ''too big a transaction'')
      else if lg_outstanding s < 1 then Fault (Panic ''log_write outside of trans'')
      else let b = b_blockno (buf_at s i); k = log_slot s b
           in Ret () (upd_buf i (\<lambda>b. b\<lparr>b_dirty := True\<rparr>)
                (s\<lparr>lg_block := (lg_block s)[k := sint b],
                   lg_n := (if int k = lg_n s then lg_n s + 1 else lg_n s)\<rparr>)))"

end
