(* ===== verification/Xv6_Inode.thy ===== *)
theory Xv6_Inode
  imports Xv6_Log
begin

text \<open>
  Disk blocks and inodes, the first half of \<^verbatim>\<open>fs.c\<close>: the block bitmap, the inode cache, the map from the
  blocks of a file to disk blocks, and truncation. An in-memory inode is its index in \<^verbatim>\<open>icache.inode\<close>.
  The fields of type \<^verbatim>\<open>short\<close> are 16-bit words.
\<close>

subsection \<open>State\<close>

definition ROOTINO :: uint where "ROOTINO = 1"
definition NDIRECT :: nat where "NDIRECT = 12"
definition NINDIRECT :: nat where "NINDIRECT = BSIZE div 4"
definition MAXFILE :: nat where "MAXFILE = NDIRECT + NINDIRECT"
definition IPB :: nat where "IPB = BSIZE div 64"
definition BPB :: nat where "BPB = BSIZE * 8"
definition DIRSIZ :: nat where "DIRSIZ = 14"

definition T_DIR :: ushort where "T_DIR = 1"
definition T_FILE :: ushort where "T_FILE = 2"
definition T_DEV :: ushort where "T_DEV = 3"

record inode =
  i_dev :: uint
  i_inum :: uint
  i_ref :: int
  i_lock :: sleeplock
  i_valid :: bool
  i_type :: ushort
  i_major :: ushort
  i_minor :: ushort
  i_nlink :: ushort
  i_size :: uint
  i_addrs :: "uint list"

text \<open>The rest of the kernel's state that files need: the console's input line and its output.\<close>

record istate = lstate +
  sb :: superblock
  inodes :: "inode list"
  in_buf :: "uchar list"
  in_r :: uint
  in_w :: uint
  in_e :: uint
  uart_out :: "uchar list"
  cga_pos :: int
  crt :: "ushort list"

abbreviation inode_at :: "'z istate_scheme \<Rightarrow> nat \<Rightarrow> inode" where
  "inode_at s i \<equiv> inodes s ! i"

definition upd_inode :: "nat \<Rightarrow> (inode \<Rightarrow> inode) \<Rightarrow> 'z istate_scheme \<Rightarrow> 'z istate_scheme" where
  "upd_inode i f s = s\<lparr>inodes := (inodes s)[i := f (inodes s ! i)]\<rparr>"

definition upd_ilk :: "nat \<Rightarrow> (sleeplock \<Rightarrow> sleeplock) \<Rightarrow> 'z istate_scheme \<Rightarrow> 'z istate_scheme" where
  "upd_ilk i g = upd_inode i (\<lambda>p. p\<lparr>i_lock := g (i_lock p)\<rparr>)"

definition IBLOCK :: "uint \<Rightarrow> superblock \<Rightarrow> uint" where
  "IBLOCK i su = i div of_nat IPB + sb_inodestart su"

definition BBLOCK :: "uint \<Rightarrow> superblock \<Rightarrow> uint" where
  "BBLOCK b su = b div of_nat BPB + sb_bmapstart su"

subsection \<open>Blocks\<close>

definition bzero :: "uint \<Rightarrow> uint \<Rightarrow> (unit, 'z istate_scheme) kernel" where
  "bzero dev bno =
     kbind (bread dev bno) (\<lambda>bp.
     kbind (set_data bp (\<lambda>_. replicate BSIZE 0)) (\<lambda>_.
     kbind (log_write bp) (\<lambda>_.
     brelse bp)))"

text \<open>Bit \<open>bi\<close> of a bitmap block.\<close>

definition bit_at :: "uchar list \<Rightarrow> nat \<Rightarrow> bool" where
  "bit_at d bi = (d ! (bi div 8) AND push_bit (bi mod 8) 1 \<noteq> 0)"

definition set_bit_at :: "uchar list \<Rightarrow> nat \<Rightarrow> uchar list" where
  "set_bit_at d bi = d[bi div 8 := d ! (bi div 8) OR push_bit (bi mod 8) 1]"

definition clear_bit_at :: "uchar list \<Rightarrow> nat \<Rightarrow> uchar list" where
  "clear_bit_at d bi = d[bi div 8 := d ! (bi div 8) AND NOT (push_bit (bi mod 8) 1)]"

text \<open>The outer loop runs over the first block number of each bitmap block.\<close>

primrec balloc_loop :: "nat list \<Rightarrow> uint \<Rightarrow> (uint, 'z istate_scheme) kernel" where
  "balloc_loop [] dev = kpanic ''balloc: out of blocks''"
| "balloc_loop (b # bs) dev =
     kbind (kget sb) (\<lambda>sup.
     kbind (bread dev (BBLOCK (of_nat b) sup)) (\<lambda>bp.
     kbind (buf_data bp) (\<lambda>d.
     case find (\<lambda>bi. \<not> bit_at d bi) [0..<min BPB (unat (sb_size sup) - b)] of
       Some bi \<Rightarrow>
         kbind (set_data bp (\<lambda>d. set_bit_at d bi)) (\<lambda>_.
         kbind (log_write bp) (\<lambda>_.
         kbind (brelse bp) (\<lambda>_.
         kbind (bzero dev (of_nat (b + bi))) (\<lambda>_.
         kret (of_nat (b + bi))))))
     | None \<Rightarrow> kbind (brelse bp) (\<lambda>_. balloc_loop bs dev))))"

definition balloc :: "uint \<Rightarrow> (uint, 'z istate_scheme) kernel" where
  "balloc dev =
     kbind (kget sb) (\<lambda>sup.
     balloc_loop (map (\<lambda>k. k * BPB) [0..<(unat (sb_size sup) + BPB - 1) div BPB]) dev)"

definition bfree :: "uint \<Rightarrow> uint \<Rightarrow> (unit, 'z istate_scheme) kernel" where
  "bfree dev b =
     kbind (kget sb) (\<lambda>sup.
     kbind (bread dev (BBLOCK b sup)) (\<lambda>bp.
     kbind (buf_data bp) (\<lambda>d.
     let bi = unat b mod BPB in
     if \<not> bit_at d bi then kpanic ''freeing free block''
     else kbind (set_data bp (\<lambda>d. clear_bit_at d bi)) (\<lambda>_.
          kbind (log_write bp) (\<lambda>_.
          brelse bp)))))"

subsection \<open>Inodes\<close>

text \<open>Offset of inode \<open>inum\<close> in its block, and the fields of the inode there.\<close>

definition dip_off :: "uint \<Rightarrow> nat" where
  "dip_off inum = (unat inum mod IPB) * 64"

definition put_dinode :: "inode \<Rightarrow> uchar list \<Rightarrow> nat \<Rightarrow> uchar list" where
  "put_dinode p d k0 =
     foldl (\<lambda>d k. put32 d (k0 + 12 + 4 * k) (i_addrs p ! k))
       (put32 (put16 (put16 (put16 (put16 d k0 (i_type p)) (k0 + 2) (i_major p)) (k0 + 4) (i_minor p))
          (k0 + 6) (i_nlink p)) (k0 + 8) (i_size p)) [0..<NDIRECT + 1]"

definition get_dinode :: "uchar list \<Rightarrow> nat \<Rightarrow> inode \<Rightarrow> inode" where
  "get_dinode d k0 p = p\<lparr>i_type := get16 d k0, i_major := get16 d (k0 + 2), i_minor := get16 d (k0 + 4),
     i_nlink := get16 d (k0 + 6), i_size := get32 d (k0 + 8),
     i_addrs := map (\<lambda>k. get32 d (k0 + 12 + 4 * k)) [0..<NDIRECT + 1]\<rparr>"

definition iinit :: "uint \<Rightarrow> (unit, 'z istate_scheme) kernel" where
  "iinit dev =
     kbind (kmod (\<lambda>s. s\<lparr>inodes := map (\<lambda>p. p\<lparr>i_lock := initsleeplock\<rparr>) (inodes s)\<rparr>)) (\<lambda>_.
     kbind (readsb dev) (\<lambda>sup.
     kmod (\<lambda>s. s\<lparr>sb := sup\<rparr>)))"

definition iget :: "uint \<Rightarrow> uint \<Rightarrow> (nat, 'z istate_scheme) kernel" where
  "iget dev inum s =
     (case find (\<lambda>i. i_ref (inode_at s i) > 0 \<and> i_dev (inode_at s i) = dev \<and> i_inum (inode_at s i) = inum)
        [0..<NINODE] of
        Some i \<Rightarrow> Ret i (upd_inode i (\<lambda>p. p\<lparr>i_ref := i_ref p + 1\<rparr>) s)
      | None \<Rightarrow>
          (case find (\<lambda>i. i_ref (inode_at s i) = 0) [0..<NINODE] of
             None \<Rightarrow> Fault (Panic ''iget: no inodes'')
           | Some i \<Rightarrow> Ret i (upd_inode i (\<lambda>p. p\<lparr>i_dev := dev, i_inum := inum, i_ref := 1, i_valid := False\<rparr>) s)))"

primrec ialloc_loop :: "nat list \<Rightarrow> uint \<Rightarrow> ushort \<Rightarrow> (nat, 'z istate_scheme) kernel" where
  "ialloc_loop [] dev type = kpanic ''ialloc: no inodes''"
| "ialloc_loop (inum # is) dev type =
     kbind (kget sb) (\<lambda>sup.
     kbind (bread dev (IBLOCK (of_nat inum) sup)) (\<lambda>bp.
     kbind (buf_data bp) (\<lambda>d.
     let o' = dip_off (of_nat inum) in
     if get16 d o' = 0
     then kbind (set_data bp (\<lambda>d. put16 (put_bytes d o' (replicate 64 0)) o' type)) (\<lambda>_.
          kbind (log_write bp) (\<lambda>_.
          kbind (brelse bp) (\<lambda>_.
          iget dev (of_nat inum))))
     else kbind (brelse bp) (\<lambda>_. ialloc_loop is dev type))))"

definition ialloc :: "uint \<Rightarrow> ushort \<Rightarrow> (nat, 'z istate_scheme) kernel" where
  "ialloc dev type = kbind (kget sb) (\<lambda>sup. ialloc_loop [1..<unat (sb_ninodes sup)] dev type)"

definition iupdate :: "nat \<Rightarrow> (unit, 'z istate_scheme) kernel" where
  "iupdate ip =
     kbind (kget (\<lambda>s. (inode_at s ip, sb s))) (\<lambda>(p, sup).
     kbind (bread (i_dev p) (IBLOCK (i_inum p) sup)) (\<lambda>bp.
     kbind (set_data bp (\<lambda>d. put_dinode p d (dip_off (i_inum p)))) (\<lambda>_.
     kbind (log_write bp) (\<lambda>_.
     brelse bp))))"

definition idup :: "nat \<Rightarrow> (nat, 'z istate_scheme) kernel" where
  "idup ip = kbind (kmod (upd_inode ip (\<lambda>p. p\<lparr>i_ref := i_ref p + 1\<rparr>))) (\<lambda>_. kret ip)"

definition acquire_inode :: "nat \<Rightarrow> (unit, 'z istate_scheme) kernel" where
  "acquire_inode ip = acquiresleep (Chan_inodelock ip) (\<lambda>s. i_lock (inode_at s ip)) (upd_ilk ip)"

definition ilock :: "nat \<Rightarrow> (unit, 'z istate_scheme) kernel" where
  "ilock ip =
     kbind (kget (\<lambda>s. i_ref (inode_at s ip))) (\<lambda>r.
     if r < 1 then kpanic ''ilock''
     else kbind (acquire_inode ip) (\<lambda>_.
     kbind (kget (\<lambda>s. (inode_at s ip, sb s))) (\<lambda>(p, sup).
     if i_valid p then kret ()
     else kbind (bread (i_dev p) (IBLOCK (i_inum p) sup)) (\<lambda>bp.
          kbind (buf_data bp) (\<lambda>d.
          kbind (kmod (upd_inode ip (get_dinode d (dip_off (i_inum p))))) (\<lambda>_.
          kbind (brelse bp) (\<lambda>_.
          kbind (kmod (upd_inode ip (\<lambda>p. p\<lparr>i_valid := True\<rparr>))) (\<lambda>_.
          kbind (kget (\<lambda>s. i_type (inode_at s ip))) (\<lambda>t.
          if t = 0 then kpanic ''ilock: no type'' else kret ()))))))))) "

definition iunlock :: "nat \<Rightarrow> (unit, 'z istate_scheme) kernel" where
  "iunlock ip =
     kbind (holdingsleep (\<lambda>s. i_lock (inode_at s ip))) (\<lambda>h.
     kbind (kget (\<lambda>s. i_ref (inode_at s ip))) (\<lambda>r.
     if \<not> h \<or> r < 1 then kpanic ''iunlock''
     else releasesleep (Chan_inodelock ip) (upd_ilk ip)))"

subsection \<open>The content of an inode\<close>

definition bmap :: "nat \<Rightarrow> uint \<Rightarrow> (uint, 'z istate_scheme) kernel" where
  "bmap ip bn =
     kbind (kget (\<lambda>s. inode_at s ip)) (\<lambda>p.
     if unat bn < NDIRECT
     then (if i_addrs p ! unat bn = 0
           then kbind (balloc (i_dev p)) (\<lambda>addr.
                kbind (kmod (upd_inode ip (\<lambda>p. p\<lparr>i_addrs := (i_addrs p)[unat bn := addr]\<rparr>))) (\<lambda>_.
                kret addr))
           else kret (i_addrs p ! unat bn))
     else if unat bn - NDIRECT < NINDIRECT
     then kbind (if i_addrs p ! NDIRECT = 0
                 then kbind (balloc (i_dev p)) (\<lambda>addr.
                      kbind (kmod (upd_inode ip (\<lambda>p. p\<lparr>i_addrs := (i_addrs p)[NDIRECT := addr]\<rparr>))) (\<lambda>_.
                      kret addr))
                 else kret (i_addrs p ! NDIRECT)) (\<lambda>ind.
          kbind (bread (i_dev p) ind) (\<lambda>bp.
          kbind (buf_data bp) (\<lambda>d.
          let k = 4 * (unat bn - NDIRECT) in
          kbind (if get32 d k = 0
                 then kbind (balloc (i_dev p)) (\<lambda>addr.
                      kbind (set_data bp (\<lambda>d. put32 d k addr)) (\<lambda>_.
                      kbind (log_write bp) (\<lambda>_. kret addr)))
                 else kret (get32 d k)) (\<lambda>addr.
          kbind (brelse bp) (\<lambda>_.
          kret addr)))))
     else kpanic ''bmap: out of range'')"

definition itrunc_direct :: "nat \<Rightarrow> nat \<Rightarrow> (unit, 'z istate_scheme) kernel" where
  "itrunc_direct ip i =
     kbind (kget (\<lambda>s. inode_at s ip)) (\<lambda>p.
     if i_addrs p ! i \<noteq> 0
     then kbind (bfree (i_dev p) (i_addrs p ! i)) (\<lambda>_.
          kmod (upd_inode ip (\<lambda>p. p\<lparr>i_addrs := (i_addrs p)[i := 0]\<rparr>)))
     else kret ())"

definition itrunc_indirect :: "nat \<Rightarrow> (unit, 'z istate_scheme) kernel" where
  "itrunc_indirect ip =
     kbind (kget (\<lambda>s. inode_at s ip)) (\<lambda>p.
     if i_addrs p ! NDIRECT \<noteq> 0
     then kbind (bread (i_dev p) (i_addrs p ! NDIRECT)) (\<lambda>bp.
          kbind (kfor [0..<NINDIRECT] (\<lambda>j.
            kbind (buf_data bp) (\<lambda>d.
            if get32 d (4 * j) \<noteq> 0 then bfree (i_dev p) (get32 d (4 * j)) else kret ()))) (\<lambda>_.
          kbind (brelse bp) (\<lambda>_.
          kbind (bfree (i_dev p) (i_addrs p ! NDIRECT)) (\<lambda>_.
          kmod (upd_inode ip (\<lambda>p. p\<lparr>i_addrs := (i_addrs p)[NDIRECT := 0]\<rparr>))))))
     else kret ())"

definition itrunc :: "nat \<Rightarrow> (unit, 'z istate_scheme) kernel" where
  "itrunc ip =
     kbind (kfor [0..<NDIRECT] (itrunc_direct ip)) (\<lambda>_.
     kbind (itrunc_indirect ip) (\<lambda>_.
     kbind (kmod (upd_inode ip (\<lambda>p. p\<lparr>i_size := 0\<rparr>))) (\<lambda>_.
     iupdate ip)))"

definition iput :: "nat \<Rightarrow> (unit, 'z istate_scheme) kernel" where
  "iput ip =
     kbind (acquire_inode ip) (\<lambda>_.
     kbind (kget (\<lambda>s. inode_at s ip)) (\<lambda>p.
     kbind (if i_valid p \<and> i_nlink p = 0 \<and> i_ref p = 1
            then kbind (itrunc ip) (\<lambda>_.
                 kbind (kmod (upd_inode ip (\<lambda>p. p\<lparr>i_type := 0\<rparr>))) (\<lambda>_.
                 kbind (iupdate ip) (\<lambda>_.
                 kmod (upd_inode ip (\<lambda>p. p\<lparr>i_valid := False\<rparr>)))))
            else kret ()) (\<lambda>_.
     kbind (releasesleep (Chan_inodelock ip) (upd_ilk ip)) (\<lambda>_.
     kmod (upd_inode ip (\<lambda>p. p\<lparr>i_ref := i_ref p - 1\<rparr>))))))"

definition iunlockput :: "nat \<Rightarrow> (unit, 'z istate_scheme) kernel" where
  "iunlockput ip = kbind (iunlock ip) (\<lambda>_. iput ip)"

record stat =
  st_type :: ushort
  st_dev :: uint
  st_ino :: uint
  st_nlink :: ushort
  st_size :: uint

definition stati :: "inode \<Rightarrow> stat" where
  "stati p = \<lparr>st_type = i_type p, st_dev = i_dev p, st_ino = i_inum p, st_nlink = i_nlink p, st_size = i_size p\<rparr>"

end
