(* ===== verification/Xv6_Console.thy ===== *)
theory Xv6_Console
  imports Xv6_Inode
begin

text \<open>
  The console, \<^verbatim>\<open>console.c\<close>: number formatting, the screen, the input line with its editing, and the read
  and write functions of the console device. The screen's cursor position, which the code keeps in
  the video controller, is a field of the state; characters sent to the serial port are a list.
\<close>

subsection \<open>Printing numbers\<close>

definition digits :: "uchar list" where
  "digits = [48, 49, 50, 51, 52, 53, 54, 55, 56, 57, 97, 98, 99, 100, 101, 102]"

text \<open>The do loop of \<^verbatim>\<open>printint\<close>: the digits of \<open>x\<close>, least first.\<close>

function digit_loop :: "nat \<Rightarrow> nat \<Rightarrow> uchar list" where
  "digit_loop base x =
     digits ! (x mod base) # (if x div base = 0 \<or> base < 2 then [] else digit_loop base (x div base))"
  by pat_completeness auto
termination
  by (relation "measure snd") (auto simp: div_eq_0_iff intro!: div_less_dividend)

declare digit_loop.simps [simp del]

text \<open>The characters \<^verbatim>\<open>printint\<close> sends to the console; \<open>xx\<close> is the 32-bit argument.\<close>

definition printint :: "uint \<Rightarrow> nat \<Rightarrow> bool \<Rightarrow> uchar list" where
  "printint xx base sign =
     (let neg = sign \<and> sint xx < 0; x = (if neg then - xx else xx)
      in rev (digit_loop base (unat x) @ (if neg then [45] else [])))"

text \<open>
  \<^verbatim>\<open>cprintf\<close>: the arguments are words; for \<^verbatim>\<open>%s\<close> the argument list has the string, or \<open>None\<close> for a null
  pointer. Fetching more arguments than there are is undefined.
\<close>

datatype carg = Num uint | Str "uchar list option"

fun cprintf_chars :: "uchar list \<Rightarrow> carg list \<Rightarrow> uchar list option" where
  "cprintf_chars [] args = Some []"
| "cprintf_chars (c # fmt) args =
     (if c = 0 then Some []
      else if c \<noteq> 37 then map_option (\<lambda>r. c # r) (cprintf_chars fmt args)
      else case fmt of [] \<Rightarrow> Some []
        | d # fmt' \<Rightarrow>
            if d = 0 then Some []
            else if d = 100 then
              (case args of Num x # args' \<Rightarrow> map_option (\<lambda>r. printint x 10 True @ r) (cprintf_chars fmt' args')
               | _ \<Rightarrow> None)
            else if d = 120 \<or> d = 112 then
              (case args of Num x # args' \<Rightarrow> map_option (\<lambda>r. printint x 16 False @ r) (cprintf_chars fmt' args')
               | _ \<Rightarrow> None)
            else if d = 115 then
              (case args of Str so # args' \<Rightarrow>
                 map_option (\<lambda>r. (case so of None \<Rightarrow> [40, 110, 117, 108, 108, 41] | Some str \<Rightarrow> str) @ r) (cprintf_chars fmt' args')
               | _ \<Rightarrow> None)
            else if d = 37 then map_option (\<lambda>r. 37 # r) (cprintf_chars fmt' args)
            else map_option (\<lambda>r. 37 # d # r) (cprintf_chars fmt' args))"

subsection \<open>The screen\<close>

definition BACKSPACE :: int where "BACKSPACE = 0x100"

definition cgaputc :: "int \<Rightarrow> (unit, 'z istate_scheme) kernel" where
  "cgaputc c s =
     (let pos0 = cga_pos s;
          (pos, scr) =
            (if c = 10 then (pos0 + (80 - pos0 mod 80), crt s)
             else if c = BACKSPACE then (if pos0 > 0 then pos0 - 1 else pos0, crt s)
             else (pos0 + 1, (crt s)[nat pos0 := (word_of_int c AND 0xff) OR 0x0700]))
      in if pos < 0 \<or> pos > 25 * 80 then Fault (Panic ''pos under/overflow'')
         else let (pos, scr) =
                (if pos div 80 \<ge> 24
                 then (pos - 80,
                       take (nat (pos - 80)) (take (23 * 80) (drop 80 scr) @ drop (23 * 80) scr) @
                       replicate (nat (24 * 80 - (pos - 80))) 0 @ drop (24 * 80) scr)
                 else (pos, scr))
              in Ret () (s\<lparr>cga_pos := pos, crt := scr[nat pos := 32 OR 0x0700]\<rparr>))"

definition uartputc :: "uchar \<Rightarrow> (unit, 'z istate_scheme) kernel" where
  "uartputc c = kmod (\<lambda>s. s\<lparr>uart_out := uart_out s @ [c]\<rparr>)"

definition consputc :: "int \<Rightarrow> (unit, 'z istate_scheme) kernel" where
  "consputc c =
     kbind (if c = BACKSPACE then kfor [8, 32, 8] uartputc else uartputc (word_of_int c)) (\<lambda>_.
     cgaputc c)"

subsection \<open>The input line\<close>

definition INPUT_BUF :: nat where "INPUT_BUF = 128"

definition in_at :: "'z istate_scheme \<Rightarrow> uint \<Rightarrow> uchar" where
  "in_at s i = in_buf s ! (unat i mod INPUT_BUF)"

lemma consputc_frame: "consputc c s = Ret u t \<Longrightarrow> in_e t = in_e s \<and> in_w t = in_w s"
  by (auto simp: consputc_def cgaputc_def uartputc_def kbind_def Let_def split: if_splits outcome.splits prod.splits)

function kill_line :: "(unit, 'z istate_scheme) kernel" where
  "kill_line s =
     (if in_e s \<noteq> in_w s \<and> in_at s (in_e s - 1) \<noteq> 10
      then (case consputc BACKSPACE (s\<lparr>in_e := in_e s - 1\<rparr>) of
              Ret u t \<Rightarrow> kill_line t
            | Sleep c t \<Rightarrow> Sleep c t | Fault e \<Rightarrow> Fault e)
      else Ret () s)"
  by pat_completeness auto
termination
proof (relation "measure (\<lambda>s. unat (in_e s - in_w s))", goal_cases)
  case (2 s u t)
  then have "in_e s - in_w s \<noteq> 0" by simp
  then have "unat (in_e s - in_w s - 1) < unat (in_e s - in_w s)"
    by (metis diff_less gr0I unat_1 unat_eq_zero unat_minus_one zero_less_one)
  moreover have "in_e t = in_e s - 1" "in_w t = in_w s" using consputc_frame[OF 2(2)] by simp_all
  ultimately show ?case by (simp add: diff_diff_eq add.commute)
qed simp

declare kill_line.simps [simp del]

text \<open>One character from the keyboard or the serial port; the result says whether it asks for a process listing.\<close>

definition consoleintr1 :: "int \<Rightarrow> (bool, 'z istate_scheme) kernel" where
  "consoleintr1 c =
     (if c = 16 then kret True
      else if c = 21 then kbind kill_line (\<lambda>_. kret False)
      else if c = 8 \<or> c = 127 then
        kbind (kget (\<lambda>s. in_e s \<noteq> in_w s)) (\<lambda>b.
        if b then kbind (kmod (\<lambda>s. s\<lparr>in_e := in_e s - 1\<rparr>)) (\<lambda>_. kbind (consputc BACKSPACE) (\<lambda>_. kret False))
        else kret False)
      else kbind (kget (\<lambda>s. c \<noteq> 0 \<and> in_e s - in_r s < of_nat INPUT_BUF)) (\<lambda>b.
        if b
        then let c = (if c = 13 then 10 else c) in
             kbind (kmod (\<lambda>s. s\<lparr>in_buf := (in_buf s)[unat (in_e s) mod INPUT_BUF := word_of_int c],
                               in_e := in_e s + 1\<rparr>)) (\<lambda>_.
             kbind (consputc c) (\<lambda>_ s.
               if c = 10 \<or> c = 4 \<or> in_e s = in_r s + of_nat INPUT_BUF
               then kbind (kmod (\<lambda>s. s\<lparr>in_w := in_e s\<rparr>)) (\<lambda>_. kbind (wakeup Chan_input) (\<lambda>_. kret False)) s
               else Ret False s))
        else kret False))"

text \<open>\<^verbatim>\<open>consoleintr\<close>: the values \<^verbatim>\<open>getc\<close> returns before it returns a negative one are given as a list.\<close>

primrec consoleintr :: "int list \<Rightarrow> (bool, 'z istate_scheme) kernel" where
  "consoleintr [] = kret False"
| "consoleintr (c # cs) =
     kbind (consoleintr1 c) (\<lambda>d. kbind (consoleintr cs) (\<lambda>d'. kret (d \<or> d')))"

subsection \<open>The console device\<close>

text \<open>
  The loop of \<^verbatim>\<open>consoleread\<close> with \<open>n\<close> bytes left; it returns whether the process was killed, and the bytes
  stored at \<^verbatim>\<open>dst\<close>. A process that sleeps here continues with the loop on what is left.
\<close>

primrec consoleread_loop :: "nat \<Rightarrow> bool \<Rightarrow> (bool \<times> uchar list, 'z istate_scheme) kernel" where
  "consoleread_loop 0 some = kret (False, [])"
| "consoleread_loop (Suc n) some =
     (\<lambda>s. if in_r s = in_w s
          then kbind curproc (\<lambda>p s. if p_killed (proc_at s p) \<noteq> 0 then Ret (True, []) s else Sleep Chan_input s) s
          else let c = in_at s (in_r s); t = s\<lparr>in_r := in_r s + 1\<rparr>
               in if c = 4 then Ret (False, []) (if some then s else t)
                  else if c = 10 then Ret (False, [c]) t
                  else kbind (consoleread_loop n True) (\<lambda>(k, cs). kret (k, c # cs)) t)"

definition consoleread :: "nat \<Rightarrow> int \<Rightarrow> (int \<times> uchar list, 'z istate_scheme) kernel" where
  "consoleread ip n =
     kbind (iunlock ip) (\<lambda>_.
     kbind (consoleread_loop (nat n) False) (\<lambda>(killed, cs).
     kbind (ilock ip) (\<lambda>_.
     kret (if killed then - 1 else int (length cs), cs))))"

definition consolewrite :: "nat \<Rightarrow> uchar list \<Rightarrow> (int, 'z istate_scheme) kernel" where
  "consolewrite ip src =
     kbind (iunlock ip) (\<lambda>_.
     kbind (kfor src (\<lambda>c. consputc (Word.uint c))) (\<lambda>_.
     kbind (ilock ip) (\<lambda>_.
     kret (int (length src)))))"

end
