(* ===== verification/Xv6_Fs.thy ===== *)
theory Xv6_Fs
  imports Xv6_Console
begin

text \<open>
  Reading and writing files, directories and path names: the second half of \<^verbatim>\<open>fs.c\<close>. A buffer of the caller
  is the list of its bytes: \<^verbatim>\<open>readi\<close> returns the bytes it stores, \<^verbatim>\<open>writei\<close> takes the bytes it copies. A
  path is the list of its characters without the terminating zero. The only device is the console.
\<close>

subsection \<open>Reading and writing an inode\<close>

definition chunk :: "nat \<Rightarrow> nat \<Rightarrow> nat" where
  "chunk off n = min n (BSIZE - off mod BSIZE)"

lemma chunk_pos [simp]: "0 < n \<Longrightarrow> 0 < chunk off n"
  by (simp add: chunk_def BSIZE_def)

function readi_loop :: "nat \<Rightarrow> nat \<Rightarrow> nat \<Rightarrow> (uchar list, 'z istate_scheme) kernel" where
  "readi_loop ip off n s =
     (if n = 0 then Ret [] s
      else let m = chunk off n in
        kbind (bmap ip (of_nat (off div BSIZE))) (\<lambda>addr.
        kbind (kget (\<lambda>s. i_dev (inode_at s ip))) (\<lambda>dev.
        kbind (bread dev addr) (\<lambda>bp.
        kbind (buf_data bp) (\<lambda>d.
        kbind (brelse bp) (\<lambda>_.
        kbind (readi_loop ip (off + m) (n - m)) (\<lambda>rest.
        kret (take m (drop (off mod BSIZE) d) @ rest))))))) s)"
  by pat_completeness auto
termination
  by (relation "measure (\<lambda>(ip, off, n, s). n)") (auto intro!: diff_less)

declare readi_loop.simps [simp del]

definition readi :: "nat \<Rightarrow> uint \<Rightarrow> uint \<Rightarrow> (int \<times> uchar list, 'z istate_scheme) kernel" where
  "readi ip off n =
     kbind (kget (\<lambda>s. inode_at s ip)) (\<lambda>p.
     if i_type p = T_DEV
     then (if i_major p = 1 then consoleread ip (sint n) else kret (- 1, []))
     else if off > i_size p \<or> off + n < off then kret (- 1, [])
     else let n = (if off + n > i_size p then i_size p - off else n) in
          kbind (readi_loop ip (unat off) (unat n)) (\<lambda>bs. kret (sint n, bs)))"

function writei_loop :: "nat \<Rightarrow> nat \<Rightarrow> uchar list \<Rightarrow> (nat, 'z istate_scheme) kernel" where
  "writei_loop ip off src s =
     (if src = [] then Ret off s
      else let m = chunk off (length src) in
        kbind (bmap ip (of_nat (off div BSIZE))) (\<lambda>addr.
        kbind (kget (\<lambda>s. i_dev (inode_at s ip))) (\<lambda>dev.
        kbind (bread dev addr) (\<lambda>bp.
        kbind (set_data bp (\<lambda>d. put_bytes d (off mod BSIZE) (take m src))) (\<lambda>_.
        kbind (log_write bp) (\<lambda>_.
        kbind (brelse bp) (\<lambda>_.
        writei_loop ip (off + m) (drop m src))))))) s)"
  by pat_completeness auto
termination
  by (relation "measure (\<lambda>(ip, off, src, s). length src)") (auto intro!: diff_less)

declare writei_loop.simps [simp del]

definition writei :: "nat \<Rightarrow> uchar list \<Rightarrow> uint \<Rightarrow> (int, 'z istate_scheme) kernel" where
  "writei ip src off =
     kbind (kget (\<lambda>s. inode_at s ip)) (\<lambda>p.
     let n = of_nat (length src) in
     if i_type p = T_DEV
     then (if i_major p = 1 then consolewrite ip src else kret (- 1))
     else if off > i_size p \<or> off + n < off then kret (- 1)
     else if off + n > of_nat (MAXFILE * BSIZE) then kret (- 1)
     else kbind (writei_loop ip (unat off) src) (\<lambda>off'.
          kbind (kget (\<lambda>s. i_size (inode_at s ip))) (\<lambda>size'.
          kbind (if src \<noteq> [] \<and> of_nat off' > size'
                 then kbind (kmod (upd_inode ip (\<lambda>p. p\<lparr>i_size := of_nat off'\<rparr>))) (\<lambda>_. iupdate ip)
                 else kret ()) (\<lambda>_.
          kret (sint n)))))"

subsection \<open>Directories\<close>

text \<open>A directory entry is 16 bytes: the inode number and a name of at most \<^verbatim>\<open>DIRSIZ\<close> bytes.\<close>

definition de_inum :: "uchar list \<Rightarrow> ushort" where
  "de_inum de = get16 de 0"

definition de_name :: "uchar list \<Rightarrow> nat \<Rightarrow> uchar" where
  "de_name de k = de ! (2 + k)"

definition mk_dirent :: "uchar list \<Rightarrow> (nat \<Rightarrow> uchar) \<Rightarrow> uint \<Rightarrow> uchar list" where
  "mk_dirent de name inum =
     bytes16 (ucast inum) @ map (strncpy (de_name de) name (int DIRSIZ)) [0..<DIRSIZ]"

definition namecmp :: "(nat \<Rightarrow> uchar) \<Rightarrow> (nat \<Rightarrow> uchar) \<Rightarrow> int" where
  "namecmp s t = strncmp s t DIRSIZ"

text \<open>The offsets the loops over a directory of \<open>size\<close> bytes visit.\<close>

definition dir_offs :: "uint \<Rightarrow> nat list" where
  "dir_offs sz = map (\<lambda>k. 16 * k) [0..<(unat sz + 15) div 16]"

primrec dirlookup_loop :: "nat list \<Rightarrow> nat \<Rightarrow> (nat \<Rightarrow> uchar) \<Rightarrow> ((nat \<times> nat) option, 'z istate_scheme) kernel" where
  "dirlookup_loop [] dp name = kret None"
| "dirlookup_loop (off # offs) dp name =
     kbind (readi dp (of_nat off) 16) (\<lambda>(r, de).
     if r \<noteq> 16 then kpanic ''dirlookup read''
     else if de_inum de = 0 then dirlookup_loop offs dp name
     else if namecmp name (de_name de) = 0
     then kbind (kget (\<lambda>s. i_dev (inode_at s dp))) (\<lambda>dev.
          kbind (iget dev (ucast (de_inum de))) (\<lambda>ip.
          kret (Some (ip, off))))
     else dirlookup_loop offs dp name)"

definition dirlookup :: "nat \<Rightarrow> (nat \<Rightarrow> uchar) \<Rightarrow> ((nat \<times> nat) option, 'z istate_scheme) kernel" where
  "dirlookup dp name =
     kbind (kget (\<lambda>s. inode_at s dp)) (\<lambda>p.
     if i_type p \<noteq> T_DIR then kpanic ''dirlookup not DIR''
     else dirlookup_loop (dir_offs (i_size p)) dp name)"

text \<open>The search for a free entry; the result is the offset reached and the entry last read.\<close>

primrec dirlink_loop :: "nat list \<Rightarrow> nat \<Rightarrow> nat \<Rightarrow> uchar list \<Rightarrow> (nat \<times> uchar list, 'z istate_scheme) kernel" where
  "dirlink_loop [] dp end de = kret (end, de)"
| "dirlink_loop (off # offs) dp end de0 =
     kbind (readi dp (of_nat off) 16) (\<lambda>(r, de).
     if r \<noteq> 16 then kpanic ''dirlink read''
     else if de_inum de = 0 then kret (off, de)
     else dirlink_loop offs dp end de)"

definition dirlink :: "nat \<Rightarrow> (nat \<Rightarrow> uchar) \<Rightarrow> uint \<Rightarrow> (int, 'z istate_scheme) kernel" where
  "dirlink dp name inum =
     kbind (dirlookup dp name) (\<lambda>r.
     case r of
       Some (ip, _) \<Rightarrow> kbind (iput ip) (\<lambda>_. kret (- 1))
     | None \<Rightarrow>
         kbind (kget (\<lambda>s. i_size (inode_at s dp))) (\<lambda>sz.
         kbind (dirlink_loop (dir_offs sz) dp (16 * ((unat sz + 15) div 16)) (replicate 16 0)) (\<lambda>(off, de).
         kbind (writei dp (mk_dirent de name inum) (of_nat off)) (\<lambda>w.
         if w \<noteq> 16 then kpanic ''dirlink'' else kret 0))))"

subsection \<open>Paths\<close>

definition SLASH :: uchar where "SLASH = 47"

text \<open>
  \<^verbatim>\<open>skipelem\<close> on a path and the buffer \<open>name\<close>: the rest of the path and the new contents of the buffer.
\<close>

definition skipelem :: "uchar list \<Rightarrow> (nat \<Rightarrow> uchar) \<Rightarrow> (uchar list \<times> (nat \<Rightarrow> uchar)) option" where
  "skipelem path name =
     (let path = dropWhile (\<lambda>c. c = SLASH) path
      in if path = [] then None
         else let s = takeWhile (\<lambda>c. c \<noteq> SLASH) path; rest = dropWhile (\<lambda>c. c \<noteq> SLASH) path; len = length s;
                  name' = (if len \<ge> DIRSIZ then (\<lambda>i. if i < DIRSIZ then s ! i else name i)
                           else (\<lambda>i. if i < len then s ! i else if i = len then 0 else name i))
              in Some (dropWhile (\<lambda>c. c = SLASH) rest, name'))"

lemma skipelem_shorter:
  assumes "skipelem path name = Some (rest, name')"
  shows "length rest < length path"
proof -
  let ?p = "dropWhile (\<lambda>c. c = SLASH) path"
  have ne: "?p \<noteq> []" and rest: "rest = dropWhile (\<lambda>c. c = SLASH) (dropWhile (\<lambda>c. c \<noteq> SLASH) ?p)"
    using assms by (auto simp: skipelem_def Let_def split: if_splits)
  have "hd ?p \<noteq> SLASH" using hd_dropWhile[OF ne] by simp
  then have "dropWhile (\<lambda>c. c \<noteq> SLASH) ?p = dropWhile (\<lambda>c. c \<noteq> SLASH) (tl ?p)"
    using ne by (cases ?p) auto
  then have "length rest \<le> length (tl ?p)"
    unfolding rest by (metis le_trans length_dropWhile_le)
  also have "\<dots> < length ?p" using ne by simp
  also have "\<dots> \<le> length path" by (rule length_dropWhile_le)
  finally show ?thesis .
qed

function namex_loop :: "nat \<Rightarrow> uchar list \<Rightarrow> bool \<Rightarrow> (nat \<Rightarrow> uchar) \<Rightarrow>
    ((nat \<times> (nat \<Rightarrow> uchar)) option, 'z istate_scheme) kernel" where
  "namex_loop ip path nameiparent name s =
     (case skipelem path name of
        None \<Rightarrow> if nameiparent then kbind (iput ip) (\<lambda>_. kret None) s else Ret (Some (ip, name)) s
      | Some (path', name') \<Rightarrow>
          kbind (ilock ip) (\<lambda>_.
          kbind (kget (\<lambda>s. i_type (inode_at s ip))) (\<lambda>t.
          if t \<noteq> T_DIR then kbind (iunlockput ip) (\<lambda>_. kret None)
          else if nameiparent \<and> path' = [] then kbind (iunlock ip) (\<lambda>_. kret (Some (ip, name')))
          else kbind (dirlookup ip name') (\<lambda>r.
               case r of
                 None \<Rightarrow> kbind (iunlockput ip) (\<lambda>_. kret None)
               | Some (next, _) \<Rightarrow> kbind (iunlockput ip) (\<lambda>_. namex_loop next path' nameiparent name')))) s)"
  by pat_completeness auto
termination
  by (relation "measure (\<lambda>(ip, path, np, name, s). length path)") (auto dest: skipelem_shorter)

declare namex_loop.simps [simp del]

text \<open>The result has the inode and the last name copied.\<close>

definition namex :: "uchar list \<Rightarrow> bool \<Rightarrow> (nat \<Rightarrow> uchar) \<Rightarrow> ((nat \<times> (nat \<Rightarrow> uchar)) option, 'z istate_scheme) kernel" where
  "namex path nameiparent name =
     kbind (if path \<noteq> [] \<and> hd path = SLASH then iget ROOTDEV ROOTINO
            else kbind curproc (\<lambda>p.
                 kbind (kget (\<lambda>s. p_cwd (proc_at s p))) (\<lambda>cwd.
                 case cwd of None \<Rightarrow> kundef ''null cwd'' | Some ip \<Rightarrow> idup ip))) (\<lambda>ip.
     namex_loop ip path nameiparent name)"

definition namei :: "uchar list \<Rightarrow> (nat option, 'z istate_scheme) kernel" where
  "namei path = kbind (namex path False (\<lambda>_. 0)) (\<lambda>r. kret (map_option fst r))"

definition nameiparent :: "uchar list \<Rightarrow> ((nat \<times> (nat \<Rightarrow> uchar)) option, 'z istate_scheme) kernel" where
  "nameiparent path = namex path True (\<lambda>_. 0)"

end
