(* ===== verification/Xv6_File.thy ===== *)
theory Xv6_File
  imports Xv6_Fs Xv6_Fifo
begin

text \<open>
  Open files and pipes: \<^verbatim>\<open>file.c\<close> and \<^verbatim>\<open>pipe.c\<close>. An open file is its index in \<^verbatim>\<open>ftable.file\<close>; a pipe is the address
  of the page \<^verbatim>\<open>kalloc\<close> gave for it, and \<open>pipes\<close> has the structure at each such address.
\<close>

subsection \<open>State\<close>

definition PIPESIZE :: nat where "PIPESIZE = 512"

record pipe =
  pi_data :: "uchar list"
  pi_nread :: uint
  pi_nwrite :: uint
  pi_readopen :: bool
  pi_writeopen :: bool

datatype fdtype = FD_NONE | FD_PIPE | FD_INODE

record kfile =
  f_type :: fdtype
  f_ref :: int
  f_readable :: bool
  f_writable :: bool
  f_pipe :: uint
  f_ip :: nat
  f_off :: uint

record fstate = istate +
  pipes :: "uint \<Rightarrow> pipe"
  files :: "kfile list"

abbreviation file_at :: "'z fstate_scheme \<Rightarrow> nat \<Rightarrow> kfile" where
  "file_at s i \<equiv> files s ! i"

definition upd_file :: "nat \<Rightarrow> (kfile \<Rightarrow> kfile) \<Rightarrow> 'z fstate_scheme \<Rightarrow> 'z fstate_scheme" where
  "upd_file i f s = s\<lparr>files := (files s)[i := f (files s ! i)]\<rparr>"

definition upd_pipe :: "uint \<Rightarrow> (pipe \<Rightarrow> pipe) \<Rightarrow> 'z fstate_scheme \<Rightarrow> 'z fstate_scheme" where
  "upd_pipe pi f s = s\<lparr>pipes := (pipes s)(pi := f (pipes s pi))\<rparr>"

subsection \<open>The ring of a pipe\<close>

definition pipe_full :: "pipe \<Rightarrow> bool" where
  "pipe_full p \<longleftrightarrow> pi_nwrite p = pi_nread p + of_nat PIPESIZE"

definition pipe_empty :: "pipe \<Rightarrow> bool" where
  "pipe_empty p \<longleftrightarrow> pi_nread p = pi_nwrite p"

definition pipe_put :: "uchar \<Rightarrow> pipe \<Rightarrow> pipe" where
  "pipe_put c p = p\<lparr>pi_data := (pi_data p)[unat (pi_nwrite p) mod PIPESIZE := c], pi_nwrite := pi_nwrite p + 1\<rparr>"

definition pipe_get :: "pipe \<Rightarrow> uchar \<times> pipe" where
  "pipe_get p = (pi_data p ! (unat (pi_nread p) mod PIPESIZE), p\<lparr>pi_nread := pi_nread p + 1\<rparr>)"

subsection \<open>Reading, writing and closing a pipe\<close>

definition pipeclose :: "uint \<Rightarrow> bool \<Rightarrow> (unit, 'z fstate_scheme) kernel" where
  "pipeclose pi writable =
     kbind (if writable
            then kbind (kmod (upd_pipe pi (\<lambda>p. p\<lparr>pi_writeopen := False\<rparr>))) (\<lambda>_. wakeup (Chan_nread pi))
            else kbind (kmod (upd_pipe pi (\<lambda>p. p\<lparr>pi_readopen := False\<rparr>))) (\<lambda>_. wakeup (Chan_nwrite pi))) (\<lambda>_.
     kbind (kget (\<lambda>s. pipes s pi)) (\<lambda>p.
     if \<not> pi_readopen p \<and> \<not> pi_writeopen p then kfree pi else kret ()))"

text \<open>
  The loop of \<^verbatim>\<open>pipewrite\<close> on the bytes still to write; its result tells whether all were written. A process
  that sleeps here continues, when it runs again, with the loop on the bytes that were left.
\<close>

primrec pipewrite_loop :: "uchar list \<Rightarrow> uint \<Rightarrow> (bool, 'z fstate_scheme) kernel" where
  "pipewrite_loop [] pi = kret True"
| "pipewrite_loop (c # cs) pi =
     (\<lambda>s. if pipe_full (pipes s pi)
          then kbind curproc (\<lambda>p.
               kbind (kget (\<lambda>s. \<not> pi_readopen (pipes s pi) \<or> p_killed (proc_at s p) \<noteq> 0)) (\<lambda>b.
               if b then kret False
               else kbind (wakeup (Chan_nread pi)) (\<lambda>_. Sleep (Chan_nwrite pi)))) s
          else pipewrite_loop cs pi (upd_pipe pi (pipe_put c) s))"

definition pipewrite :: "uint \<Rightarrow> uchar list \<Rightarrow> (int, 'z fstate_scheme) kernel" where
  "pipewrite pi src =
     kbind (pipewrite_loop src pi) (\<lambda>b.
     if b then kbind (wakeup (Chan_nread pi)) (\<lambda>_. kret (int (length src))) else kret (- 1))"

primrec piperead_loop :: "nat \<Rightarrow> uint \<Rightarrow> (uchar list, 'z fstate_scheme) kernel" where
  "piperead_loop 0 pi = kret []"
| "piperead_loop (Suc n) pi =
     (\<lambda>s. if pipe_empty (pipes s pi) then Ret [] s
          else let (c, p') = pipe_get (pipes s pi)
               in kbind (piperead_loop n pi) (\<lambda>cs. kret (c # cs)) (upd_pipe pi (\<lambda>_. p') s))"

definition piperead :: "uint \<Rightarrow> int \<Rightarrow> (int \<times> uchar list, 'z fstate_scheme) kernel" where
  "piperead pi n s =
     (if pipe_empty (pipes s pi) \<and> pi_writeopen (pipes s pi)
      then kbind curproc (\<lambda>p s. if p_killed (proc_at s p) \<noteq> 0 then Ret (- 1, []) s else Sleep (Chan_nread pi) s) s
      else kbind (piperead_loop (nat n) pi) (\<lambda>cs.
           kbind (wakeup (Chan_nwrite pi)) (\<lambda>_.
           kret (int (length cs), cs))) s)"

subsection \<open>The file table\<close>

definition filealloc :: "(nat option, 'z fstate_scheme) kernel" where
  "filealloc s =
     (case find (\<lambda>i. f_ref (file_at s i) = 0) [0..<NFILE] of
        Some i \<Rightarrow> Ret (Some i) (upd_file i (\<lambda>f. f\<lparr>f_ref := 1\<rparr>) s)
      | None \<Rightarrow> Ret None s)"

definition filedup :: "nat \<Rightarrow> (nat, 'z fstate_scheme) kernel" where
  "filedup f s =
     (if f_ref (file_at s f) < 1 then Fault (Panic ''filedup'')
      else Ret f (upd_file f (\<lambda>x. x\<lparr>f_ref := f_ref x + 1\<rparr>) s))"

definition fileclose :: "nat \<Rightarrow> (unit, 'z fstate_scheme) kernel" where
  "fileclose f s =
     (let ff = file_at s f
      in if f_ref ff < 1 then Fault (Panic ''fileclose'')
         else if f_ref ff - 1 > 0 then Ret () (upd_file f (\<lambda>x. x\<lparr>f_ref := f_ref x - 1\<rparr>) s)
         else kbind (kmod (upd_file f (\<lambda>x. x\<lparr>f_ref := 0, f_type := FD_NONE\<rparr>))) (\<lambda>_.
              if f_type ff = FD_PIPE then pipeclose (f_pipe ff) (f_writable ff)
              else if f_type ff = FD_INODE
              then kbind begin_op (\<lambda>_. kbind (iput (f_ip ff)) (\<lambda>_. end_op))
              else kret ()) s)"

definition pipealloc :: "((nat \<times> nat) option, 'z fstate_scheme) kernel" where
  "pipealloc =
     kbind filealloc (\<lambda>f0.
     case f0 of None \<Rightarrow> kret None
     | Some f0 \<Rightarrow>
       kbind filealloc (\<lambda>f1.
       case f1 of None \<Rightarrow> kbind (fileclose f0) (\<lambda>_. kret None)
       | Some f1 \<Rightarrow>
         kbind kalloc (\<lambda>p.
         if p = 0 then kbind (fileclose f0) (\<lambda>_. kbind (fileclose f1) (\<lambda>_. kret None))
         else kbind (kmod (upd_pipe p (\<lambda>x. x\<lparr>pi_readopen := True, pi_writeopen := True, pi_nwrite := 0, pi_nread := 0\<rparr>))) (\<lambda>_.
              kbind (kmod (upd_file f0 (\<lambda>f. f\<lparr>f_type := FD_PIPE, f_readable := True, f_writable := False, f_pipe := p\<rparr>))) (\<lambda>_.
              kbind (kmod (upd_file f1 (\<lambda>f. f\<lparr>f_type := FD_PIPE, f_readable := False, f_writable := True, f_pipe := p\<rparr>))) (\<lambda>_.
              kret (Some (f0, f1))))))))"

definition filestat :: "nat \<Rightarrow> (int \<times> stat option, 'z fstate_scheme) kernel" where
  "filestat f =
     kbind (kget (\<lambda>s. file_at s f)) (\<lambda>ff.
     if f_type ff = FD_INODE
     then kbind (ilock (f_ip ff)) (\<lambda>_.
          kbind (kget (\<lambda>s. stati (inode_at s (f_ip ff)))) (\<lambda>st.
          kbind (iunlock (f_ip ff)) (\<lambda>_.
          kret (0, Some st))))
     else kret (- 1, None))"

definition fileread :: "nat \<Rightarrow> int \<Rightarrow> (int \<times> uchar list, 'z fstate_scheme) kernel" where
  "fileread f n =
     kbind (kget (\<lambda>s. file_at s f)) (\<lambda>ff.
     if \<not> f_readable ff then kret (- 1, [])
     else if f_type ff = FD_PIPE then piperead (f_pipe ff) n
     else if f_type ff = FD_INODE
     then kbind (ilock (f_ip ff)) (\<lambda>_.
          kbind (kget (\<lambda>s. f_off (file_at s f))) (\<lambda>off.
          kbind (readi (f_ip ff) off (word_of_int n)) (\<lambda>(r, bs).
          kbind (if r > 0 then kmod (upd_file f (\<lambda>x. x\<lparr>f_off := f_off x + word_of_int r\<rparr>)) else kret ()) (\<lambda>_.
          kbind (iunlock (f_ip ff)) (\<lambda>_.
          kret (r, bs))))))
     else kpanic ''fileread'')"

text \<open>The most \<^verbatim>\<open>filewrite\<close> writes in one transaction.\<close>

definition max_write :: nat where
  "max_write = ((MAXOPBLOCKS - 1 - 1 - 2) div 2) * 512"

function filewrite_loop :: "nat \<Rightarrow> nat \<Rightarrow> uchar list \<Rightarrow> (bool, 'z fstate_scheme) kernel" where
  "filewrite_loop f ip src s =
     (if src = [] then Ret True s
      else let n1 = min (length src) max_write in
        kbind begin_op (\<lambda>_.
        kbind (ilock ip) (\<lambda>_.
        kbind (kget (\<lambda>s. f_off (file_at s f))) (\<lambda>off.
        kbind (writei ip (take n1 src) off) (\<lambda>r.
        kbind (if r > 0 then kmod (upd_file f (\<lambda>x. x\<lparr>f_off := f_off x + word_of_int r\<rparr>)) else kret ()) (\<lambda>_.
        kbind (iunlock ip) (\<lambda>_.
        kbind end_op (\<lambda>_.
        if r < 0 then kret False
        else if r \<noteq> int n1 then kpanic ''short filewrite''
        else filewrite_loop f ip (drop n1 src)))))))) s)"
  by pat_completeness auto
termination
  by (relation "measure (\<lambda>(f, ip, src, s). length src)") (auto simp: max_write_def MAXOPBLOCKS_def)

declare filewrite_loop.simps [simp del]

definition filewrite :: "nat \<Rightarrow> uchar list \<Rightarrow> (int, 'z fstate_scheme) kernel" where
  "filewrite f src =
     kbind (kget (\<lambda>s. file_at s f)) (\<lambda>ff.
     if \<not> f_writable ff then kret (- 1)
     else if f_type ff = FD_PIPE then pipewrite (f_pipe ff) src
     else if f_type ff = FD_INODE
     then kbind (filewrite_loop f (f_ip ff) src) (\<lambda>b. kret (if b then int (length src) else - 1))
     else kpanic ''filewrite'')"

end
