(* ===== verification/Xv6_Life.thy ===== *)
theory Xv6_Life
  imports Xv6_File
begin

text \<open>
  The life of a process: \<^verbatim>\<open>userinit\<close>, \<^verbatim>\<open>growproc\<close>, \<^verbatim>\<open>fork\<close>, \<^verbatim>\<open>exit\<close> and \<^verbatim>\<open>forkret\<close> of \<^verbatim>\<open>proc.c\<close>, \<^verbatim>\<open>loaduvm\<close> of \<^verbatim>\<open>vm.c\<close>
  and \<^verbatim>\<open>exec.c\<close>. A trap frame is a structure in memory at the address \<^verbatim>\<open>p->tf\<close>.
\<close>

subsection \<open>The trap frame\<close>

definition TF_eax :: uint where "TF_eax = 28"
definition TF_es :: uint where "TF_es = 40"
definition TF_ds :: uint where "TF_ds = 44"
definition TF_trapno :: uint where "TF_trapno = 48"
definition TF_err :: uint where "TF_err = 52"
definition TF_eip :: uint where "TF_eip = 56"
definition TF_cs :: uint where "TF_cs = 60"
definition TF_eflags :: uint where "TF_eflags = 64"
definition TF_esp :: uint where "TF_esp = 68"
definition TF_ss :: uint where "TF_ss = 72"

definition tf_set :: "uint \<Rightarrow> uint \<Rightarrow> uint \<Rightarrow> (unit, 'z mach_scheme) kernel" where
  "tf_set tf k v = kmod (\<lambda>s. s\<lparr>mem := write32 (mem s) (tf + k) v\<rparr>)"

definition tf_set16 :: "uint \<Rightarrow> uint \<Rightarrow> ushort \<Rightarrow> (unit, 'z mach_scheme) kernel" where
  "tf_set16 tf k v = kmod (\<lambda>s. s\<lparr>mem := write16 (mem s) (tf + k) v\<rparr>)"

text \<open>Segment selectors: \<^verbatim>\<open>(SEG_UCODE << 3) | DPL_USER\<close> and \<^verbatim>\<open>(SEG_UDATA << 3) | DPL_USER\<close>.\<close>

definition UCODE :: ushort where "UCODE = push_bit 3 3 OR 3"
definition UDATA :: ushort where "UDATA = push_bit 3 4 OR 3"

subsection \<open>The first process\<close>

definition initcode_name :: "nat \<Rightarrow> uchar" where
  "initcode_name k = (if k < 8 then [105, 110, 105, 116, 99, 111, 100, 101] ! k else 0)"

text \<open>\<open>init\<close> and \<open>isz\<close> are the address and the size of the linked program \<^verbatim>\<open>initcode.S\<close>.\<close>

definition userinit :: "policy \<Rightarrow> uint \<Rightarrow> uint \<Rightarrow> (unit, 'z fstate_scheme) kernel" where
  "userinit sc init isz =
     kbind (allocproc sc) (\<lambda>r.
     kbind (kmod (\<lambda>s. s\<lparr>initproc := r\<rparr>)) (\<lambda>_.
     case r of None \<Rightarrow> kundef ''userinit: null process''
     | Some p \<Rightarrow>
       kbind setupkvm (\<lambda>pg.
       kbind (kmod (upd_proc p (\<lambda>x. x\<lparr>p_pgdir := pg\<rparr>))) (\<lambda>_.
       if pg = 0 then kpanic ''userinit: out of memory?''
       else kbind (inituvm pg init isz) (\<lambda>_.
       kbind (kmod (upd_proc p (\<lambda>x. x\<lparr>p_sz := PGSIZE\<rparr>))) (\<lambda>_.
       kbind (kget (\<lambda>s. p_tf (proc_at s p))) (\<lambda>tf.
       kbind (kmod (\<lambda>s. s\<lparr>mem := memset (mem s) tf 0 76\<rparr>)) (\<lambda>_.
       kbind (tf_set16 tf TF_cs UCODE) (\<lambda>_.
       kbind (tf_set16 tf TF_ds UDATA) (\<lambda>_.
       kbind (tf_set16 tf TF_es UDATA) (\<lambda>_.
       kbind (tf_set16 tf TF_ss UDATA) (\<lambda>_.
       kbind (tf_set tf TF_eflags 0x200) (\<lambda>_.
       kbind (tf_set tf TF_esp PGSIZE) (\<lambda>_.
       kbind (tf_set tf TF_eip 0) (\<lambda>_.
       kbind (kmod (upd_proc p (\<lambda>x. x\<lparr>p_name := safestrcpy (p_name x) initcode_name 16\<rparr>))) (\<lambda>_.
       kbind (namei [SLASH]) (\<lambda>ip.
       kbind (kmod (upd_proc p (\<lambda>x. x\<lparr>p_cwd := ip\<rparr>))) (\<lambda>_.
       kmod (upd_proc p (\<lambda>x. x\<lparr>p_state := RUNNABLE\<rparr>))))))))))))))))))))"

subsection \<open>Growing, forking, exiting\<close>

definition growproc :: "int \<Rightarrow> (int, 'z ptab_scheme) kernel" where
  "growproc n =
     kbind curproc (\<lambda>p.
     kbind (kget (\<lambda>s. (p_pgdir (proc_at s p), p_sz (proc_at s p)))) (\<lambda>(pgdir, sz).
     kbind (if n > 0 then kbind (allocuvm pgdir sz (sz + word_of_int n)) (\<lambda>r. kret (r, r = 0))
            else if n < 0 then kbind (deallocuvm pgdir sz (sz + word_of_int n)) (\<lambda>r. kret (r, r = 0))
            else kret (sz, False)) (\<lambda>(sz', bad).
     if bad then kret (- 1)
     else kbind (kmod (upd_proc p (\<lambda>x. x\<lparr>p_sz := sz'\<rparr>))) (\<lambda>_.
          kbind (switchuvm (Some p)) (\<lambda>_.
          kret 0)))))"

definition fork_file :: "nat \<Rightarrow> nat \<Rightarrow> nat \<Rightarrow> (unit, 'z fstate_scheme) kernel" where
  "fork_file p np fd =
     kbind (kget (\<lambda>s. p_ofile (proc_at s p) ! fd)) (\<lambda>f.
     case f of None \<Rightarrow> kret ()
     | Some f \<Rightarrow> kbind (filedup f) (\<lambda>f'. kmod (upd_proc np (\<lambda>x. x\<lparr>p_ofile := (p_ofile x)[fd := Some f']\<rparr>))))"

definition fork :: "policy \<Rightarrow> (int, 'z fstate_scheme) kernel" where
  "fork sc =
     kbind curproc (\<lambda>p.
     kbind (allocproc sc) (\<lambda>r.
     case r of None \<Rightarrow> kret (- 1)
     | Some np \<Rightarrow>
       kbind (kget (\<lambda>s. proc_at s p)) (\<lambda>cur.
       kbind (copyuvm (p_pgdir cur) (p_sz cur)) (\<lambda>pg.
       kbind (kmod (upd_proc np (\<lambda>x. x\<lparr>p_pgdir := pg\<rparr>))) (\<lambda>_.
       if pg = 0
       then kbind (kget (\<lambda>s. p_kstack (proc_at s np))) (\<lambda>ks.
            kbind (kfree ks) (\<lambda>_.
            kbind (kmod (upd_proc np (\<lambda>x. x\<lparr>p_kstack := 0, p_state := UNUSED\<rparr>))) (\<lambda>_.
            kret (- 1))))
       else kbind (kmod (upd_proc np (\<lambda>x. x\<lparr>p_sz := p_sz cur, p_parent := Some p\<rparr>))) (\<lambda>_.
            kbind (kget (\<lambda>s. p_tf (proc_at s np))) (\<lambda>tf.
            kbind (kmod (\<lambda>s. s\<lparr>mem := memmove (mem s) tf (p_tf cur) 76\<rparr>)) (\<lambda>_.
            kbind (tf_set tf TF_eax 0) (\<lambda>_.
            kbind (kfor [0..<NOFILE] (fork_file p np)) (\<lambda>_.
            case p_cwd cur of None \<Rightarrow> kundef ''fork: null cwd''
            | Some cwd \<Rightarrow>
              kbind (idup cwd) (\<lambda>ip.
              kbind (kmod (upd_proc np (\<lambda>x. x\<lparr>p_cwd := Some ip\<rparr>))) (\<lambda>_.
              kbind (kmod (upd_proc np (\<lambda>x. x\<lparr>p_name := safestrcpy (p_name x) (p_name cur) 16\<rparr>))) (\<lambda>_.
              kbind (kget (\<lambda>s. p_pid (proc_at s np))) (\<lambda>pid.
              kbind (kmod (upd_proc np (\<lambda>x. x\<lparr>p_state := RUNNABLE\<rparr>))) (\<lambda>_.
              kret pid)))))))))))))))"

definition exit_file :: "nat \<Rightarrow> nat \<Rightarrow> (unit, 'z fstate_scheme) kernel" where
  "exit_file p fd =
     kbind (kget (\<lambda>s. p_ofile (proc_at s p) ! fd)) (\<lambda>f.
     case f of None \<Rightarrow> kret ()
     | Some f \<Rightarrow> kbind (fileclose f) (\<lambda>_. kmod (upd_proc p (\<lambda>x. x\<lparr>p_ofile := (p_ofile x)[fd := None]\<rparr>))))"

text \<open>\<^verbatim>\<open>exit\<close>, up to the switch to another process; the process never runs again.\<close>

definition exit :: "policy \<Rightarrow> (unit, 'z fstate_scheme) kernel" where
  "exit sc =
     kbind curproc (\<lambda>p.
     kbind (kget initproc) (\<lambda>ini.
     if ini = Some p then kpanic ''init exiting''
     else kbind (kfor [0..<NOFILE] (exit_file p)) (\<lambda>_.
          kbind begin_op (\<lambda>_.
          kbind (kget (\<lambda>s. p_cwd (proc_at s p))) (\<lambda>cwd.
          case cwd of None \<Rightarrow> kundef ''exit: null cwd''
          | Some ip \<Rightarrow>
            kbind (iput ip) (\<lambda>_.
            kbind end_op (\<lambda>_.
            kbind (kmod (upd_proc p (\<lambda>x. x\<lparr>p_cwd := None\<rparr>))) (\<lambda>_.
            exit_locked sc))))))))"

text \<open>\<open>first\<close> is the static variable; the result is its new value.\<close>

definition forkret :: "bool \<Rightarrow> (bool, 'z fstate_scheme) kernel" where
  "forkret first =
     (if first then kbind (iinit ROOTDEV) (\<lambda>_. kbind (initlog ROOTDEV) (\<lambda>_. kret False)) else kret False)"

subsection \<open>Loading a program\<close>

primrec loaduvm_loop :: "nat list \<Rightarrow> uint \<Rightarrow> uint \<Rightarrow> nat \<Rightarrow> uint \<Rightarrow> uint \<Rightarrow> (int, 'z istate_scheme) kernel" where
  "loaduvm_loop [] pgdir addr ip offs sz = kret 0"
| "loaduvm_loop (i # is) pgdir addr ip offs sz =
     kbind (walkpgdir pgdir (addr + of_nat i) False) (\<lambda>pte.
     if pte = 0 then kpanic ''loaduvm: address should exist''
     else kbind (kget (\<lambda>s. PTE_ADDR (read32 (mem s) pte))) (\<lambda>pa.
     let n = (if sz - of_nat i < PGSIZE then sz - of_nat i else PGSIZE) in
     kbind (readi ip (offs + of_nat i) n) (\<lambda>(r, bs).
     kbind (kmod (\<lambda>s. s\<lparr>mem := write_bytes (mem s) (P2V pa) bs\<rparr>)) (\<lambda>_.
     if word_of_int r \<noteq> n then kret (- 1) else loaduvm_loop is pgdir addr ip offs sz))))"

definition loaduvm :: "uint \<Rightarrow> uint \<Rightarrow> nat \<Rightarrow> uint \<Rightarrow> uint \<Rightarrow> (int, 'z istate_scheme) kernel" where
  "loaduvm pgdir addr ip offs sz =
     (if addr mod PGSIZE \<noteq> 0 then kpanic ''loaduvm: addr must be page aligned''
      else loaduvm_loop (map (\<lambda>k. 4096 * k) [0..<(unat sz + 4095) div 4096]) pgdir addr ip offs sz)"

definition ELF_MAGIC :: uint where "ELF_MAGIC = 0x464C457F"

text \<open>Fields of \<^verbatim>\<open>struct elfhdr\<close> (52 bytes) and \<^verbatim>\<open>struct proghdr\<close> (32 bytes).\<close>

definition elf_entry :: "uchar list \<Rightarrow> uint" where "elf_entry h = get32 h 24"
definition elf_phoff :: "uchar list \<Rightarrow> uint" where "elf_phoff h = get32 h 28"
definition elf_phnum :: "uchar list \<Rightarrow> nat" where "elf_phnum h = unat (get16 h 44)"

text \<open>The loop over the program headers; \<open>None\<close> is the jump to \<^verbatim>\<open>bad\<close>.\<close>

primrec exec_load :: "nat \<Rightarrow> uint \<Rightarrow> nat \<Rightarrow> uint \<Rightarrow> uint \<Rightarrow> (uint option, 'z istate_scheme) kernel" where
  "exec_load 0 off ip pgdir sz = kret (Some sz)"
| "exec_load (Suc k) off ip pgdir sz =
     kbind (readi ip off 32) (\<lambda>(r, ph).
     if r \<noteq> 32 then kret None
     else let type = get32 ph 0; poff = get32 ph 4; vaddr = get32 ph 8; filesz = get32 ph 16; memsz = get32 ph 20 in
     if type \<noteq> 1 then exec_load k (off + 32) ip pgdir sz
     else if memsz < filesz then kret None
     else if vaddr + memsz < vaddr then kret None
     else kbind (allocuvm pgdir sz (vaddr + memsz)) (\<lambda>sz.
     if sz = 0 then kret None
     else if vaddr mod PGSIZE \<noteq> 0 then kret None
     else kbind (loaduvm pgdir vaddr ip poff filesz) (\<lambda>r.
     if r < 0 then kret None else exec_load k (off + 32) ip pgdir sz)))"

text \<open>The argument strings; the result has the stack pointer and the addresses of the strings.\<close>

primrec exec_args :: "uchar list list \<Rightarrow> nat \<Rightarrow> uint \<Rightarrow> uint \<Rightarrow> ((uint \<times> uint list) option, 'z mach_scheme) kernel" where
  "exec_args [] argc pgdir sp = kret (Some (sp, []))"
| "exec_args (a # argv) argc pgdir sp =
     (if argc \<ge> MAXARG then kret None
      else let sp = (sp - (of_nat (length a) + 1)) AND NOT 3 in
           kbind (copyout pgdir sp (a @ [0])) (\<lambda>r.
           if r < 0 then kret None
           else kbind (exec_args argv (Suc argc) pgdir sp) (\<lambda>r'.
                kret (map_option (\<lambda>(sp', as). (sp', sp # as)) r'))))"

definition after_slash :: "uchar list \<Rightarrow> uchar list" where
  "after_slash path = rev (takeWhile (\<lambda>c. c \<noteq> SLASH) (rev path))"

definition str_of :: "uchar list \<Rightarrow> nat \<Rightarrow> uchar" where
  "str_of cs k = (if k < length cs then cs ! k else 0)"

definition cprintf :: "uchar list \<Rightarrow> carg list \<Rightarrow> (unit, 'z istate_scheme) kernel" where
  "cprintf fmt args =
     (case cprintf_chars fmt args of
        None \<Rightarrow> kundef ''cprintf: missing argument''
      | Some cs \<Rightarrow> kfor cs (\<lambda>c. consputc (Word.uint c)))"

definition exec_bad :: "uint \<Rightarrow> nat option \<Rightarrow> (int, 'z istate_scheme) kernel" where
  "exec_bad pgdir ip =
     kbind (kwhen (pgdir \<noteq> 0) (freevm pgdir)) (\<lambda>_.
     kbind (case ip of None \<Rightarrow> kret () | Some i \<Rightarrow> kbind (iunlockput i) (\<lambda>_. end_op)) (\<lambda>_.
     kret (- 1)))"

text \<open>From the two stack pages to the end; \<open>entry\<close> is the entry point in the header.\<close>

definition exec_stack :: "uchar list \<Rightarrow> uchar list list \<Rightarrow> uint \<Rightarrow> uint \<Rightarrow> uint \<Rightarrow> (int, 'z istate_scheme) kernel" where
  "exec_stack path argv pgdir sz0 entry =
     kbind (allocuvm pgdir (PGROUNDUP sz0) (PGROUNDUP sz0 + 2 * PGSIZE)) (\<lambda>sz.
     if sz = 0 then exec_bad pgdir None
     else kbind (clearpteu pgdir (sz - 2 * PGSIZE)) (\<lambda>_.
     kbind (exec_args argv 0 pgdir sz) (\<lambda>r.
     case r of None \<Rightarrow> exec_bad pgdir None
     | Some (sp, as) \<Rightarrow>
       let argc = length argv;
           ustack = [0xffffffff, of_nat argc, sp - (of_nat argc + 1) * 4] @ as @ [0];
           sp' = sp - (3 + of_nat argc + 1) * 4 in
       kbind (copyout pgdir sp' (concat (map bytes32 ustack))) (\<lambda>r.
       if r < 0 then exec_bad pgdir None
       else kbind curproc (\<lambda>p.
            kbind (kmod (upd_proc p (\<lambda>x. x\<lparr>p_name := safestrcpy (p_name x) (str_of (after_slash path)) 16\<rparr>))) (\<lambda>_.
            kbind (kget (\<lambda>s. (p_pgdir (proc_at s p), p_tf (proc_at s p)))) (\<lambda>(oldpgdir, tf).
            kbind (kmod (upd_proc p (\<lambda>x. x\<lparr>p_pgdir := pgdir, p_sz := sz\<rparr>))) (\<lambda>_.
            kbind (tf_set tf TF_eip entry) (\<lambda>_.
            kbind (tf_set tf TF_esp sp') (\<lambda>_.
            kbind (switchuvm (Some p)) (\<lambda>_.
            kbind (freevm oldpgdir) (\<lambda>_.
            kret 0))))))))))))"

definition exec :: "uchar list \<Rightarrow> uchar list list \<Rightarrow> (int, 'z istate_scheme) kernel" where
  "exec path argv =
     kbind begin_op (\<lambda>_.
     kbind (namei path) (\<lambda>r.
     case r of
       None \<Rightarrow> kbind end_op (\<lambda>_. kbind (cprintf [101, 120, 101, 99, 58, 32, 102, 97, 105, 108, 10] []) (\<lambda>_. kret (- 1)))
     | Some ip \<Rightarrow>
       kbind (ilock ip) (\<lambda>_.
       kbind (readi ip 0 52) (\<lambda>(r, elf).
       if r \<noteq> 52 then exec_bad 0 (Some ip)
       else if get32 elf 0 \<noteq> ELF_MAGIC then exec_bad 0 (Some ip)
       else kbind setupkvm (\<lambda>pgdir.
       if pgdir = 0 then exec_bad 0 (Some ip)
       else kbind (exec_load (elf_phnum elf) (elf_phoff elf) ip pgdir 0) (\<lambda>r.
       case r of None \<Rightarrow> exec_bad pgdir (Some ip)
       | Some sz \<Rightarrow>
         kbind (iunlockput ip) (\<lambda>_.
         kbind end_op (\<lambda>_.
         exec_stack path argv pgdir sz (elf_entry elf)))))))))"

end
