(* ===== verification/Xv6_Syscall.thy ===== *)
theory Xv6_Syscall
  imports Xv6_Life
begin

text \<open>
  System calls: argument fetching and dispatch (\<^verbatim>\<open>syscall.c\<close>), the process calls (\<^verbatim>\<open>sysproc.c\<close>) and the
  file calls (\<^verbatim>\<open>sysfile.c\<close>). The kernel reads and writes the memory of the current process through the
  page table that is loaded; an access that the page table does not allow traps in the kernel, and
  the trap handler panics. A call that fails with \<^verbatim>\<open>-1\<close> before it has a value returns \<open>None\<close>.
\<close>

subsection \<open>User memory\<close>

text \<open>
  The translation the processor makes of an access in kernel mode: the kernel's address of the byte.
  The kernel sets \<^verbatim>\<open>CR0_WP\<close>, so that a write needs \<^verbatim>\<open>PTE_W\<close>.
\<close>

definition mmu :: "memory \<Rightarrow> uint \<Rightarrow> bool \<Rightarrow> uint \<Rightarrow> uint option" where
  "mmu m pgdir write va =
     (let pde = read32 m (pde_addr pgdir va); pte = read32 m (P2V (PTE_ADDR pde) + 4 * PTX va)
      in if pde AND PTE_P = 0 \<or> pte AND PTE_P = 0 then None
         else if write \<and> (pde AND PTE_W = 0 \<or> pte AND PTE_W = 0) then None
         else Some (P2V (PTE_ADDR pte) + (va AND 0xFFF)))"

primrec user_load :: "nat \<Rightarrow> uint \<Rightarrow> (uchar list, 'z ptab_scheme) kernel" where
  "user_load 0 va = kret []"
| "user_load (Suc n) va =
     kbind curproc (\<lambda>p.
     kbind (kget (\<lambda>s. map_option (mem s) (mmu (mem s) (p_pgdir (proc_at s p)) False va))) (\<lambda>r.
     case r of None \<Rightarrow> kpanic ''trap''
     | Some c \<Rightarrow> kbind (user_load n (va + 1)) (\<lambda>cs. kret (c # cs))))"

primrec user_store :: "uchar list \<Rightarrow> uint \<Rightarrow> (unit, 'z ptab_scheme) kernel" where
  "user_store [] va = kret ()"
| "user_store (c # cs) va =
     kbind curproc (\<lambda>p.
     kbind (kget (\<lambda>s. mmu (mem s) (p_pgdir (proc_at s p)) True va)) (\<lambda>r.
     case r of None \<Rightarrow> kpanic ''trap''
     | Some a \<Rightarrow> kbind (kmod (\<lambda>s. s\<lparr>mem := (mem s)(a := c)\<rparr>)) (\<lambda>_. user_store cs (va + 1))))"

definition store_int :: "uint \<Rightarrow> int \<Rightarrow> (unit, 'z ptab_scheme) kernel" where
  "store_int va x = user_store (bytes32 (word_of_int x)) va"

subsection \<open>Arguments\<close>

definition fetchint :: "uint \<Rightarrow> (uint option, 'z ptab_scheme) kernel" where
  "fetchint addr =
     kbind curproc (\<lambda>p.
     kbind (kget (\<lambda>s. p_sz (proc_at s p))) (\<lambda>sz.
     if addr \<ge> sz \<or> addr + 4 > sz then kret None
     else kbind (user_load 4 addr) (\<lambda>bs. kret (Some (get32 bs 0)))))"

text \<open>The loop of \<^verbatim>\<open>fetchstr\<close> with \<open>n\<close> bytes up to the end of the process's memory: the string, if it ends there.\<close>

primrec fetchstr_loop :: "nat \<Rightarrow> uint \<Rightarrow> (uchar list option, 'z ptab_scheme) kernel" where
  "fetchstr_loop 0 va = kret None"
| "fetchstr_loop (Suc n) va =
     kbind (user_load 1 va) (\<lambda>bs.
     if hd bs = 0 then kret (Some [])
     else kbind (fetchstr_loop n (va + 1)) (\<lambda>r. kret (map_option (\<lambda>cs. hd bs # cs) r)))"

definition fetchstr :: "uint \<Rightarrow> (uchar list option, 'z ptab_scheme) kernel" where
  "fetchstr addr =
     kbind curproc (\<lambda>p.
     kbind (kget (\<lambda>s. p_sz (proc_at s p))) (\<lambda>sz.
     if addr \<ge> sz then kret None
     else fetchstr_loop (unat sz - unat addr) addr))"

definition argint :: "nat \<Rightarrow> (uint option, 'z ptab_scheme) kernel" where
  "argint n =
     kbind curproc (\<lambda>p.
     kbind (kget (\<lambda>s. read32 (mem s) (p_tf (proc_at s p) + TF_esp))) (\<lambda>esp.
     fetchint (esp + 4 + 4 * of_nat n)))"

definition argptr :: "nat \<Rightarrow> int \<Rightarrow> (uint option, 'z ptab_scheme) kernel" where
  "argptr n sz0 =
     kbind (argint n) (\<lambda>r.
     case r of None \<Rightarrow> kret None
     | Some i \<Rightarrow>
       kbind curproc (\<lambda>p.
       kbind (kget (\<lambda>s. p_sz (proc_at s p))) (\<lambda>sz.
       if sz0 < 0 \<or> i \<ge> sz \<or> i + word_of_int sz0 > sz then kret None else kret (Some i))))"

definition argstr :: "nat \<Rightarrow> (uchar list option, 'z ptab_scheme) kernel" where
  "argstr n = kbind (argint n) (\<lambda>r. case r of None \<Rightarrow> kret None | Some addr \<Rightarrow> fetchstr addr)"

text \<open>Continue with the value, or return \<^verbatim>\<open>-1\<close>.\<close>

definition kor :: "('a option, 's) kernel \<Rightarrow> ('a \<Rightarrow> (int, 's) kernel) \<Rightarrow> (int, 's) kernel" where
  "kor f g = kbind f (\<lambda>r. case r of None \<Rightarrow> kret (- 1) | Some x \<Rightarrow> g x)"

subsection \<open>Process calls\<close>

definition sys_kill :: "(int, 'z ptab_scheme) kernel" where
  "sys_kill = kor (argint 0) (\<lambda>pid. kill (sint pid))"

definition sys_getpid :: "(int, 'z ptab_scheme) kernel" where
  "sys_getpid = kbind curproc (\<lambda>p. kget (\<lambda>s. p_pid (proc_at s p)))"

definition sys_sbrk :: "(int, 'z ptab_scheme) kernel" where
  "sys_sbrk =
     kor (argint 0) (\<lambda>n.
     kbind curproc (\<lambda>p.
     kbind (kget (\<lambda>s. p_sz (proc_at s p))) (\<lambda>addr.
     kbind (growproc (sint n)) (\<lambda>r.
     if r < 0 then kret (- 1) else kret (sint addr)))))"

text \<open>
  The loop of \<^verbatim>\<open>sys_sleep\<close>, entered again whenever the process is woken; the comparison of a \<^verbatim>\<open>uint\<close> with an
  \<^verbatim>\<open>int\<close> is one of \<^verbatim>\<open>uint\<close>s.
\<close>

definition sys_sleep_loop :: "uint \<Rightarrow> uint \<Rightarrow> (int, 'z ptab_scheme) kernel" where
  "sys_sleep_loop ticks0 n s =
     (if ticks s - ticks0 < n
      then kbind curproc (\<lambda>p s. if p_killed (proc_at s p) \<noteq> 0 then Ret (- 1) s else Sleep Chan_ticks s) s
      else Ret 0 s)"

definition sys_sleep :: "(int, 'z ptab_scheme) kernel" where
  "sys_sleep = kor (argint 0) (\<lambda>n. kbind (kget ticks) (\<lambda>ticks0. sys_sleep_loop ticks0 n))"

definition sys_uptime :: "(int, 'z ptab_scheme) kernel" where
  "sys_uptime = kget (\<lambda>s. sint (ticks s))"

definition sys_waitx :: "(int, 'z ptab_scheme) kernel" where
  "sys_waitx =
     kor (argptr 0 4) (\<lambda>wtime.
     kor (argptr 1 4) (\<lambda>rtime.
     kbind waitx (\<lambda>(pid, times).
     case times of None \<Rightarrow> kret pid
     | Some (w, r) \<Rightarrow> kbind (store_int rtime r) (\<lambda>_. kbind (store_int wtime w) (\<lambda>_. kret pid)))))"

definition sys_set_priority :: "(int, 'z ptab_scheme) kernel" where
  "sys_set_priority =
     kor (argint 0) (\<lambda>pid. kor (argint 1) (\<lambda>new_priority. set_priority (sint pid) (sint new_priority)))"

definition sys_getpinfo :: "(int, 'z ptab_scheme) kernel" where
  "sys_getpinfo =
     kor (argint 0) (\<lambda>pid.
     kor (argptr 1 36) (\<lambda>pp.
     kbind (getpinfo (sint pid)) (\<lambda>(r, info).
     case info of None \<Rightarrow> kret r
     | Some st \<Rightarrow>
       kbind (store_int pp (st_pid st)) (\<lambda>_.
       kbind (store_int (pp + 8) (st_num_run st)) (\<lambda>_.
       kbind (store_int (pp + 12) (st_current_queue st)) (\<lambda>_.
       kbind (store_int (pp + 4) (st_runtime st)) (\<lambda>_.
       kbind (kfor [0..<5] (\<lambda>i. store_int (pp + 16 + 4 * of_nat i) (st_ticks st ! i))) (\<lambda>_.
       kret r))))))))"

subsection \<open>File descriptors\<close>

definition argfd :: "nat \<Rightarrow> ((nat \<times> nat) option, 'z ptab_scheme) kernel" where
  "argfd n =
     kbind (argint n) (\<lambda>r.
     case r of None \<Rightarrow> kret None
     | Some fd \<Rightarrow>
       if sint fd < 0 \<or> sint fd \<ge> int NOFILE then kret None
       else kbind curproc (\<lambda>p.
            kbind (kget (\<lambda>s. p_ofile (proc_at s p) ! nat (sint fd))) (\<lambda>f.
            kret (map_option (\<lambda>f. (nat (sint fd), f)) f))))"

definition fdalloc :: "nat \<Rightarrow> (nat option, 'z ptab_scheme) kernel" where
  "fdalloc f =
     kbind curproc (\<lambda>p s.
       case find (\<lambda>fd. p_ofile (proc_at s p) ! fd = None) [0..<NOFILE] of
         None \<Rightarrow> Ret None s
       | Some fd \<Rightarrow> Ret (Some fd) (upd_proc p (\<lambda>x. x\<lparr>p_ofile := (p_ofile x)[fd := Some f]\<rparr>) s))"

definition clear_fd :: "nat \<Rightarrow> (unit, 'z ptab_scheme) kernel" where
  "clear_fd fd = kbind curproc (\<lambda>p. kmod (upd_proc p (\<lambda>x. x\<lparr>p_ofile := (p_ofile x)[fd := None]\<rparr>)))"

definition sys_dup :: "(int, 'z fstate_scheme) kernel" where
  "sys_dup =
     kor (argfd 0) (\<lambda>(_, f).
     kor (fdalloc f) (\<lambda>fd.
     kbind (filedup f) (\<lambda>_. kret (int fd))))"

definition sys_read :: "(int, 'z fstate_scheme) kernel" where
  "sys_read =
     kor (argfd 0) (\<lambda>(_, f).
     kor (argint 2) (\<lambda>n.
     kor (argptr 1 (sint n)) (\<lambda>p.
     kbind (fileread f (sint n)) (\<lambda>(r, bs).
     kbind (user_store bs p) (\<lambda>_. kret r)))))"

definition sys_write :: "(int, 'z fstate_scheme) kernel" where
  "sys_write =
     kor (argfd 0) (\<lambda>(_, f).
     kor (argint 2) (\<lambda>n.
     kor (argptr 1 (sint n)) (\<lambda>p.
     kbind (user_load (unat n) p) (\<lambda>src. filewrite f src))))"

definition sys_close :: "(int, 'z fstate_scheme) kernel" where
  "sys_close =
     kor (argfd 0) (\<lambda>(fd, f).
     kbind (clear_fd fd) (\<lambda>_.
     kbind (fileclose f) (\<lambda>_. kret 0)))"

text \<open>The fields of \<^verbatim>\<open>struct stat\<close> are at 0, 4, 8, 12 and 16.\<close>

definition sys_fstat :: "(int, 'z fstate_scheme) kernel" where
  "sys_fstat =
     kor (argfd 0) (\<lambda>(_, f).
     kor (argptr 1 20) (\<lambda>st.
     kbind (filestat f) (\<lambda>(r, info).
     case info of None \<Rightarrow> kret r
     | Some i \<Rightarrow>
       kbind (user_store (bytes32 (st_dev i)) (st + 4)) (\<lambda>_.
       kbind (user_store (bytes32 (st_ino i)) (st + 8)) (\<lambda>_.
       kbind (user_store (bytes16 (st_type i)) st) (\<lambda>_.
       kbind (user_store (bytes16 (st_nlink i)) (st + 12)) (\<lambda>_.
       kbind (user_store (bytes32 (st_size i)) (st + 16)) (\<lambda>_.
       kret r))))))))"

subsection \<open>Links\<close>

definition upd_nlink :: "nat \<Rightarrow> ushort \<Rightarrow> (unit, 'z istate_scheme) kernel" where
  "upd_nlink ip d = kbind (kmod (upd_inode ip (\<lambda>p. p\<lparr>i_nlink := i_nlink p + d\<rparr>))) (\<lambda>_. iupdate ip)"

definition sys_link_bad :: "nat \<Rightarrow> (int, 'z istate_scheme) kernel" where
  "sys_link_bad ip =
     kbind (ilock ip) (\<lambda>_.
     kbind (upd_nlink ip (- 1)) (\<lambda>_.
     kbind (iunlockput ip) (\<lambda>_.
     kbind end_op (\<lambda>_. kret (- 1)))))"

definition sys_link :: "(int, 'z istate_scheme) kernel" where
  "sys_link =
     kor (argstr 0) (\<lambda>old.
     kor (argstr 1) (\<lambda>new.
     kbind begin_op (\<lambda>_.
     kbind (namei old) (\<lambda>r.
     case r of None \<Rightarrow> kbind end_op (\<lambda>_. kret (- 1))
     | Some ip \<Rightarrow>
       kbind (ilock ip) (\<lambda>_.
       kbind (kget (\<lambda>s. i_type (inode_at s ip))) (\<lambda>t.
       if t = T_DIR then kbind (iunlockput ip) (\<lambda>_. kbind end_op (\<lambda>_. kret (- 1)))
       else kbind (upd_nlink ip 1) (\<lambda>_.
       kbind (iunlock ip) (\<lambda>_.
       kbind (nameiparent new) (\<lambda>r.
       case r of None \<Rightarrow> sys_link_bad ip
       | Some (dp, name) \<Rightarrow>
         kbind (ilock dp) (\<lambda>_.
         kbind (kget (\<lambda>s. (i_dev (inode_at s dp) \<noteq> i_dev (inode_at s ip), i_inum (inode_at s ip)))) (\<lambda>(differ, inum).
         kbind (if differ then kret (- 1) else dirlink dp name inum) (\<lambda>l.
         if l < 0 then kbind (iunlockput dp) (\<lambda>_. sys_link_bad ip)
         else kbind (iunlockput dp) (\<lambda>_.
              kbind (iput ip) (\<lambda>_.
              kbind end_op (\<lambda>_. kret 0)))))))))))))))"

primrec isdirempty_loop :: "nat list \<Rightarrow> nat \<Rightarrow> (bool, 'z istate_scheme) kernel" where
  "isdirempty_loop [] dp = kret True"
| "isdirempty_loop (off # offs) dp =
     kbind (readi dp (of_nat off) 16) (\<lambda>(r, de).
     if r \<noteq> 16 then kpanic ''isdirempty: readi''
     else if de_inum de \<noteq> 0 then kret False
     else isdirempty_loop offs dp)"

definition isdirempty :: "nat \<Rightarrow> (bool, 'z istate_scheme) kernel" where
  "isdirempty dp = kbind (kget (\<lambda>s. i_size (inode_at s dp))) (\<lambda>sz. isdirempty_loop (drop 2 (dir_offs sz)) dp)"

definition dot :: "nat \<Rightarrow> uchar" where "dot = str_of [46]"
definition dotdot :: "nat \<Rightarrow> uchar" where "dotdot = str_of [46, 46]"

definition sys_unlink_bad :: "nat \<Rightarrow> (int, 'z istate_scheme) kernel" where
  "sys_unlink_bad dp = kbind (iunlockput dp) (\<lambda>_. kbind end_op (\<lambda>_. kret (- 1)))"

definition sys_unlink :: "(int, 'z istate_scheme) kernel" where
  "sys_unlink =
     kor (argstr 0) (\<lambda>path.
     kbind begin_op (\<lambda>_.
     kbind (nameiparent path) (\<lambda>r.
     case r of None \<Rightarrow> kbind end_op (\<lambda>_. kret (- 1))
     | Some (dp, name) \<Rightarrow>
       kbind (ilock dp) (\<lambda>_.
       if namecmp name dot = 0 \<or> namecmp name dotdot = 0 then sys_unlink_bad dp
       else kbind (dirlookup dp name) (\<lambda>r.
       case r of None \<Rightarrow> sys_unlink_bad dp
       | Some (ip, off) \<Rightarrow>
         kbind (ilock ip) (\<lambda>_.
         kbind (kget (\<lambda>s. inode_at s ip)) (\<lambda>p.
         if sint (i_nlink p) < 1 then kpanic ''unlink: nlink < 1''
         else kbind (if i_type p = T_DIR then isdirempty ip else kret True) (\<lambda>e.
         if \<not> e then kbind (iunlockput ip) (\<lambda>_. sys_unlink_bad dp)
         else kbind (writei dp (replicate 16 0) (of_nat off)) (\<lambda>w.
         if w \<noteq> 16 then kpanic ''unlink: writei''
         else kbind (if i_type p = T_DIR then upd_nlink dp (- 1) else kret ()) (\<lambda>_.
              kbind (iunlockput dp) (\<lambda>_.
              kbind (upd_nlink ip (- 1)) (\<lambda>_.
              kbind (iunlockput ip) (\<lambda>_.
              kbind end_op (\<lambda>_. kret 0))))))))))))))"

subsection \<open>Creating and opening\<close>

definition create :: "uchar list \<Rightarrow> ushort \<Rightarrow> ushort \<Rightarrow> ushort \<Rightarrow> (nat option, 'z istate_scheme) kernel" where
  "create path type major minor =
     kbind (nameiparent path) (\<lambda>r.
     case r of None \<Rightarrow> kret None
     | Some (dp, name) \<Rightarrow>
       kbind (ilock dp) (\<lambda>_.
       kbind (dirlookup dp name) (\<lambda>r.
       case r of
         Some (ip, _) \<Rightarrow>
           kbind (iunlockput dp) (\<lambda>_.
           kbind (ilock ip) (\<lambda>_.
           kbind (kget (\<lambda>s. i_type (inode_at s ip))) (\<lambda>t.
           if type = T_FILE \<and> t = T_FILE then kret (Some ip)
           else kbind (iunlockput ip) (\<lambda>_. kret None))))
       | None \<Rightarrow>
           kbind (kget (\<lambda>s. i_dev (inode_at s dp))) (\<lambda>dev.
           kbind (ialloc dev type) (\<lambda>ip.
           kbind (ilock ip) (\<lambda>_.
           kbind (kmod (upd_inode ip (\<lambda>p. p\<lparr>i_major := major, i_minor := minor, i_nlink := 1\<rparr>))) (\<lambda>_.
           kbind (iupdate ip) (\<lambda>_.
           kbind (kget (\<lambda>s. (i_inum (inode_at s ip), i_inum (inode_at s dp)))) (\<lambda>(inum, dinum).
           kbind (if type = T_DIR
                  then kbind (upd_nlink dp 1) (\<lambda>_.
                       kbind (dirlink ip dot inum) (\<lambda>r1.
                       if r1 < 0 then kpanic ''create dots''
                       else kbind (dirlink ip dotdot dinum) (\<lambda>r2.
                            if r2 < 0 then kpanic ''create dots'' else kret ())))
                  else kret ()) (\<lambda>_.
           kbind (dirlink dp name inum) (\<lambda>r.
           if r < 0 then kpanic ''create: dirlink''
           else kbind (iunlockput dp) (\<lambda>_. kret (Some ip)))))))))))))"

definition O_WRONLY :: uint where "O_WRONLY = 1"
definition O_RDWR :: uint where "O_RDWR = 2"
definition O_CREATE :: uint where "O_CREATE = 0x200"

text \<open>The inode \<^verbatim>\<open>sys_open\<close> opens, locked, or \<open>None\<close> after the transaction has been ended.\<close>

definition open_inode :: "uchar list \<Rightarrow> uint \<Rightarrow> (nat option, 'z istate_scheme) kernel" where
  "open_inode path omode =
     (if omode AND O_CREATE \<noteq> 0
      then kbind (create path T_FILE 0 0) (\<lambda>r.
           case r of None \<Rightarrow> kbind end_op (\<lambda>_. kret None) | Some ip \<Rightarrow> kret (Some ip))
      else kbind (namei path) (\<lambda>r.
           case r of None \<Rightarrow> kbind end_op (\<lambda>_. kret None)
           | Some ip \<Rightarrow>
             kbind (ilock ip) (\<lambda>_.
             kbind (kget (\<lambda>s. i_type (inode_at s ip))) (\<lambda>t.
             if t = T_DIR \<and> omode \<noteq> 0
             then kbind (iunlockput ip) (\<lambda>_. kbind end_op (\<lambda>_. kret None))
             else kret (Some ip)))))"

definition sys_open :: "(int, 'z fstate_scheme) kernel" where
  "sys_open =
     kor (argstr 0) (\<lambda>path.
     kor (argint 1) (\<lambda>omode.
     kbind begin_op (\<lambda>_.
     kor (open_inode path omode) (\<lambda>ip.
     kbind filealloc (\<lambda>fr.
     kbind (case fr of None \<Rightarrow> kret None
            | Some f \<Rightarrow> kbind (fdalloc f) (\<lambda>r. kret (map_option (\<lambda>fd. (f, fd)) r))) (\<lambda>r.
     case r of
       None \<Rightarrow>
         kbind (case fr of None \<Rightarrow> kret () | Some f \<Rightarrow> fileclose f) (\<lambda>_.
         kbind (iunlockput ip) (\<lambda>_.
         kbind end_op (\<lambda>_. kret (- 1))))
     | Some (f, fd) \<Rightarrow>
         kbind (iunlock ip) (\<lambda>_.
         kbind end_op (\<lambda>_.
         kbind (kmod (upd_file f (\<lambda>x. x\<lparr>f_type := FD_INODE, f_ip := ip, f_off := 0,
             f_readable := (omode AND O_WRONLY = 0),
             f_writable := (omode AND O_WRONLY \<noteq> 0 \<or> omode AND O_RDWR \<noteq> 0)\<rparr>))) (\<lambda>_.
         kret (int fd))))))))))"

definition sys_mkdir :: "(int, 'z istate_scheme) kernel" where
  "sys_mkdir =
     kbind begin_op (\<lambda>_.
     kbind (argstr 0) (\<lambda>path.
     kbind (case path of None \<Rightarrow> kret None | Some path \<Rightarrow> create path T_DIR 0 0) (\<lambda>r.
     case r of None \<Rightarrow> kbind end_op (\<lambda>_. kret (- 1))
     | Some ip \<Rightarrow> kbind (iunlockput ip) (\<lambda>_. kbind end_op (\<lambda>_. kret 0)))))"

definition sys_mknod :: "(int, 'z istate_scheme) kernel" where
  "sys_mknod =
     kbind begin_op (\<lambda>_.
     kbind (kbind (argstr 0) (\<lambda>path.
            case path of None \<Rightarrow> kret None
            | Some path \<Rightarrow>
              kbind (argint 1) (\<lambda>major.
              case major of None \<Rightarrow> kret None
              | Some major \<Rightarrow>
                kbind (argint 2) (\<lambda>minor.
                case minor of None \<Rightarrow> kret None
                | Some minor \<Rightarrow> create path T_DEV (ucast major) (ucast minor))))) (\<lambda>r.
     case r of None \<Rightarrow> kbind end_op (\<lambda>_. kret (- 1))
     | Some ip \<Rightarrow> kbind (iunlockput ip) (\<lambda>_. kbind end_op (\<lambda>_. kret 0))))"

definition sys_chdir :: "(int, 'z istate_scheme) kernel" where
  "sys_chdir =
     kbind curproc (\<lambda>cp.
     kbind begin_op (\<lambda>_.
     kbind (argstr 0) (\<lambda>path.
     kbind (case path of None \<Rightarrow> kret None | Some path \<Rightarrow> namei path) (\<lambda>r.
     case r of None \<Rightarrow> kbind end_op (\<lambda>_. kret (- 1))
     | Some ip \<Rightarrow>
       kbind (ilock ip) (\<lambda>_.
       kbind (kget (\<lambda>s. i_type (inode_at s ip))) (\<lambda>t.
       if t \<noteq> T_DIR then kbind (iunlockput ip) (\<lambda>_. kbind end_op (\<lambda>_. kret (- 1)))
       else kbind (iunlock ip) (\<lambda>_.
            kbind (kget (\<lambda>s. p_cwd (proc_at s cp))) (\<lambda>cwd.
            case cwd of None \<Rightarrow> kundef ''chdir: null cwd''
            | Some old \<Rightarrow>
              kbind (iput old) (\<lambda>_.
              kbind end_op (\<lambda>_.
              kbind (kmod (upd_proc cp (\<lambda>x. x\<lparr>p_cwd := Some ip\<rparr>))) (\<lambda>_. kret 0)))))))))))"

text \<open>The loop of \<^verbatim>\<open>sys_exec\<close> over the argument vector, from index \<open>MAXARG - n\<close> on.\<close>

primrec sys_exec_args :: "nat \<Rightarrow> uint \<Rightarrow> (uchar list list option, 'z ptab_scheme) kernel" where
  "sys_exec_args 0 uargv = kret None"
| "sys_exec_args (Suc n) uargv =
     kbind (fetchint uargv) (\<lambda>r.
     case r of None \<Rightarrow> kret None
     | Some uarg \<Rightarrow>
       if uarg = 0 then kret (Some [])
       else kbind (fetchstr uarg) (\<lambda>a.
            case a of None \<Rightarrow> kret None
            | Some a \<Rightarrow> kbind (sys_exec_args n (uargv + 4)) (\<lambda>r. kret (map_option (\<lambda>as. a # as) r))))"

definition sys_exec :: "(int, 'z istate_scheme) kernel" where
  "sys_exec =
     kor (argstr 0) (\<lambda>path.
     kor (argint 1) (\<lambda>uargv.
     kor (sys_exec_args MAXARG uargv) (\<lambda>argv. exec path argv)))"

definition sys_pipe :: "(int, 'z fstate_scheme) kernel" where
  "sys_pipe =
     kor (argptr 0 8) (\<lambda>fd.
     kor pipealloc (\<lambda>(rf, wf).
     kbind (fdalloc rf) (\<lambda>fd0.
     kbind (case fd0 of None \<Rightarrow> kret None | Some _ \<Rightarrow> fdalloc wf) (\<lambda>fd1.
     case fd1 of
       None \<Rightarrow>
         kbind (case fd0 of None \<Rightarrow> kret () | Some n \<Rightarrow> clear_fd n) (\<lambda>_.
         kbind (fileclose rf) (\<lambda>_.
         kbind (fileclose wf) (\<lambda>_. kret (- 1))))
     | Some n1 \<Rightarrow>
         kbind (store_int fd (int (the fd0))) (\<lambda>_.
         kbind (store_int (fd + 4) (int n1)) (\<lambda>_. kret 0))))))"

subsection \<open>Dispatch\<close>

text \<open>
  The table \<^verbatim>\<open>syscalls\<close>: \<open>None\<close> where it has no function. The result of a call is \<open>None\<close> for \<^verbatim>\<open>sys_exit\<close>, which does
  not return to its caller.
\<close>

definition syscalls :: "policy \<Rightarrow> int \<Rightarrow> (int option, 'z fstate_scheme) kernel option" where
  "syscalls sc num =
     map_option (\<lambda>f. if num = 2 then kbind (exit sc) (\<lambda>_. kret None) else kbind f (\<lambda>r. kret (Some r)))
       (if 1 \<le> num \<and> num < 25
        then Some ([fork sc, kret 0, wait, sys_pipe, sys_read, sys_kill, sys_exec, sys_fstat, sys_chdir, sys_dup,
           sys_getpid, sys_sbrk, sys_sleep, sys_uptime, sys_open, sys_write, sys_mknod, sys_unlink, sys_link,
           sys_mkdir, sys_close, sys_waitx, sys_set_priority, sys_getpinfo] ! nat (num - 1))
        else None)"

definition unknown_msg :: "uchar list" where
  "unknown_msg = [37, 100, 32, 37, 115, 58, 32, 117, 110, 107, 110, 111, 119, 110, 32, 115, 121, 115, 32, 99, 97,
     108, 108, 32, 37, 100, 10]"

text \<open>The result says whether control comes back to the process.\<close>

definition syscall :: "policy \<Rightarrow> (bool, 'z fstate_scheme) kernel" where
  "syscall sc =
     kbind curproc (\<lambda>p.
     kbind (kget (\<lambda>s. sint (read32 (mem s) (p_tf (proc_at s p) + TF_eax)))) (\<lambda>num.
     case syscalls sc num of
       Some f \<Rightarrow>
         kbind f (\<lambda>r.
         case r of None \<Rightarrow> kret False
         | Some x \<Rightarrow>
           kbind (kget (\<lambda>s. p_tf (proc_at s p))) (\<lambda>tf.
           kbind (tf_set tf TF_eax (word_of_int x)) (\<lambda>_. kret True)))
     | None \<Rightarrow>
         kbind (kget (\<lambda>s. proc_at s p)) (\<lambda>pr.
         kbind (cprintf unknown_msg [Num (word_of_int (p_pid pr)), Str (Some (cstr (p_name pr) 16)), Num (word_of_int num)]) (\<lambda>_.
         kbind (tf_set (p_tf pr) TF_eax (- 1)) (\<lambda>_. kret True)))))"

end
