(* ===== verification/Xv6_Trap.thy ===== *)
theory Xv6_Trap
  imports Xv6_Syscall Xv6_Kbd
begin

text \<open>
  The trap handler, \<^verbatim>\<open>trap.c\<close>, and the interrupt handlers of the keyboard and the serial port. The disk is
  the memory disk, whose interrupt handler does nothing. What the keyboard and the serial port deliver
  is an argument. The page fault address, which the code only prints, is an argument too.
\<close>

definition T_SYSCALL :: uint where "T_SYSCALL = 64"
definition T_IRQ0 :: uint where "T_IRQ0 = 32"
definition IRQ_TIMER :: uint where "IRQ_TIMER = 0"
definition IRQ_KBD :: uint where "IRQ_KBD = 1"
definition IRQ_COM1 :: uint where "IRQ_COM1 = 4"
definition IRQ_IDE :: uint where "IRQ_IDE = 14"
definition IRQ_SPURIOUS :: uint where "IRQ_SPURIOUS = 31"

text \<open>The state with the keyboard's modifier keys.\<close>

record kstate = fstate +
  kbd_shift :: uint

definition kbdintr :: "uchar list \<Rightarrow> (bool, 'z kstate_scheme) kernel" where
  "kbdintr ds s =
     (case kbd_chars ds (kbd_shift s) of (cs, sh) \<Rightarrow> consoleintr cs (s\<lparr>kbd_shift := sh\<rparr>))"

definition uartintr :: "uchar list \<Rightarrow> (bool, 'z kstate_scheme) kernel" where
  "uartintr cs = consoleintr (map Word.uint cs)"

datatype device_input = No_input | Keys "uchar list" | Serial "uchar list"

text \<open>Whether control returns to the interrupted code, or the process has given up the CPU.\<close>

datatype trap_end = Returned | Switched

definition tf_cs :: "'z mach_scheme \<Rightarrow> uint \<Rightarrow> uint" where
  "tf_cs s tf = read32 (mem s) (tf + TF_cs) AND 0xFFFF"

definition cpuid :: "(uint, 'z ptab_scheme) kernel" where
  "cpuid = kget (\<lambda>s. of_nat (thiscpu s))"

text \<open>The two formats for an unexpected trap, and the one for a spurious interrupt.\<close>

definition msg :: "string \<Rightarrow> uchar list" where
  "msg cs = map (\<lambda>c. of_nat (of_char c)) cs"

definition spurious_msg :: "uchar list" where
  "spurious_msg = msg ''cpu%d: spurious interrupt at %x:%x'' @ [10]"

definition kernel_trap_msg :: "uchar list" where
  "kernel_trap_msg = msg ''unexpected trap %d from cpu %d eip %x (cr2=0x%x)'' @ [10]"

definition user_trap_msg :: "uchar list" where
  "user_trap_msg = msg ''pid %d %s: trap %d err %d on cpu %d eip 0x%x addr 0x%x--kill proc'' @ [10]"

definition killed_in_user :: "uint \<Rightarrow> (bool, 'z ptab_scheme) kernel" where
  "killed_in_user tf =
     kget (\<lambda>s. case c_proc (cpus s ! thiscpu s) of None \<Rightarrow> False
       | Some p \<Rightarrow> p_killed (proc_at s p) \<noteq> 0 \<and> tf_cs s tf AND 3 = 3)"

definition is_killed :: "(bool, 'z ptab_scheme) kernel" where
  "is_killed = kbind curproc (\<lambda>p. kget (\<lambda>s. p_killed (proc_at s p) \<noteq> 0))"

definition trap_syscall :: "policy \<Rightarrow> uint \<Rightarrow> (trap_end, 'z kstate_scheme) kernel" where
  "trap_syscall sc tf =
     kbind is_killed (\<lambda>k.
     if k then kbind (exit sc) (\<lambda>_. kret Switched)
     else kbind curproc (\<lambda>p.
          kbind (kmod (upd_proc p (\<lambda>x. x\<lparr>p_tf := tf\<rparr>))) (\<lambda>_.
          kbind (syscall sc) (\<lambda>back.
          if \<not> back then kret Switched
          else kbind is_killed (\<lambda>k.
               if k then kbind (exit sc) (\<lambda>_. kret Switched) else kret Returned)))))"

definition trap_default :: "uint \<Rightarrow> uint \<Rightarrow> (unit, 'z kstate_scheme) kernel" where
  "trap_default tf cr2 =
     kbind myproc (\<lambda>mp.
     kbind (kget (\<lambda>s. (tf_cs s tf, read32 (mem s) (tf + TF_trapno), read32 (mem s) (tf + TF_err), read32 (mem s) (tf + TF_eip)))) (\<lambda>(cs, trapno, err, eip).
     kbind cpuid (\<lambda>cpu.
     if mp = None \<or> cs AND 3 = 0
     then kbind (cprintf kernel_trap_msg [Num trapno, Num cpu, Num eip, Num cr2]) (\<lambda>_. kpanic ''trap'')
     else kbind curproc (\<lambda>p.
          kbind (kget (\<lambda>s. proc_at s p)) (\<lambda>pr.
          kbind (cprintf user_trap_msg [Num (word_of_int (p_pid pr)), Str (Some (cstr (p_name pr) 16)), Num trapno,
                   Num err, Num cpu, Num eip, Num cr2]) (\<lambda>_.
          kmod (upd_proc p (\<lambda>x. x\<lparr>p_killed := 1\<rparr>))))))))"

text \<open>The switch over the trap number.\<close>

definition trap_switch :: "policy \<Rightarrow> uint \<Rightarrow> uint \<Rightarrow> device_input \<Rightarrow> (unit, 'z kstate_scheme) kernel" where
  "trap_switch sc tf cr2 inp =
     kbind (kget (\<lambda>s. read32 (mem s) (tf + TF_trapno))) (\<lambda>n.
     if n = T_IRQ0 + IRQ_TIMER
     then kbind cpuid (\<lambda>c. if c = 0 then timer_tick sc else kret ())
     else if n = T_IRQ0 + IRQ_IDE then kret ()
     else if n = T_IRQ0 + IRQ_IDE + 1 then kret ()
     else if n = T_IRQ0 + IRQ_KBD
     then kbind (kbdintr (case inp of Keys ds \<Rightarrow> ds | _ \<Rightarrow> [])) (\<lambda>_. kret ())
     else if n = T_IRQ0 + IRQ_COM1
     then kbind (uartintr (case inp of Serial cs \<Rightarrow> cs | _ \<Rightarrow> [])) (\<lambda>_. kret ())
     else if n = T_IRQ0 + 7 \<or> n = T_IRQ0 + IRQ_SPURIOUS
     then kbind cpuid (\<lambda>c.
          kbind (kget (\<lambda>s. (tf_cs s tf, read32 (mem s) (tf + TF_eip)))) (\<lambda>(cs, eip).
          cprintf spurious_msg [Num c, Num cs, Num eip]))
     else trap_default tf cr2)"

definition trap :: "policy \<Rightarrow> uint \<Rightarrow> uint \<Rightarrow> device_input \<Rightarrow> (trap_end, 'z kstate_scheme) kernel" where
  "trap sc tf cr2 inp =
     kbind (kget (\<lambda>s. read32 (mem s) (tf + TF_trapno))) (\<lambda>n.
     if n = T_SYSCALL then trap_syscall sc tf
     else kbind (trap_switch sc tf cr2 inp) (\<lambda>_.
          kbind (killed_in_user tf) (\<lambda>k.
          if k then kbind (exit sc) (\<lambda>_. kret Switched)
          else kbind (kget (preempts sc (n = T_IRQ0 + IRQ_TIMER))) (\<lambda>b.
               if b then kbind (yield sc) (\<lambda>_. kret Switched)
               else kbind (if sc = FCFS then kret False else killed_in_user tf) (\<lambda>k.
                    if k then kbind (exit sc) (\<lambda>_. kret Switched) else kret Returned)))))"

text \<open>What is left of \<^verbatim>\<open>trap\<close> when a process that gave up the CPU there runs again.\<close>

definition trap_resumed :: "policy \<Rightarrow> uint \<Rightarrow> (trap_end, 'z kstate_scheme) kernel" where
  "trap_resumed sc tf =
     kbind (killed_in_user tf) (\<lambda>k. if k then kbind (exit sc) (\<lambda>_. kret Switched) else kret Returned)"

end
