(* ===== verification/Xv6_Cache.thy ===== *)
theory Xv6_Cache
  imports Xv6_Bio
begin

text \<open>
  The contract of the buffer cache. \<open>view s b\<close> is the content of disk block \<open>b\<close> as the file system sees it:
  that of the cached copy if there is one. The invariant is kept for one process that holds the buffers
  \<open>H\<close> while all others are idle. \<open>bread\<close> gives a locked buffer with the content \<open>view s b\<close>, whether or not the
  block was cached and whichever buffer it recycles; only \<open>bwrite\<close> changes the disk.
\<close>

subsection \<open>Invariant\<close>

definition on_cpu :: "nat \<Rightarrow> int \<Rightarrow> 'z ptab_scheme \<Rightarrow> bool" where
  "on_cpu p pid s \<longleftrightarrow> c_proc (cpus s ! thiscpu s) = Some p \<and> p < length (ptable s) \<and> p_pid (proc_at s p) = pid"

definition held_buf :: "int \<Rightarrow> buf \<Rightarrow> bool" where
  "held_buf pid b \<longleftrightarrow> b_lock b = \<lparr>sl_locked = True, sl_pid = pid\<rparr> \<and> b_refcnt b = 1 \<and> b_dev b = 1"

definition idle_buf :: "buf \<Rightarrow> bool" where
  "idle_buf b \<longleftrightarrow> \<not> sl_locked (b_lock b) \<and> b_refcnt b = 0"

definition dirty_bufs :: "'z bstate_scheme \<Rightarrow> nat set" where
  "dirty_bufs s = {i. i < NBUF \<and> b_dirty (buf_at s i)}"

text \<open>What holds of one buffer: \<open>clean\<close> says that it is not held.\<close>

definition buf_ok :: "(uint \<Rightarrow> uchar list) \<Rightarrow> uint \<Rightarrow> bool \<Rightarrow> buf \<Rightarrow> bool" where
  "buf_ok d n h b \<longleftrightarrow>
     (b_dev b = 1 \<longrightarrow> b_valid b \<and> b_blockno b < n \<and> (\<not> h \<and> \<not> b_dirty b \<longrightarrow> b_data b = d (b_blockno b))) \<and>
     (b_dirty b \<longrightarrow> b_dev b = 1)"

definition cache_inv :: "nat \<Rightarrow> int \<Rightarrow> nat set \<Rightarrow> 'z bstate_scheme \<Rightarrow> bool" where
  "cache_inv p pid H s \<longleftrightarrow>
     on_cpu p pid s \<and> length (bufs s) = NBUF \<and> distinct (lru s) \<and> set (lru s) = {0..<NBUF} \<and> H \<subseteq> {0..<NBUF} \<and>
     (\<forall>i < NBUF. (if i \<in> H then held_buf pid (buf_at s i) else idle_buf (buf_at s i)) \<and>
        buf_ok (disk s) (disksize s) (i \<in> H) (buf_at s i)) \<and>
     (\<forall>i < NBUF. \<forall>j < NBUF. b_dev (buf_at s i) = 1 \<longrightarrow> b_dev (buf_at s j) = 1 \<longrightarrow>
        b_blockno (buf_at s i) = b_blockno (buf_at s j) \<longrightarrow> i = j)"

definition cached_at :: "'z bstate_scheme \<Rightarrow> uint \<Rightarrow> nat \<Rightarrow> bool" where
  "cached_at s b i \<longleftrightarrow> i < NBUF \<and> b_dev (buf_at s i) = 1 \<and> b_blockno (buf_at s i) = b"

definition view :: "'z bstate_scheme \<Rightarrow> uint \<Rightarrow> uchar list" where
  "view s b = (case find (cached_at s b) [0..<NBUF] of Some i \<Rightarrow> b_data (buf_at s i) | None \<Rightarrow> disk s b)"

definition cache_frame :: "'z bstate_scheme \<Rightarrow> 'z bstate_scheme \<Rightarrow> bool" where
  "cache_frame s t \<longleftrightarrow>
     t = s\<lparr>ptable := ptable t, bufs := bufs t, lru := lru t, disk := disk t, dwrites := dwrites t\<rparr>"

lemma cache_frame_refl [simp]: "cache_frame s s"
  by (simp add: cache_frame_def)

lemma cache_frame_trans: "cache_frame s t \<Longrightarrow> cache_frame t u \<Longrightarrow> cache_frame s u"
  unfolding cache_frame_def by (cases s; cases t; cases u) simp

lemma cache_frame_disksize: "cache_frame s t \<Longrightarrow> disksize t = disksize s"
  unfolding cache_frame_def by (drule arg_cong[where f = disksize]) simp

subsection \<open>Facts from the invariant\<close>

lemma cached_unique: "cache_inv p pid H s \<Longrightarrow> cached_at s b i \<Longrightarrow> cached_at s b j \<Longrightarrow> i = j"
  unfolding cache_inv_def cached_at_def by blast

lemma view_cached:
  assumes "cache_inv p pid H s" and "cached_at s b i"
  shows "view s b = b_data (buf_at s i)"
proof -
  have "find (cached_at s b) [0..<NBUF] \<noteq> None"
    using assms(2) by (auto simp: find_None_iff cached_at_def)
  then obtain j where j: "find (cached_at s b) [0..<NBUF] = Some j" by auto
  then have "cached_at s b j" by (auto simp: find_Some_iff)
  then have "j = i" by (rule cached_unique[OF assms(1) _ assms(2)])
  then show ?thesis using j by (simp add: view_def)
qed

lemma view_uncached: "(\<And>i. \<not> cached_at s b i) \<Longrightarrow> view s b = disk s b"
  by (simp add: view_def find_None_iff[THEN iffD2])

text \<open>Two states have the same view if they have the same cached contents, up to blocks that are clean.\<close>

lemma view_eqI:
  assumes s: "cache_inv p pid H s" and t: "cache_inv p pid H' t"
    and st: "\<And>i. cached_at s b i \<Longrightarrow> (cached_at t b i \<and> b_data (buf_at t i) = b_data (buf_at s i)) \<or>
      ((\<forall>j. \<not> cached_at t b j) \<and> disk t b = b_data (buf_at s i))"
    and ts: "\<And>i. cached_at t b i \<Longrightarrow> (\<exists>j. cached_at s b j) \<or> b_data (buf_at t i) = disk s b"
    and d: "disk t b = disk s b"
  shows "view t b = view s b"
proof (cases "\<exists>i. cached_at s b i")
  case True
  then obtain i where i: "cached_at s b i" ..
  from st[OF i] show ?thesis
    using view_cached[OF s i] view_cached[OF t, of b i] view_uncached[of t b] by auto
next
  case False
  show ?thesis
  proof (cases "\<exists>i. cached_at t b i")
    case True
    then obtain i where i: "cached_at t b i" ..
    with ts False have "b_data (buf_at t i) = disk s b" by blast
    then show ?thesis using view_cached[OF t i] view_uncached[of s b] False by auto
  qed (use False d view_uncached in metis)
qed

lemma cache_inv_buf:
  assumes "cache_inv p pid H s" and "i < NBUF"
  shows "buf_ok (disk s) (disksize s) (i \<in> H) (buf_at s i)"
    and "i \<in> H \<Longrightarrow> held_buf pid (buf_at s i)" and "i \<notin> H \<Longrightarrow> idle_buf (buf_at s i)"
  using assms unfolding cache_inv_def by (metis)+

lemma cache_inv_basic:
  assumes "cache_inv p pid H s"
  shows "on_cpu p pid s" and "length (bufs s) = NBUF" and "distinct (lru s)" and "set (lru s) = {0..<NBUF}"
    and "H \<subseteq> {0..<NBUF}" and "finite H"
  using assms finite_subset[of H "{0..<NBUF}"] unfolding cache_inv_def by auto

subsection \<open>Changing one buffer\<close>

lemma buf_at_upd [simp]:
  "i < length (bufs s) \<Longrightarrow> buf_at (upd_buf i f s) j = (if i = j then f (buf_at s i) else buf_at s j)"
  by (simp add: upd_buf_def)

lemma upd_buf_simps [simp]:
  "length (bufs (upd_buf i f s)) = length (bufs s)" "lru (upd_buf i f s) = lru s"
  "disk (upd_buf i f s) = disk s" "disksize (upd_buf i f s) = disksize s" "dwrites (upd_buf i f s) = dwrites s"
  "ptable (upd_buf i f s) = ptable s" "cpus (upd_buf i f s) = cpus s" "thiscpu (upd_buf i f s) = thiscpu s"
  by (simp_all add: upd_buf_def)

lemma on_cpu_upd_buf [simp]: "on_cpu p pid (upd_buf i f s) = on_cpu p pid s"
  by (simp add: on_cpu_def)

lemma cache_frame_upd_buf [simp]: "cache_frame s (upd_buf i f s)"
  by (simp add: cache_frame_def upd_buf_def)

lemma cache_inv_upd:
  assumes inv: "cache_inv p pid H s" and i: "i < NBUF"
    and kind: "if h then held_buf pid (f (buf_at s i)) else idle_buf (f (buf_at s i))"
    and ok: "buf_ok (disk s) (disksize s) h (f (buf_at s i))"
    and key: "b_dev (f (buf_at s i)) = 1 \<Longrightarrow>
      \<forall>j. cached_at s (b_blockno (f (buf_at s i))) j \<longrightarrow> j = i"
  shows "cache_inv p pid (if h then insert i H else H - {i}) (upd_buf i f s)"
proof -
  let ?t = "upd_buf i f s" and ?H = "if h then insert i H else H - {i}"
  have len: "length (bufs s) = NBUF" by (rule cache_inv_basic[OF inv])
  have at: "buf_at ?t j = (if i = j then f (buf_at s i) else buf_at s j)" for j
    using len i by simp
  have A: "(if j \<in> ?H then held_buf pid (buf_at ?t j) else idle_buf (buf_at ?t j)) \<and>
      buf_ok (disk ?t) (disksize ?t) (j \<in> ?H) (buf_at ?t j)" if "j < NBUF" for j
    using cache_inv_buf[OF inv that] kind ok unfolding at by (cases "j = i") (auto split: if_splits)
  have B: "j = k" if "j < NBUF" "k < NBUF" "b_dev (buf_at ?t j) = 1" "b_dev (buf_at ?t k) = 1"
    "b_blockno (buf_at ?t j) = b_blockno (buf_at ?t k)" for j k
  proof -
    consider "j = i" "k = i" | "j = i" "k \<noteq> i" | "j \<noteq> i" "k = i" | "j \<noteq> i" "k \<noteq> i" by blast
    then show ?thesis
    proof cases
      case 2
      then have "cached_at s (b_blockno (f (buf_at s i))) k" and "b_dev (f (buf_at s i)) = 1"
        using that at by (auto simp: cached_at_def)
      then show ?thesis using key 2 by blast
    next
      case 3
      then have "cached_at s (b_blockno (f (buf_at s i))) j" and "b_dev (f (buf_at s i)) = 1"
        using that at by (auto simp: cached_at_def)
      then show ?thesis using key 3 by blast
    next
      case 4
      then show ?thesis using that at inv unfolding cache_inv_def by metis
    qed simp
  qed
  have "?H \<subseteq> {0..<NBUF}" using cache_inv_basic(5)[OF inv] i by auto
  then show ?thesis
    unfolding cache_inv_def using cache_inv_basic[OF inv] A B by (intro conjI allI impI) simp_all
qed

lemma cached_at_upd:
  assumes "i < length (bufs s)" and "b_dev (f (buf_at s i)) = b_dev (buf_at s i)"
    and "b_blockno (f (buf_at s i)) = b_blockno (buf_at s i)"
  shows "cached_at (upd_buf i f s) b j \<longleftrightarrow> cached_at s b j"
  using assms by (auto simp: cached_at_def)

lemma view_upd:
  assumes "cache_inv p pid H s" and "cache_inv p pid H' (upd_buf i f s)" and "cached_at s b0 i"
    and "b_dev (f (buf_at s i)) = b_dev (buf_at s i)" and "b_blockno (f (buf_at s i)) = b_blockno (buf_at s i)"
  shows "view (upd_buf i f s) = (view s)(b0 := b_data (f (buf_at s i)))"
proof
  fix b
  have i: "i < length (bufs s)" using assms(1,3) by (simp add: cached_at_def cache_inv_def)
  note same = cached_at_upd[where f = f and i = i and s = s, OF i assms(4,5)]
  show "view (upd_buf i f s) b = ((view s)(b0 := b_data (f (buf_at s i)))) b"
  proof (cases "b = b0")
    case True
    then show ?thesis using view_cached[OF assms(2), of b i] assms(3) same i by simp
  next
    case False
    show ?thesis
    proof (cases "\<exists>j. cached_at s b j")
      case True
      then obtain j where j: "cached_at s b j" ..
      then have "j \<noteq> i" using assms(3) False by (auto simp: cached_at_def)
      then show ?thesis
        using view_cached[OF assms(1) j] view_cached[OF assms(2), of b j] same j i False by simp
    qed (use view_uncached[of s b] view_uncached[of "upd_buf i f s" b] same False in auto)
  qed
qed

lemma upd_buf_upd_buf:
  "i < length (bufs s) \<Longrightarrow> upd_buf i f (upd_buf i g s) = upd_buf i (\<lambda>b. f (g b)) s"
  by (simp add: upd_buf_def)

lemma find_SomeD: "find P xs = Some x \<Longrightarrow> P x \<and> x \<in> set xs"
  by (induction xs) (auto split: if_splits)

lemma find_unique:
  assumes "x \<in> set xs" and "P x" and "\<forall>y \<in> set xs. P y \<longrightarrow> y = x"
  shows "find P xs = Some x"
proof -
  have "find P xs \<noteq> None" using assms(1,2) by (auto simp: find_None_iff)
  then obtain y where "find P xs = Some y" by blast
  then show ?thesis using assms(3) find_SomeD[of P xs y] by simp
qed

lemma curproc_on_cpu: "on_cpu p pid s \<Longrightarrow> curproc s = Ret p s"
  by (simp add: curproc_def myproc_def on_cpu_def kbind_def)

subsection \<open>The operations\<close>

lemma acquire_buf:
  assumes "on_cpu p pid s" and "\<not> sl_locked (b_lock (buf_at s i))"
  shows "acquiresleep c (\<lambda>s. b_lock (buf_at s i)) (upd_blk i) s =
    Ret () (upd_buf i (\<lambda>b. b\<lparr>b_lock := \<lparr>sl_locked = True, sl_pid = pid\<rparr>\<rparr>) s)"
  using assms curproc_on_cpu[OF assms(1)]
  by (simp add: acquiresleep_def kbind_def upd_blk_def on_cpu_def)

definition grab :: "int \<Rightarrow> buf \<Rightarrow> buf" where
  "grab pid b = b\<lparr>b_refcnt := 1, b_lock := \<lparr>sl_locked = True, sl_pid = pid\<rparr>\<rparr>"

definition fill_buf :: "int \<Rightarrow> uint \<Rightarrow> uchar list \<Rightarrow> buf \<Rightarrow> buf" where
  "fill_buf pid b d = (\<lambda>x. x\<lparr>b_dev := 1, b_blockno := b, b_dirty := False, b_refcnt := 1,
     b_lock := \<lparr>sl_locked = True, sl_pid = pid\<rparr>, b_data := d, b_valid := True\<rparr>)"

lemma grab_simps [simp]:
  "b_dev (grab pid b) = b_dev b" "b_blockno (grab pid b) = b_blockno b" "b_valid (grab pid b) = b_valid b"
  "b_dirty (grab pid b) = b_dirty b" "b_data (grab pid b) = b_data b" "b_refcnt (grab pid b) = 1"
  "b_lock (grab pid b) = \<lparr>sl_locked = True, sl_pid = pid\<rparr>"
  by (simp_all add: grab_def)

lemma fill_buf_simps [simp]:
  "b_dev (fill_buf pid n d b) = 1" "b_blockno (fill_buf pid n d b) = n" "b_valid (fill_buf pid n d b)"
  "\<not> b_dirty (fill_buf pid n d b)" "b_data (fill_buf pid n d b) = d" "b_refcnt (fill_buf pid n d b) = 1"
  "b_lock (fill_buf pid n d b) = \<lparr>sl_locked = True, sl_pid = pid\<rparr>"
  by (simp_all add: fill_buf_def)

lemma bread_hit:
  assumes inv: "cache_inv p pid H s" and at: "cached_at s b i" and i: "i \<notin> H"
  shows "bread 1 b s = Ret i (upd_buf i (grab pid) s)"
proof -
  have n: "i < NBUF" "i < length (bufs s)" using at cache_inv_basic[OF inv] by (auto simp: cached_at_def)
  have "find (\<lambda>i. b_dev (buf_at s i) = 1 \<and> b_blockno (buf_at s i) = b) (lru s) = Some i"
  proof (rule find_unique)
    show "i \<in> set (lru s)" using n cache_inv_basic[OF inv] by simp
    show "\<forall>y \<in> set (lru s). b_dev (buf_at s y) = 1 \<and> b_blockno (buf_at s y) = b \<longrightarrow> y = i"
      using cached_unique[OF inv at] cache_inv_basic[OF inv] by (auto simp: cached_at_def)
  qed (use at in \<open>simp add: cached_at_def\<close>)
  moreover have idle: "idle_buf (buf_at s i)" by (rule cache_inv_buf(3)[OF inv n(1) i])
  moreover have "b_valid (buf_at s i)"
    using cache_inv_buf(1)[OF inv n(1)] at by (simp add: buf_ok_def cached_at_def)
  moreover have "on_cpu p pid s" by (rule cache_inv_basic[OF inv])
  moreover have "upd_buf i (\<lambda>b. b\<lparr>b_refcnt := b_refcnt b + 1, b_lock := \<lparr>sl_locked = True, sl_pid = pid\<rparr>\<rparr>) s =
      upd_buf i (grab pid) s"
    using idle by (simp add: upd_buf_def grab_def idle_buf_def)
  ultimately show ?thesis
    using n by (simp add: bread_def bget_def kbind_def acquire_buf idle_buf_def upd_buf_upd_buf)
qed

lemma bread_miss:
  assumes inv: "cache_inv p pid H s" and at: "\<And>i. \<not> cached_at s b i" and room: "b < disksize s"
    and spare: "card (dirty_bufs s) + card H < NBUF"
  shows "\<exists>i. i < NBUF \<and> i \<notin> H \<and> \<not> b_dirty (buf_at s i) \<and> bread 1 b s = Ret i (upd_buf i (fill_buf pid b (disk s b)) s)"
proof -
  note basic = cache_inv_basic[OF inv]
  have none: "find (\<lambda>i. b_dev (buf_at s i) = 1 \<and> b_blockno (buf_at s i) = b) (lru s) = None"
    using at basic by (auto simp: find_None_iff cached_at_def)
  let ?P = "\<lambda>i. b_refcnt (buf_at s i) = 0 \<and> \<not> b_dirty (buf_at s i)"
  have "card (dirty_bufs s \<union> H) < NBUF" using spare card_Un_le[of "dirty_bufs s" H] by linarith
  moreover have "finite (dirty_bufs s \<union> H)" using basic by (simp add: dirty_bufs_def)
  ultimately have "{0..<NBUF} \<noteq> dirty_bufs s \<union> H"
    by (metis card_atLeastLessThan diff_zero less_irrefl)
  moreover have "dirty_bufs s \<union> H \<subseteq> {0..<NBUF}" using basic by (auto simp: dirty_bufs_def)
  ultimately have "\<exists>k. k \<in> {0..<NBUF} - (dirty_bufs s \<union> H)" by blast
  then obtain k where "k < NBUF" "k \<notin> dirty_bufs s" "k \<notin> H" by auto
  then have "?P k" "k \<in> set (rev (lru s))"
    using cache_inv_buf(3)[OF inv] basic by (auto simp: dirty_bufs_def idle_buf_def)
  then have "find ?P (rev (lru s)) \<noteq> None" by (auto simp: find_None_iff)
  then obtain i where f: "find ?P (rev (lru s)) = Some i" by auto
  then have P: "?P i" and mem: "i \<in> set (lru s)" 
    using find_SomeD[OF f] by simp_all
  have n: "i < NBUF" "i < length (bufs s)" using mem basic by auto
  have nH: "i \<notin> H" using P cache_inv_buf(2)[OF inv n(1)] by (auto simp: held_buf_def)
  have idle: "idle_buf (buf_at s i)" by (rule cache_inv_buf(3)[OF inv n(1) nH])
  let ?g = "\<lambda>x. x\<lparr>b_dev := 1, b_blockno := b, b_valid := False, b_dirty := False, b_refcnt := 1\<rparr>"
  let ?l = "\<lambda>x. x\<lparr>b_lock := \<lparr>sl_locked = True, sl_pid = pid\<rparr>\<rparr>"
  let ?t = "upd_buf i (\<lambda>x. ?l (?g x)) s"
  have get: "bget 1 b s = Ret i ?t"
    using n idle basic(1)
    by (simp add: bget_def none f kbind_def acquire_buf[where p = p and pid = pid] idle_buf_def upd_buf_upd_buf)
  have hold: "holding_buf i ?t = Ret True ?t"
    using n basic(1) curproc_on_cpu[of p pid ?t]
    by (simp add: holding_buf_def holdingsleep_def kbind_def on_cpu_def)
  have "iderw i ?t = Ret () (upd_buf i (fill_buf pid b (disk s b)) s)"
    using n room[folded not_le] hold by (simp add: iderw_def kbind_def upd_buf_upd_buf fill_buf_def)
  then have "bread 1 b s = Ret i (upd_buf i (fill_buf pid b (disk s b)) s)"
    using get n by (simp add: bread_def kbind_def)
  then show ?thesis using n nH P by blast
qed

text \<open>The blocks whose cached copy is newer than the disk.\<close>

definition dirty :: "'z bstate_scheme \<Rightarrow> uint \<Rightarrow> bool" where
  "dirty s b \<longleftrightarrow> (\<exists>i. cached_at s b i \<and> b_dirty (buf_at s i))"

definition got :: "nat \<Rightarrow> int \<Rightarrow> nat set \<Rightarrow> uint \<Rightarrow> 'z bstate_scheme \<Rightarrow> nat \<Rightarrow> 'z bstate_scheme \<Rightarrow> bool" where
  "got p pid H b s i t \<longleftrightarrow>
     i \<notin> H \<and> cached_at t b i \<and> cache_inv p pid (insert i H) t \<and> cache_frame s t \<and>
     view t = view s \<and> b_data (buf_at t i) = view s b \<and> disk t = disk s \<and> dwrites t = dwrites s \<and>
     (\<forall>j \<in> H. buf_at t j = buf_at s j) \<and> dirty_bufs t = dirty_bufs s \<and> dirty t = dirty s"

lemma got_hit:
  assumes inv: "cache_inv p pid H s" and at: "cached_at s b i" and i: "i \<notin> H"
  shows "got p pid H b s i (upd_buf i (grab pid) s)"
proof -
  let ?t = "upd_buf i (grab pid) s"
  have n: "i < NBUF" "i < length (bufs s)" using at cache_inv_basic[OF inv] by (auto simp: cached_at_def)
  have key: "\<forall>j. cached_at s b j \<longrightarrow> j = i" using cached_unique[OF inv _ at] by blast
  have dev: "b_dev (buf_at s i) = 1" "b_blockno (buf_at s i) = b" using at by (simp_all add: cached_at_def)
  have "cache_inv p pid (if True then insert i H else H - {i}) ?t"
    by (rule cache_inv_upd[OF inv n(1)])
      (use cache_inv_buf(1)[OF inv n(1)] dev key in \<open>auto simp: held_buf_def buf_ok_def\<close>)
  then have inv': "cache_inv p pid (insert i H) ?t" by simp
  have "view ?t = (view s)(b := b_data (grab pid (buf_at s i)))"
    by (rule view_upd[OF inv inv' at]) simp_all
  then have view: "view ?t = view s" using view_cached[OF inv at] by (auto simp: fun_eq_iff)
  have same: "cached_at ?t c j \<longleftrightarrow> cached_at s c j" for c j
    by (rule cached_at_upd[OF n(2)]) simp_all
  have d: "b_dirty (buf_at ?t j) = b_dirty (buf_at s j)" for j using n by simp
  show ?thesis
    unfolding got_def
    using i at inv' view view_cached[OF inv at] n same d by (auto simp: dirty_bufs_def dirty_def fun_eq_iff)
qed

lemma got_miss:
  assumes inv: "cache_inv p pid H s" and at: "\<And>i. \<not> cached_at s b i" and room: "b < disksize s"
    and i: "i < NBUF" "i \<notin> H" "\<not> b_dirty (buf_at s i)"
  shows "got p pid H b s i (upd_buf i (fill_buf pid b (disk s b)) s)"
proof -
  let ?t = "upd_buf i (fill_buf pid b (disk s b)) s"
  have n: "i < length (bufs s)" using i(1) cache_inv_basic[OF inv] by simp
  have "cache_inv p pid (if True then insert i H else H - {i}) ?t"
    by (rule cache_inv_upd[OF inv i(1)]) (use at room in \<open>auto simp: held_buf_def buf_ok_def\<close>)
  then have inv': "cache_inv p pid (insert i H) ?t" by simp
  have at_t: "cached_at ?t c j \<longleftrightarrow> (if j = i then c = b else cached_at s c j)" for c j
    using n i(1) by (auto simp: cached_at_def)
  have old: "b_data (buf_at s i) = disk s c" if "cached_at s c i" for c
    using cache_inv_buf(1)[OF inv i(1)] i that by (simp add: buf_ok_def cached_at_def)
  have view: "view ?t c = view s c" for c
  proof (rule view_eqI[OF inv inv'])
    fix j assume j: "cached_at s c j"
    then have "c \<noteq> b" using at by blast
    show "(cached_at ?t c j \<and> b_data (buf_at ?t j) = b_data (buf_at s j)) \<or>
      ((\<forall>j. \<not> cached_at ?t c j) \<and> disk ?t c = b_data (buf_at s j))"
    proof (cases "j = i")
      case True
      have "\<not> cached_at ?t c k" for k
        using cached_unique[OF inv j] \<open>c \<noteq> b\<close> True unfolding at_t by auto
      then show ?thesis using old j True by simp
    qed (use j n at_t in simp)
  next
    fix j assume "cached_at ?t c j"
    then show "(\<exists>k. cached_at s c k) \<or> b_data (buf_at ?t j) = disk s c"
      using n unfolding at_t by (cases "j = i") auto
  qed simp
  have vb: "view s b = disk s b" by (rule view_uncached) (rule at)
  have d: "b_dirty (buf_at ?t j) = b_dirty (buf_at s j)" for j using n i by (cases "j = i") simp_all
  have "dirty ?t c = dirty s c" for c
    using i(3) unfolding dirty_def at_t d by metis
  then show ?thesis
    unfolding got_def using i inv' view vb n d at_t
    by (auto simp: dirty_bufs_def fun_eq_iff)
qed

lemma bread_got:
  assumes inv: "cache_inv p pid H s" and room: "b < disksize s" and free: "\<And>i. cached_at s b i \<Longrightarrow> i \<notin> H"
    and spare: "(\<forall>i. \<not> cached_at s b i) \<Longrightarrow> card (dirty_bufs s) + card H < NBUF"
  shows "\<exists>i t. bread 1 b s = Ret i t \<and> got p pid H b s i t"
proof (cases "\<exists>i. cached_at s b i")
  case True
  then obtain i where "cached_at s b i" ..
  then show ?thesis using bread_hit[OF inv] got_hit[OF inv] free by blast
next
  case False
  then show ?thesis using bread_miss[OF inv _ room spare] got_miss[OF inv _ room] by blast
qed

text \<open>The holder of a buffer changes its data, writes it to the disk, and releases it.\<close>

lemma set_data_run: "set_data i f s = Ret () (upd_buf i (\<lambda>b. b\<lparr>b_data := f (b_data b)\<rparr>) s)"
  by (simp add: set_data_def)

lemma cache_inv_set:
  assumes inv: "cache_inv p pid H s" and at: "cached_at s b i" and i: "i \<in> H"
    and eq: "b_dev (f (buf_at s i)) = 1" "b_blockno (f (buf_at s i)) = b" "b_valid (f (buf_at s i))"
      "b_lock (f (buf_at s i)) = b_lock (buf_at s i)" "b_refcnt (f (buf_at s i)) = b_refcnt (buf_at s i)"
  shows "cache_inv p pid H (upd_buf i f s)" and "view (upd_buf i f s) = (view s)(b := b_data (f (buf_at s i)))"
    and "\<And>c j. cached_at (upd_buf i f s) c j \<longleftrightarrow> cached_at s c j"
proof -
  have n: "i < NBUF" "i < length (bufs s)" using at cache_inv_basic[OF inv] by (auto simp: cached_at_def)
  have key: "\<forall>j. cached_at s b j \<longrightarrow> j = i" using cached_unique[OF inv _ at] by blast
  have dev: "b_dev (buf_at s i) = 1" "b_blockno (buf_at s i) = b" using at by (simp_all add: cached_at_def)
  have ins: "insert i H = H" using i by auto
  have "cache_inv p pid (if True then insert i H else H - {i}) (upd_buf i f s)"
    by (rule cache_inv_upd[OF inv n(1)])
      (use cache_inv_buf(1,2)[OF inv n(1)] i dev key eq in \<open>auto simp: held_buf_def buf_ok_def\<close>)
  then show inv': "cache_inv p pid H (upd_buf i f s)" by (simp add: ins)
  show "view (upd_buf i f s) = (view s)(b := b_data (f (buf_at s i)))"
    by (rule view_upd[OF inv inv' at]) (use eq dev in simp_all)
  show "cached_at (upd_buf i f s) c j \<longleftrightarrow> cached_at s c j" for c j
    by (rule cached_at_upd[OF n(2)]) (use eq dev in simp_all)
qed

lemma holding_held:
  assumes "cache_inv p pid H s" and "i \<in> H"
  shows "holding_buf i s = Ret True s"
proof -
  have "i < NBUF" using assms cache_inv_basic(5)[OF assms(1)] by auto
  then have "held_buf pid (buf_at s i)" by (rule cache_inv_buf(2)[OF assms(1) _ assms(2)])
  then show ?thesis
    using curproc_on_cpu[OF cache_inv_basic(1)[OF assms(1)]] cache_inv_basic(1)[OF assms(1)]
    by (simp add: holding_buf_def holdingsleep_def kbind_def held_buf_def on_cpu_def)
qed

definition disk_write :: "uint \<Rightarrow> uchar list \<Rightarrow> 'z bstate_scheme \<Rightarrow> 'z bstate_scheme" where
  "disk_write b d s = s\<lparr>disk := (disk s)(b := d), dwrites := dwrites s @ [(b, d)]\<rparr>"

lemma disk_write_simps [simp]:
  "bufs (disk_write b d s) = bufs s" "lru (disk_write b d s) = lru s" "disk (disk_write b d s) = (disk s)(b := d)"
  "dwrites (disk_write b d s) = dwrites s @ [(b, d)]" "disksize (disk_write b d s) = disksize s"
  "on_cpu p pid (disk_write b d s) = on_cpu p pid s" "cached_at (disk_write b d s) = cached_at s"
  "cache_frame s (disk_write b d s)"
  by (auto simp: disk_write_def on_cpu_def cached_at_def cache_frame_def fun_eq_iff)

lemma bwrite_held:
  assumes inv: "cache_inv p pid H s" and at: "cached_at s b i" and i: "i \<in> H"
  shows "bwrite i s = Ret () (upd_buf i (\<lambda>x. x\<lparr>b_dirty := False, b_valid := True\<rparr>) (disk_write b (b_data (buf_at s i)) s))"
proof -
  have n: "i < NBUF" "i < length (bufs s)" using at cache_inv_basic[OF inv] by (auto simp: cached_at_def)
  have dev: "b_dev (buf_at s i) = 1" "b_blockno (buf_at s i) = b" using at by (simp_all add: cached_at_def)
  have room: "\<not> disksize s \<le> b" using cache_inv_buf(1)[OF inv n(1)] dev by (simp add: buf_ok_def not_le)
  let ?t = "upd_buf i (\<lambda>b. b\<lparr>b_dirty := True\<rparr>) s"
  have "cache_inv p pid H ?t"
    by (rule cache_inv_set(1)[OF inv at i])
      (use dev cache_inv_buf(1)[OF inv n(1)] in \<open>simp_all add: buf_ok_def\<close>)
  from holding_held[OF this i] show ?thesis
    using n dev room holding_held[OF inv i]
    by (simp add: bwrite_def kbind_def iderw_def upd_buf_def disk_write_def)
qed

lemma bwrite_contract:
  assumes inv: "cache_inv p pid H s" and at: "cached_at s b i" and i: "i \<in> H"
  shows "\<exists>t. bwrite i s = Ret () t \<and> cache_inv p pid H t \<and> cached_at t = cached_at s \<and> cache_frame s t \<and>
    view t = view s \<and> disk t = (disk s)(b := view s b) \<and> dwrites t = dwrites s @ [(b, view s b)] \<and>
    b_data (buf_at t i) = b_data (buf_at s i) \<and> (\<forall>j. j \<noteq> i \<longrightarrow> buf_at t j = buf_at s j) \<and>
    \<not> b_dirty (buf_at t i) \<and> dirty_bufs t = dirty_bufs s - {i} \<and> dirty t = (dirty s)(b := False)"
proof -
  have n: "i < NBUF" "i < length (bufs s)" using at cache_inv_basic[OF inv] by (auto simp: cached_at_def)
  have vb: "b_data (buf_at s i) = view s b" by (rule view_cached[OF inv at, symmetric])
  let ?u = "disk_write b (view s b) s" and ?f = "\<lambda>x. x\<lparr>b_dirty := False, b_valid := True\<rparr>"
  let ?t = "upd_buf i ?f ?u"
  have inv_u: "cache_inv p pid H ?u"
  proof -
    have "buf_ok (disk ?u) (disksize ?u) (j \<in> H) (buf_at ?u j)" if "j < NBUF" for j
    proof -
      have "j = i" if "b_dev (buf_at s j) = 1" "b_blockno (buf_at s j) = b"
        using cached_unique[OF inv _ at] \<open>j < NBUF\<close> that by (simp add: cached_at_def)
      then show ?thesis using cache_inv_buf(1)[OF inv that] i by (auto simp: buf_ok_def)
    qed
    then show ?thesis using inv unfolding cache_inv_def by simp
  qed
  have at_u: "cached_at ?u b i" using at by simp
  have dev: "b_dev (buf_at s i) = 1" "b_blockno (buf_at s i) = b" using at by (simp_all add: cached_at_def)
  have upd: "cache_inv p pid H ?t" "view ?t = (view ?u)(b := b_data (?f (buf_at ?u i)))"
    "\<And>c j. cached_at ?t c j \<longleftrightarrow> cached_at ?u c j"
    by (rule cache_inv_set[OF inv_u at_u i]; use dev in simp)+
  have "view ?u c = view s c" if "c \<noteq> b" for c
    using that by (simp add: view_def[of _ c] split: option.split)
  then have view: "view ?t = view s" using vb upd(2) by (auto simp: fun_eq_iff)
  have same: "cached_at ?t = cached_at s" using upd(3) by (simp add: fun_eq_iff)
  have other: "\<forall>j. j \<noteq> i \<longrightarrow> buf_at ?t j = buf_at s j" using n by simp
  have fr: "cache_frame s ?t" by (rule cache_frame_trans[of _ ?u]) simp_all
  have "dirty ?t = (dirty s)(b := False)"
  proof
    fix c
    have "dirty ?t b = False" using cached_unique[OF inv at] n by (auto simp: dirty_def same)
    moreover have "dirty ?t c = dirty s c" if "c \<noteq> b"
    proof -
      have "\<not> cached_at s c i" using that at by (auto simp: cached_at_def)
      then show ?thesis using other unfolding dirty_def same by metis
    qed
    ultimately show "dirty ?t c = ((dirty s)(b := False)) c" by simp
  qed
  then show ?thesis
    using bwrite_held[OF inv at i] vb upd(1) view same other fr n
    by (auto simp: dirty_bufs_def split: if_splits)
qed

definition free_buf :: "buf \<Rightarrow> buf" where
  "free_buf = (\<lambda>b. b\<lparr>b_lock := \<lparr>sl_locked = False, sl_pid = 0\<rparr>, b_refcnt := 0\<rparr>)"

lemma wakeup1_cache [simp]:
  "bufs (wakeup1 c s) = bufs s" "lru (wakeup1 c s) = lru s" "disk (wakeup1 c s) = disk s"
  "dwrites (wakeup1 c s) = dwrites s" "disksize (wakeup1 c s) = disksize s"
  "cached_at (wakeup1 c s) = cached_at s" "cache_frame s (wakeup1 c s)"
  by (auto simp: wakeup1_def cached_at_def cache_frame_def fun_eq_iff)

lemma on_cpu_wakeup1 [simp]: "on_cpu p pid (wakeup1 c s) = on_cpu p pid s"
  by (auto simp: on_cpu_def wakeup1_def)

lemma brelse_held:
  assumes inv: "cache_inv p pid H s" and i: "i \<in> H"
  shows "brelse i s = Ret () ((upd_buf i free_buf (wakeup1 (Some (Chan_buflock i)) s))\<lparr>lru := i # remove1 i (lru s)\<rparr>)"
proof -
  have n: "i < NBUF" "i < length (bufs s)" using i cache_inv_basic[OF inv] by auto
  have "b_refcnt (buf_at s i) = 1" using cache_inv_buf(2)[OF inv n(1) i] by (simp add: held_buf_def)
  then show ?thesis
    using n holding_held[OF inv i]
    by (simp add: brelse_def kbind_def releasesleep_def wakeup_def upd_blk_def free_buf_def upd_buf_def wakeup1_def)
qed

lemma brelse_contract:
  assumes inv: "cache_inv p pid H s" and at: "cached_at s b i" and i: "i \<in> H"
    and clean: "b_dirty (buf_at s i) \<or> b_data (buf_at s i) = disk s b"
  shows "\<exists>t. brelse i s = Ret () t \<and> cache_inv p pid (H - {i}) t \<and> cached_at t = cached_at s \<and> cache_frame s t \<and>
    view t = view s \<and> disk t = disk s \<and> dwrites t = dwrites s \<and> (\<forall>j. j \<noteq> i \<longrightarrow> buf_at t j = buf_at s j) \<and>
    dirty_bufs t = dirty_bufs s \<and> dirty t = dirty s"
proof -
  have n: "i < NBUF" "i < length (bufs s)" using at cache_inv_basic[OF inv] by (auto simp: cached_at_def)
  have dev: "b_dev (buf_at s i) = 1" "b_blockno (buf_at s i) = b" using at by (simp_all add: cached_at_def)
  have key: "\<forall>j. cached_at s b j \<longrightarrow> j = i" using cached_unique[OF inv _ at] by blast
  let ?u = "wakeup1 (Some (Chan_buflock i)) s" and ?l = "i # remove1 i (lru s)"
  let ?v = "upd_buf i free_buf ?u" and ?t = "(upd_buf i free_buf ?u)\<lparr>lru := ?l\<rparr>"
  have inv_u: "cache_inv p pid H ?u" using inv unfolding cache_inv_def by simp
  have v: "cache_inv p pid (if False then insert i H else H - {i}) ?v"
    by (rule cache_inv_upd[OF inv_u n(1)])
      (use cache_inv_buf(1)[OF inv n(1)] dev key clean in \<open>auto simp: idle_buf_def free_buf_def buf_ok_def\<close>)
  have "set (remove1 i (lru s)) = {0..<NBUF} - {i}" "distinct (remove1 i (lru s))"
    using cache_inv_basic(3,4)[OF inv] by (simp_all add: distinct_remove1)
  then have "distinct ?l" and "set ?l = {0..<NBUF}" using n(1) by (simp_all add: insert_absorb)
  moreover have "on_cpu p pid ?t = on_cpu p pid ?v" by (simp add: on_cpu_def)
  ultimately have inv': "cache_inv p pid (H - {i}) ?t" using v unfolding cache_inv_def by simp
  have same: "cached_at ?t = cached_at s"
    using n by (auto simp: cached_at_def free_buf_def fun_eq_iff)
  have data: "b_data (buf_at ?v j) = b_data (buf_at s j)" "b_dirty (buf_at ?v j) = b_dirty (buf_at s j)" for j
    using n by (cases "j = i"; simp add: free_buf_def)+
  have view: "view ?t = view s" by (rule ext) (simp add: view_def same data split: option.split)
  have fr: "cache_frame s ?t"
    by (simp add: cache_frame_def upd_buf_def wakeup1_def)
  have dirty: "dirty ?t = dirty s" "dirty_bufs ?t = dirty_bufs s"
    by (simp_all add: dirty_def dirty_bufs_def same data fun_eq_iff)
  have "\<forall>j. j \<noteq> i \<longrightarrow> buf_at ?t j = buf_at s j" using n by simp
  then show ?thesis
    using brelse_held[OF inv i] inv' same view fr dirty by (intro exI[of _ ?t] conjI) simp_all
qed

text \<open>At most as many buffers are dirty as blocks.\<close>

lemma card_dirty_bufs:
  assumes inv: "cache_inv p pid H s" and sub: "Collect (dirty s) \<subseteq> B" and fin: "finite B"
  shows "card (dirty_bufs s) \<le> card B"
proof (rule card_inj_on_le)
  have dev: "b_dev (buf_at s i) = 1" if "i \<in> dirty_bufs s" for i
    using cache_inv_buf(1)[OF inv] that by (auto simp: dirty_bufs_def buf_ok_def)
  show "inj_on (\<lambda>i. b_blockno (buf_at s i)) (dirty_bufs s)"
  proof (rule inj_onI)
    fix i j assume "i \<in> dirty_bufs s" "j \<in> dirty_bufs s" "b_blockno (buf_at s i) = b_blockno (buf_at s j)"
    then show "i = j"
      using dev cached_unique[OF inv, of "b_blockno (buf_at s i)" i j] by (auto simp: cached_at_def dirty_bufs_def)
  qed
  show "(\<lambda>i. b_blockno (buf_at s i)) ` dirty_bufs s \<subseteq> B"
  proof (rule image_subsetI)
    fix i assume i: "i \<in> dirty_bufs s"
    then have "cached_at s (b_blockno (buf_at s i)) i" and "b_dirty (buf_at s i)"
      using dev by (simp_all add: cached_at_def dirty_bufs_def)
    then have "dirty s (b_blockno (buf_at s i))" unfolding dirty_def by blast
    then show "b_blockno (buf_at s i) \<in> B" using sub by blast
  qed
qed (rule fin)

text \<open>A block that is neither dirty nor held is as on the disk.\<close>

lemma view_clean:
  assumes inv: "cache_inv p pid H s" and "\<not> dirty s b" and "\<forall>i. cached_at s b i \<longrightarrow> i \<notin> H"
  shows "view s b = disk s b"
proof (cases "\<exists>i. cached_at s b i")
  case True
  then obtain i where i: "cached_at s b i" ..
  then have "i < NBUF" "\<not> b_dirty (buf_at s i)" using assms(2) by (auto simp: cached_at_def dirty_def)
  then show ?thesis
    using cache_inv_buf(1)[OF inv \<open>i < NBUF\<close>] view_cached[OF inv i] i assms(3) by (auto simp: buf_ok_def cached_at_def)
qed (simp add: view_uncached)

lemma got_clean:
  assumes inv: "cache_inv p pid H s" and got: "got p pid H b s i t"
  shows "b_dirty (buf_at t i) \<or> b_data (buf_at t i) = disk t b"
proof -
  have at: "cached_at t b i" and inv': "cache_inv p pid (insert i H) t" and iH: "i \<notin> H"
    using got by (simp_all add: got_def)
  have "\<not> cached_at s b j" if "j \<in> H" for j
  proof
    assume "cached_at s b j"
    then have "cached_at t b j" using got that by (simp add: got_def cached_at_def)
    then show False using cached_unique[OF inv' at] iH that by blast
  qed
  moreover have "\<not> dirty s b" if "\<not> b_dirty (buf_at t i)"
  proof -
    have "\<not> dirty t b" using that cached_unique[OF inv' at] by (auto simp: dirty_def)
    then show ?thesis using got by (simp add: got_def)
  qed
  ultimately show ?thesis using view_clean[OF inv, of b] got by (auto simp: got_def)
qed

subsection \<open>Copying a block\<close>

definition two_held :: "nat \<Rightarrow> int \<Rightarrow> uint \<Rightarrow> uint \<Rightarrow> 'z bstate_scheme \<Rightarrow> nat \<Rightarrow> nat \<Rightarrow> 'z bstate_scheme \<Rightarrow> bool" where
  "two_held p pid x y s i j t \<longleftrightarrow>
     i \<noteq> j \<and> cache_inv p pid {i, j} t \<and> cached_at t x i \<and> cached_at t y j \<and> cache_frame s t \<and> view t = view s \<and>
     b_data (buf_at t i) = view s x \<and> b_data (buf_at t j) = view s y \<and> disk t = disk s \<and> dwrites t = dwrites s \<and>
     dirty_bufs t = dirty_bufs s \<and> dirty t = dirty s \<and>
     (b_dirty (buf_at t i) \<or> b_data (buf_at t i) = disk t x) \<and> (b_dirty (buf_at t j) \<or> b_data (buf_at t j) = disk t y)"

lemma read_two:
  assumes inv: "cache_inv p pid {} s" and ne: "x \<noteq> y" and room: "x < disksize s" "y < disksize s"
    and spare: "card (dirty_bufs s) < NBUF"
    and spare2: "(\<forall>i. \<not> cached_at s y i) \<Longrightarrow> card (dirty_bufs s) + 1 < NBUF"
    and keep: "(\<exists>i. cached_at s y i) \<Longrightarrow> dirty s y \<or> card (dirty_bufs s) + 1 < NBUF"
  shows "\<exists>i j t1 t. bread 1 x s = Ret i t1 \<and> bread 1 y t1 = Ret j t \<and> two_held p pid x y s i j t"
proof -
  obtain i t1 where r1: "bread 1 x s = Ret i t1" and g1: "got p pid {} x s i t1"
    using bread_got[OF inv room(1)] spare by auto
  have inv1: "cache_inv p pid {i} t1" and at1: "cached_at t1 x i" and d1: "dirty_bufs t1 = dirty_bufs s" "dirty t1 = dirty s"
    using g1 by (simp_all add: got_def)
  have room1: "y < disksize t1" using room(2) g1 cache_frame_disksize[of s t1] by (simp add: got_def)
  have free1: "k \<notin> {i}" if "cached_at t1 y k" for k
    using at1 that ne by (auto simp: cached_at_def)
  have spare1: "card (dirty_bufs t1) + card {i} < NBUF" if "\<forall>k. \<not> cached_at t1 y k"
  proof (cases "\<exists>k. cached_at s y k")
    case True
    have "\<not> dirty t1 y" using that by (simp add: dirty_def)
    then show ?thesis using keep[OF True] d1 by simp
  next
    case False
    then show ?thesis using spare2 d1 by simp
  qed
  obtain j t where r2: "bread 1 y t1 = Ret j t" and g2: "got p pid {i} y t1 j t"
    using bread_got[OF inv1 room1] free1 spare1 by blast
  have "cache_inv p pid {i, j} t" using g2 by (simp add: got_def insert_commute)
  moreover have "cached_at t x i" using at1 g2 by (simp add: got_def cached_at_def)
  moreover have "cache_frame s t" using g1 g2 cache_frame_trans by (auto simp: got_def)
  moreover have "buf_at t i = buf_at t1 i" using g2 by (simp add: got_def)
  ultimately have "two_held p pid x y s i j t"
    using g1 g2 got_clean[OF inv g1] got_clean[OF inv1 g2] by (auto simp: two_held_def got_def)
  then show ?thesis using r1 r2 by blast
qed

definition copied :: "nat \<Rightarrow> int \<Rightarrow> uint \<Rightarrow> uchar list \<Rightarrow> 'z bstate_scheme \<Rightarrow> 'z bstate_scheme \<Rightarrow> bool" where
  "copied p pid c x s t \<longleftrightarrow>
     cache_inv p pid {} t \<and> cache_frame s t \<and> view t = (view s)(c := x) \<and> disk t = (disk s)(c := x) \<and>
     dwrites t = dwrites s @ [(c, x)] \<and> dirty t = (dirty s)(c := False) \<and> dirty_bufs t \<subseteq> dirty_bufs s"

lemma write_one:
  assumes inv: "cache_inv p pid {k, j} s" and ne: "k \<noteq> j" and at: "cached_at s c k" "cached_at s e j"
    and other: "b_dirty (buf_at s j) \<or> b_data (buf_at s j) = disk s e" and ce: "c \<noteq> e"
  shows "ok (kbind (set_data k (\<lambda>_. x)) (\<lambda>_. kbind (bwrite k) (\<lambda>_. kbind (brelse j) (\<lambda>_. brelse k)))) s
    (\<lambda>_. copied p pid c x s)"
proof -
  have n: "k < NBUF" "k < length (bufs s)" using at cache_inv_basic[OF inv] by (auto simp: cached_at_def)
  let ?f = "\<lambda>b. b\<lparr>b_data := x\<rparr>"
  let ?s1 = "upd_buf k ?f s"
  have dev: "b_dev (buf_at s k) = 1" "b_blockno (buf_at s k) = c" using at by (simp_all add: cached_at_def)
  have valid: "b_valid (buf_at s k)" using cache_inv_buf(1)[OF inv n(1)] dev by (simp add: buf_ok_def)
  have s1: "cache_inv p pid {k, j} ?s1" "view ?s1 = (view s)(c := b_data (?f (buf_at s k)))"
    "\<And>b i. cached_at ?s1 b i \<longleftrightarrow> cached_at s b i"
    by (rule cache_inv_set[OF inv at(1)]; use dev valid in simp)+
  have d1: "dirty ?s1 = dirty s" "dirty_bufs ?s1 = dirty_bufs s"
    using n by (auto simp: dirty_def dirty_bufs_def s1(3) fun_eq_iff)
  obtain s2 where w: "bwrite k ?s1 = Ret () s2" and inv2: "cache_inv p pid {k, j} s2" and at2: "cached_at s2 = cached_at ?s1"
    and fr2: "cache_frame ?s1 s2" and v2: "view s2 = view ?s1" and dk2: "disk s2 = (disk ?s1)(c := view ?s1 c)"
    and dw2: "dwrites s2 = dwrites ?s1 @ [(c, view ?s1 c)]" and data2: "b_data (buf_at s2 k) = b_data (buf_at ?s1 k)"
    and o2: "\<forall>i. i \<noteq> k \<longrightarrow> buf_at s2 i = buf_at ?s1 i"
    and b2: "dirty_bufs s2 = dirty_bufs ?s1 - {k}" and dt2: "dirty s2 = (dirty ?s1)(c := False)"
    using bwrite_contract[OF s1(1) s1(3)[THEN iffD2, OF at(1)]] by auto
  have oj: "buf_at s2 j = buf_at s j" using o2 ne n by simp
  have other2: "b_dirty (buf_at s2 j) \<or> b_data (buf_at s2 j) = disk s2 e"
    using other ce by (simp add: oj dk2)
  have at2': "cached_at s2 c k" "cached_at s2 e j" using at s1(3) by (simp_all add: at2)
  obtain s3 where r3: "brelse j s2 = Ret () s3" and inv3: "cache_inv p pid ({k, j} - {j}) s3" and at3: "cached_at s3 = cached_at s2"
    and fr3: "cache_frame s2 s3" and v3: "view s3 = view s2" and dk3: "disk s3 = disk s2" and dw3: "dwrites s3 = dwrites s2"
    and o3: "\<forall>i. i \<noteq> j \<longrightarrow> buf_at s3 i = buf_at s2 i" and b3: "dirty_bufs s3 = dirty_bufs s2" and dt3: "dirty s3 = dirty s2"
    using brelse_contract[OF inv2 at2'(2) _ other2] by auto
  have inv3': "cache_inv p pid {k} s3" using inv3 ne by (simp add: insert_Diff_if)
  have clean3: "b_dirty (buf_at s3 k) \<or> b_data (buf_at s3 k) = disk s3 c"
    using o3 ne data2 n s1(2) by (simp add: dk3 dk2)
  obtain s4 where r4: "brelse k s3 = Ret () s4" and inv4: "cache_inv p pid ({k} - {k}) s4"
    and fr4: "cache_frame s3 s4" and v4: "view s4 = view s3" and dk4: "disk s4 = disk s3" and dw4: "dwrites s4 = dwrites s3"
    and b4: "dirty_bufs s4 = dirty_bufs s3" and dt4: "dirty s4 = dirty s3"
    using brelse_contract[OF inv3' _ _ clean3] at2'(1) by (auto simp: at3)
  have "cache_frame s s4"
    by (rule cache_frame_trans[OF cache_frame_upd_buf cache_frame_trans[OF fr2 cache_frame_trans[OF fr3 fr4]]])
  then have "copied p pid c x s s4"
    unfolding copied_def using inv4 v4 v3 v2 s1(2) dk4 dk3 dk2 dw4 dw3 dw2 dt4 dt3 dt2 d1 b4 b3 b2 by auto
  then show ?thesis by (simp add: ok_def kbind_def set_data_run w r3 r4)
qed

end
