(* ===== verification/Xv6_Bytes.thy ===== *)
theory Xv6_Bytes
  imports Xv6_Bio
begin

text \<open>
  Reading back what was stored in a block: the accessors \<open>get16\<close> and \<open>get32\<close> against \<open>put16\<close>, \<open>put32\<close> and
  \<open>put_bytes\<close>, at the same place and at a disjoint one.
\<close>

named_theorems block_simps \<open>reading a block after writing it\<close>

lemma put_bytes_at [block_simps]:
  "i + length bs \<le> length d \<Longrightarrow> k < length bs \<Longrightarrow> put_bytes d i bs ! (i + k) = bs ! k"
  by (simp add: put_bytes_nth)

lemma put_bytes_off [block_simps]:
  "i + length bs \<le> length d \<Longrightarrow> k < length d \<Longrightarrow> k < i \<or> i + length bs \<le> k \<Longrightarrow> put_bytes d i bs ! k = d ! k"
  by (auto simp: put_bytes_nth)

lemma get32_put32 [block_simps]: "i + 4 \<le> length d \<Longrightarrow> get32 (put32 d i w) i = w"
  by (simp add: get32_def put32_def put_bytes_nth bytes32_def numeral_2_eq_2 numeral_3_eq_3)
    (simp flip: numeral_2_eq_2 numeral_3_eq_3)

lemma get32_put_bytes_ne [block_simps]:
  "i + length bs \<le> length d \<Longrightarrow> j + 4 \<le> length d \<Longrightarrow> j + 4 \<le> i \<or> i + length bs \<le> j \<Longrightarrow>
    get32 (put_bytes d i bs) j = get32 d j"
  by (auto simp: get32_def put_bytes_nth)

lemma get32_put32_ne [block_simps]:
  "i + 4 \<le> length d \<Longrightarrow> j + 4 \<le> length d \<Longrightarrow> j + 4 \<le> i \<or> i + 4 \<le> j \<Longrightarrow> get32 (put32 d i w) j = get32 d j"
  unfolding put32_def by (rule get32_put_bytes_ne) (auto simp: bytes32_def)

lemma get32_put16_ne [block_simps]:
  "i + 2 \<le> length d \<Longrightarrow> j + 4 \<le> length d \<Longrightarrow> j + 4 \<le> i \<or> i + 2 \<le> j \<Longrightarrow> get32 (put16 d i w) j = get32 d j"
  unfolding put16_def by (rule get32_put_bytes_ne) (auto simp: bytes16_def)

lemma ushort_halves: "ucast (ucast w :: uchar) OR push_bit 8 (ucast (ucast (drop_bit 8 w) :: uchar)) = (w :: ushort)"
proof (rule bit_word_eqI)
  fix n
  assume "n < LENGTH(16)"
  then consider "n < 8" | "8 \<le> n" "n < 16" by fastforce
  then show "bit (ucast (ucast w :: uchar) OR push_bit 8 (ucast (ucast (drop_bit 8 w) :: uchar)) :: ushort) n = bit w n"
    by cases (auto simp: bit_simps)
qed

lemma get16_put16 [block_simps]: "i + 2 \<le> length d \<Longrightarrow> get16 (put16 d i w) i = w"
  by (simp add: get16_def put16_def put_bytes_nth bytes16_def ushort_halves)

lemma get16_put_bytes_ne [block_simps]:
  "i + length bs \<le> length d \<Longrightarrow> j + 2 \<le> length d \<Longrightarrow> j + 2 \<le> i \<or> i + length bs \<le> j \<Longrightarrow>
    get16 (put_bytes d i bs) j = get16 d j"
  by (auto simp: get16_def put_bytes_nth)

lemma get16_put16_ne [block_simps]:
  "i + 2 \<le> length d \<Longrightarrow> j + 2 \<le> length d \<Longrightarrow> j + 2 \<le> i \<or> i + 2 \<le> j \<Longrightarrow> get16 (put16 d i w) j = get16 d j"
  unfolding put16_def by (rule get16_put_bytes_ne) (auto simp: bytes16_def)

lemma get16_put32_ne [block_simps]:
  "i + 4 \<le> length d \<Longrightarrow> j + 2 \<le> length d \<Longrightarrow> j + 2 \<le> i \<or> i + 4 \<le> j \<Longrightarrow> get16 (put32 d i w) j = get16 d j"
  unfolding put32_def by (rule get16_put_bytes_ne) (auto simp: bytes32_def)

text \<open>A table of words written by a loop.\<close>

lemma put32_table_length:
  "k0 + 4 * n \<le> length d \<Longrightarrow> length (foldl (\<lambda>d i. put32 d (k0 + 4 * i) (w i)) d [0..<n]) = length d"
  by (induction n) simp_all

lemma get32_table:
  assumes "k0 + 4 * n \<le> length d" and "i < n"
  shows "get32 (foldl (\<lambda>d i. put32 d (k0 + 4 * i) (w i)) d [0..<n]) (k0 + 4 * i) = w i"
  using assms
proof (induction n)
  case (Suc n)
  then show ?case
    by (cases "i = n") (simp_all add: block_simps put32_table_length)
qed simp

lemma get32_table_ne:
  assumes "k0 + 4 * n \<le> length d" and "j + 4 \<le> length d" and "j + 4 \<le> k0 \<or> k0 + 4 * n \<le> j"
  shows "get32 (foldl (\<lambda>d i. put32 d (k0 + 4 * i) (w i)) d [0..<n]) j = get32 d j"
  using assms by (induction n) (auto simp: block_simps put32_table_length)

lemma get16_table_ne:
  assumes "k0 + 4 * n \<le> length d" and "j + 2 \<le> length d" and "j + 2 \<le> k0 \<or> k0 + 4 * n \<le> j"
  shows "get16 (foldl (\<lambda>d i. put32 d (k0 + 4 * i) (w i)) d [0..<n]) j = get16 d j"
  using assms by (induction n) (auto simp: block_simps put32_table_length)

end
