(* ===== verification/Xv6_Crash.thy ===== *)
theory Xv6_Crash
  imports Xv6_Log Xv6_Cache Xv6_Bytes
begin

text \<open>
  The log makes transactions atomic under crashes. A crash leaves on the disk a prefix of the block
  writes the kernel issued; a single block write is atomic. Recovery at the next boot then leaves, on
  every block outside the log, either the state before the transaction or the state after it.
\<close>

subsection \<open>Writes and crashes\<close>

definition apply_writes :: "(uint \<Rightarrow> uchar list) \<Rightarrow> (uint \<times> uchar list) list \<Rightarrow> (uint \<Rightarrow> uchar list)" where
  "apply_writes d ws = foldl (\<lambda>d (b, x). d(b := x)) d ws"

lemma apply_writes_simps [simp]:
  "apply_writes d [] = d" "apply_writes d (w # ws) = apply_writes (d(fst w := snd w)) ws"
  "apply_writes d (ws @ ws') = apply_writes (apply_writes d ws) ws'"
  by (simp_all add: apply_writes_def split: prod.split)

lemma apply_writes_other: "b \<notin> fst ` set ws \<Longrightarrow> apply_writes d ws b = d b"
  by (induction ws arbitrary: d) auto

lemma apply_writes_map:
  assumes "distinct (map f xs)" and "x \<in> set xs"
  shows "apply_writes d (map (\<lambda>x. (f x, g x)) xs) (f x) = g x"
  using assms
proof (induction xs arbitrary: d)
  case (Cons y ys)
  show ?case
  proof (cases "x \<in> set ys")
    case False
    then have "x = y" using Cons.prems by simp
    then show ?thesis using Cons.prems(1) by (auto simp: apply_writes_other image_image)
  qed (use Cons in simp)
qed simp

subsection \<open>The log on disk\<close>

definition log_area :: "int \<Rightarrow> uint set" where
  "log_area start = (\<lambda>i. word_of_int (start + int i)) ` {0..<LOGSIZE}"

definition log_room :: "int \<Rightarrow> uint \<Rightarrow> bool" where
  "log_room start n \<longleftrightarrow> 0 \<le> start \<and> start + int LOGSIZE \<le> Word.uint n"

lemma uint_of_int: "0 \<le> k \<Longrightarrow> k < 2 ^ 32 \<Longrightarrow> Word.uint (word_of_int k :: uint) = k"
  by (simp add: unsigned_of_int take_bit_int_eq_self)

lemma log_word:
  assumes "log_room start n" and "i < LOGSIZE"
  shows "Word.uint (word_of_int (start + int i) :: uint) = start + int i"
    and "(word_of_int (start + int i) :: uint) < n"
proof -
  have lt: "start + int i < Word.uint n" using assms by (simp add: log_room_def)
  also have "\<dots> < 2 ^ 32" using uint_lt2p[of n] by simp
  finally show eq: "Word.uint (word_of_int (start + int i) :: uint) = start + int i"
    using assms by (intro uint_of_int) (simp_all add: log_room_def)
  show "(word_of_int (start + int i) :: uint) < n"
    using lt eq by (simp add: word_less_def)
qed

lemma log_word_inj:
  assumes "log_room start n" and "i < LOGSIZE" and "j < LOGSIZE"
  shows "(word_of_int (start + int i) :: uint) = word_of_int (start + int j) \<longleftrightarrow> i = j"
  using log_word(1)[OF assms(1,2)] log_word(1)[OF assms(1,3)] by (metis add_left_cancel of_nat_eq_iff)

lemma log_block_word: "log_block start i = word_of_int (start + int (Suc i))"
  by (simp add: log_block_def algebra_simps)

lemma log_block_area [simp]: "Suc i < LOGSIZE \<Longrightarrow> log_block start i \<in> log_area start"
  unfolding log_block_word log_area_def by (intro imageI) simp

lemma log_head_area [simp]: "word_of_int start \<in> log_area start"
  unfolding log_area_def by (rule image_eqI[of _ _ 0]) (simp_all add: param_defs)

lemma log_block_inj:
  "log_room start n \<Longrightarrow> Suc i < LOGSIZE \<Longrightarrow> Suc j < LOGSIZE \<Longrightarrow> log_block start i = log_block start j \<longleftrightarrow> i = j"
  unfolding log_block_word using log_word_inj[of start n "Suc i" "Suc j"] by simp

lemma log_block_head: "log_room start n \<Longrightarrow> Suc i < LOGSIZE \<Longrightarrow> log_block start i \<noteq> word_of_int start"
  unfolding log_block_word using log_word_inj[of start n "Suc i" 0] by (simp add: param_defs)

lemma log_block_lt: "log_room start n \<Longrightarrow> Suc i < LOGSIZE \<Longrightarrow> log_block start i < n"
  unfolding log_block_word by (rule log_word(2))

lemma log_head_lt: "log_room start n \<Longrightarrow> word_of_int start < n"
  using log_word(2)[of start n 0] by (simp add: param_defs)

text \<open>The header block: what \<open>head_data\<close> stores is what \<open>read_head\<close> decodes.\<close>

lemma head_data_zero [simp]: "head_data 0 bs d = put32 d 0 0"
  by (simp add: head_data_def)

lemma head_data_get:
  assumes "length d = BSIZE" and "n \<le> LOGSIZE"
  shows "get32 (head_data (int n) bs d) 0 = word_of_int (int n)"
    and "i < n \<Longrightarrow> get32 (head_data (int n) bs d) (4 + 4 * i) = word_of_int (bs ! i)"
    and "length (head_data (int n) bs d) = BSIZE"
proof -
  let ?d = "put32 d 0 (word_of_int (int n))"
  have len: "length ?d = BSIZE" using assms(1) by (simp add: BSIZE_def)
  have fits: "4 + 4 * n \<le> length ?d" using assms(2) len by (simp add: BSIZE_def param_defs)
  show "get32 (head_data (int n) bs d) 0 = word_of_int (int n)"
    unfolding head_data_def nat_int
    by (subst get32_table_ne[OF fits]) (use assms(1) len in \<open>auto simp: BSIZE_def block_simps\<close>)
  show "get32 (head_data (int n) bs d) (4 + 4 * i) = word_of_int (bs ! i)" if "i < n"
    unfolding head_data_def nat_int by (rule get32_table[OF fits that])
  show "length (head_data (int n) bs d) = BSIZE"
    unfolding head_data_def nat_int using put32_table_length[OF fits] len by simp
qed

subsection \<open>Recovery on the disk\<close>

text \<open>What recovery does to the disk, as a function on disks.\<close>

definition head_count :: "int \<Rightarrow> (uint \<Rightarrow> uchar list) \<Rightarrow> nat" where
  "head_count start d = nat (sint (get32 (d (word_of_int start)) 0))"

definition head_home :: "int \<Rightarrow> (uint \<Rightarrow> uchar list) \<Rightarrow> nat \<Rightarrow> uint" where
  "head_home start d i = word_of_int (sint (get32 (d (word_of_int start)) (4 + 4 * i)))"

definition recovered :: "int \<Rightarrow> (uint \<Rightarrow> uchar list) \<Rightarrow> (uint \<Rightarrow> uchar list)" where
  "recovered start d =
     (apply_writes d (map (\<lambda>i. (head_home start d i, d (log_block start i))) [0..<head_count start d]))
       (word_of_int start := put32 (d (word_of_int start)) 0 0)"

definition commit_writes :: "int \<Rightarrow> int list \<Rightarrow> nat \<Rightarrow> (uint \<Rightarrow> uchar list) \<Rightarrow> uchar list \<Rightarrow> (uint \<times> uchar list) list" where
  "commit_writes start bs n v h =
     map (\<lambda>i. (log_block start i, v (word_of_int (bs ! i)))) [0..<n] @
     [(word_of_int start, head_data (int n) bs h)] @
     map (\<lambda>i. (word_of_int (bs ! i), v (word_of_int (bs ! i)))) [0..<n] @
     [(word_of_int start, put32 (head_data (int n) bs h) 0 0)]"

text \<open>The homes of a transaction: distinct blocks outside the log.\<close>

definition homes :: "int list \<Rightarrow> nat \<Rightarrow> uint list" where
  "homes bs n = map (\<lambda>i. word_of_int (bs ! i)) [0..<n]"

definition installed :: "int list \<Rightarrow> nat \<Rightarrow> (uint \<Rightarrow> uchar list) \<Rightarrow> (uint \<Rightarrow> uchar list) \<Rightarrow> (uint \<Rightarrow> uchar list)" where
  "installed bs n v d b = (if b \<in> set (homes bs n) then v b else d b)"

lemma apply_home_writes:
  assumes "distinct (homes bs n)" and "m \<le> n"
  shows "apply_writes d (map (\<lambda>i. (word_of_int (bs ! i), v (word_of_int (bs ! i)))) [0..<m]) =
    installed bs m v d"
proof
  fix b
  let ?ws = "map (\<lambda>i. (word_of_int (bs ! i) :: uint, v (word_of_int (bs ! i)))) [0..<m]"
  have "homes bs m = take m (homes bs n)" using assms(2) by (simp add: homes_def take_map)
  then have dist: "distinct (map (\<lambda>i. word_of_int (bs ! i) :: uint) [0..<m])"
    using assms(1) by (metis distinct_take homes_def)
  show "apply_writes d ?ws b = installed bs m v d b"
  proof (cases "b \<in> set (homes bs m)")
    case True
    then obtain i where "i < m" "b = word_of_int (bs ! i)" by (auto simp: homes_def)
    then show ?thesis using apply_writes_map[OF dist, of i d "\<lambda>i. v (word_of_int (bs ! i))"] True
      by (simp add: installed_def)
  next
    case False
    then show ?thesis by (simp add: installed_def homes_def apply_writes_other image_image)
  qed
qed

lemma sint_small: "n \<le> LOGSIZE \<Longrightarrow> sint (word_of_int (int n) :: uint) = int n"
  by (simp only: signed_of_int) (simp add: signed_take_bit_int_eq_self param_defs)

text \<open>Once the header is on the disk, recovery installs the transaction.\<close>

lemma recovered_committed:
  assumes room: "log_room start sz" and n: "n < LOGSIZE"
    and dist: "distinct (homes bs n)" and out: "set (homes bs n) \<inter> log_area start = {}"
    and len: "length h = BSIZE"
    and head: "d (word_of_int start) = head_data (int n) bs h"
    and logged: "\<forall>i < n. d (log_block start i) = v (word_of_int (bs ! i))"
    and b: "b \<notin> log_area start"
  shows "recovered start d b = installed bs n v d b"
proof -
  have count: "head_count start d = n"
    unfolding head_count_def head head_data_get(1)[OF len less_imp_le[OF n]] sint_small[OF less_imp_le[OF n]] by simp
  have home: "head_home start d i = word_of_int (bs ! i)" if "i < n" for i
    unfolding head_home_def head head_data_get(2)[OF len less_imp_le[OF n] that] by simp
  have "map (\<lambda>i. (head_home start d i, d (log_block start i))) [0..<head_count start d] =
      map (\<lambda>i. (word_of_int (bs ! i), v (word_of_int (bs ! i)))) [0..<n]"
    using home logged count by simp
  moreover have "b \<noteq> word_of_int start" using b by auto
  ultimately show ?thesis
    by (simp add: recovered_def apply_home_writes[OF dist order_refl])
qed

lemma recovered_empty:
  assumes "get32 (d (word_of_int start)) 0 = 0" and "b \<notin> log_area start"
  shows "recovered start d b = d b"
  using assms by (auto simp: recovered_def head_count_def)

lemma crash_disk:
  assumes room: "log_room start sz" and n: "n < LOGSIZE"
    and dist: "distinct (homes bs n)" and out: "set (homes bs n) \<inter> log_area start = {}"
    and len: "length (d (word_of_int start)) = BSIZE" and head: "get32 (d (word_of_int start)) 0 = 0"
    and b: "b \<notin> log_area start"
  shows "recovered start (apply_writes d (take k (commit_writes start bs n v (d (word_of_int start))))) b =
    (if k \<le> n then d b else installed bs n v d b)"
proof -
  let ?hd = "word_of_int start :: uint" and ?h = "d (word_of_int start)"
  let ?logs = "map (\<lambda>i. (log_block start i, v (word_of_int (bs ! i)))) [0..<n]"
  let ?hw = "(?hd, head_data (int n) bs ?h)" and ?hz = "(?hd, put32 (head_data (int n) bs ?h) 0 0)"
  let ?homes = "map (\<lambda>i. (word_of_int (bs ! i), v (word_of_int (bs ! i)))) [0..<n]"
  have ws: "commit_writes start bs n v ?h = ?logs @ ?hw # ?homes @ [?hz]" by (simp add: commit_writes_def)
  have home_out: "c \<notin> set (homes bs j)" if "c \<in> log_area start" "j \<le> n" for c j
  proof -
    have "set (homes bs j) \<subseteq> set (homes bs n)" using that(2) by (auto simp: homes_def)
    then show ?thesis using out that(1) by blast
  qed
  have nb: "b \<noteq> ?hd" using b by auto
  have logs: "apply_writes e (take m ?logs) c = e c" if "c \<notin> log_block start ` {0..<n}" for e m c
    using that by (intro apply_writes_other) (auto dest!: in_set_takeD)
  have lb: "log_block start i \<in> log_area start" "log_block start i \<noteq> ?hd" if "i < n" for i
    using n that log_block_head[OF room, of i] by simp_all
  have hd_log: "?hd \<notin> log_block start ` {0..<n}"
    unfolding image_iff using lb(2) by (metis atLeastLessThan_iff)
  have b_log: "b \<notin> log_block start ` {0..<n}"
    unfolding image_iff using b lb(1) by (metis atLeastLessThan_iff)
  consider (logging) "k \<le> n" | (installing) "n < k" "k \<le> n + 1 + n" | (finished) "n + 1 + n < k" by linarith
  then show ?thesis
  proof cases
    case logging
    let ?d = "apply_writes d (take k ?logs)"
    have "?d ?hd = ?h" by (rule logs[OF hd_log])
    then have "recovered start ?d b = ?d b" using head b by (simp add: recovered_empty)
    moreover have "?d b = d b" by (rule logs[OF b_log])
    ultimately show ?thesis using logging by (simp add: ws)
  next
    case installing
    let ?m = "k - n - 1"
    have m: "?m \<le> n" using installing by simp
    let ?e = "(apply_writes d ?logs)(?hd := head_data (int n) bs ?h)"
    have "take k (?logs @ ?hw # ?homes @ [?hz]) = ?logs @ ?hw # take ?m ?homes"
      using installing by (simp add: take_Cons' Suc_diff_le)
    then have eq: "apply_writes d (take k (commit_writes start bs n v ?h)) = installed bs ?m v ?e"
      unfolding ws using apply_home_writes[OF dist m] m by (simp add: take_map)
    have log_n: "log_block start i \<notin> set (homes bs ?m)" if "i < n" for i
      by (rule home_out[OF lb(1)[OF that] m])
    have "recovered start (installed bs ?m v ?e) b = installed bs n v (installed bs ?m v ?e) b"
    proof (rule recovered_committed[OF room n dist out len _ _ b])
      show "installed bs ?m v ?e ?hd = head_data (int n) bs ?h"
        using home_out[OF log_head_area m] by (simp add: installed_def)
      have dl: "distinct (map (log_block start) [0..<n])"
        using log_block_inj[OF room] n by (auto simp: distinct_map inj_on_def)
      show "\<forall>i < n. installed bs ?m v ?e (log_block start i) = v (word_of_int (bs ! i))"
        using log_n lb(2)
          apply_writes_map[OF dl, of _ d "\<lambda>i. v (word_of_int (bs ! i))"] by (auto simp: installed_def)
    qed
    moreover have "installed bs n v (installed bs ?m v ?e) b = installed bs n v d b"
      using logs[OF b_log, of d n] nb m by (auto simp: installed_def homes_def)
    ultimately show ?thesis using eq installing by simp
  next
    case finished
    let ?e = "(apply_writes d ?logs)(?hd := head_data (int n) bs ?h)"
    let ?f = "(installed bs n v ?e)(?hd := put32 (head_data (int n) bs ?h) 0 0)"
    have eq: "apply_writes d (take k (commit_writes start bs n v ?h)) = ?f"
      unfolding ws using finished apply_home_writes[OF dist order_refl] by simp
    have "get32 (?f ?hd) 0 = 0"
      using head_data_get(3)[OF len less_imp_le[OF n]] by (simp add: block_simps BSIZE_def)
    then have "recovered start ?f b = ?f b" by (rule recovered_empty[OF _ b])
    also have "\<dots> = installed bs n v d b"
      using logs[OF b_log, of d n] nb by (simp add: installed_def)
    finally show ?thesis using eq finished by simp
  qed
qed

subsection \<open>The operations of the log\<close>

lemma cache_frame_log:
  assumes "cache_frame s t"
  shows "lg_start t = lg_start s" and "lg_size t = lg_size s" and "lg_outstanding t = lg_outstanding s"
    and "lg_committing t = lg_committing s" and "lg_dev t = lg_dev s" and "lg_n t = lg_n s" and "lg_block t = lg_block s"
proof -
  have t: "t = s\<lparr>ptable := ptable t, bufs := bufs t, lru := lru t, disk := disk t, dwrites := dwrites t\<rparr>"
    using assms by (simp add: cache_frame_def)
  show "lg_start t = lg_start s" by (subst t) simp
  show "lg_size t = lg_size s" by (subst t) simp
  show "lg_outstanding t = lg_outstanding s" by (subst t) simp
  show "lg_committing t = lg_committing s" by (subst t) simp
  show "lg_dev t = lg_dev s" by (subst t) simp
  show "lg_n t = lg_n s" by (subst t) simp
  show "lg_block t = lg_block s" by (subst t) simp
qed

lemma spare_two:
  assumes "cache_inv p pid {} s" and "x \<noteq> y" and "x < disksize s" and "y < disksize s"
    and "card (dirty_bufs s) < NBUF" and "dirty s y \<or> card (dirty_bufs s) + 1 < NBUF"
  shows "\<exists>i j t1 t. bread 1 x s = Ret i t1 \<and> bread 1 y t1 = Ret j t \<and> two_held p pid x y s i j t"
  using assms by (intro read_two) (auto simp: dirty_def)

lemma write_log1_ok:
  assumes inv: "cache_inv p pid {} s" and dev: "lg_dev s = 1"
    and xy: "x = log_block (lg_start s) k" "y = word_of_int (lg_block s ! k)"
    and ne: "x \<noteq> y" and room: "x < disksize s" "y < disksize s"
    and spare: "card (dirty_bufs s) < NBUF" "dirty s y \<or> card (dirty_bufs s) + 1 < NBUF"
  shows "ok (write_log1 k) s (\<lambda>_. copied p pid x (view s y) s)"
proof -
  obtain i j t1 t where r: "bread 1 x s = Ret i t1" "bread 1 y t1 = Ret j t" and two: "two_held p pid x y s i j t"
    using spare_two[OF inv ne room spare] by blast
  have "ok (kbind (set_data i (\<lambda>_. view s y)) (\<lambda>_. kbind (bwrite i) (\<lambda>_. kbind (brelse j) (\<lambda>_. brelse i)))) t
      (\<lambda>_. copied p pid x (view s y) t)"
    by (rule write_one[of p pid i j t x y]) (use two ne in \<open>auto simp: two_held_def\<close>)
  then have "ok (kbind (set_data i (\<lambda>_. view s y)) (\<lambda>_. kbind (bwrite i) (\<lambda>_. kbind (brelse j) (\<lambda>_. brelse i)))) t
      (\<lambda>_. copied p pid x (view s y) s)"
    by (rule ok_mono) (use two cache_frame_trans in \<open>auto simp: copied_def two_held_def\<close>)
  then show ?thesis
    using r two by (simp add: write_log1_def kbind_def dev xy[symmetric] buf_data_def two_held_def ok_def)
qed

lemma install_trans1_ok:
  assumes inv: "cache_inv p pid {} s" and dev: "lg_dev s = 1"
    and xy: "x = log_block (lg_start s) k" "y = word_of_int (lg_block s ! k)"
    and ne: "x \<noteq> y" and room: "x < disksize s" "y < disksize s"
    and spare: "card (dirty_bufs s) < NBUF" "dirty s y \<or> card (dirty_bufs s) + 1 < NBUF"
  shows "ok (install_trans1 k) s (\<lambda>_. copied p pid y (view s x) s)"
proof -
  obtain i j t1 t where r: "bread 1 x s = Ret i t1" "bread 1 y t1 = Ret j t" and two: "two_held p pid x y s i j t"
    using spare_two[OF inv ne room spare] by blast
  have "ok (kbind (set_data j (\<lambda>_. view s x)) (\<lambda>_. kbind (bwrite j) (\<lambda>_. kbind (brelse i) (\<lambda>_. brelse j)))) t
      (\<lambda>_. copied p pid y (view s x) t)"
    by (rule write_one[of p pid j i t y x]) (use two ne in \<open>auto simp: two_held_def insert_commute\<close>)
  then have "ok (kbind (set_data j (\<lambda>_. view s x)) (\<lambda>_. kbind (bwrite j) (\<lambda>_. kbind (brelse i) (\<lambda>_. brelse j)))) t
      (\<lambda>_. copied p pid y (view s x) s)"
    by (rule ok_mono) (use two cache_frame_trans in \<open>auto simp: copied_def two_held_def\<close>)
  then show ?thesis
    using r two by (simp add: install_trans1_def kbind_def dev xy[symmetric] buf_data_def two_held_def ok_def)
qed

lemma write_head_ok:
  assumes inv: "cache_inv p pid {} s" and dev: "lg_dev s = 1" and hd: "h = word_of_int (lg_start s)"
    and room: "h < disksize s" and spare: "card (dirty_bufs s) < NBUF"
  shows "ok write_head s (\<lambda>_. copied p pid h (head_data (lg_n s) (lg_block s) (view s h)) s)"
proof -
  obtain i t where r: "bread 1 h s = Ret i t" and g: "got p pid {} h s i t"
    using bread_got[OF inv room] spare by auto
  let ?x = "head_data (lg_n s) (lg_block s) (view s h)"
  let ?f = "\<lambda>b. b\<lparr>b_data := head_data (lg_n s) (lg_block s) (b_data b)\<rparr>"
  let ?t1 = "upd_buf i ?f t"
  have inv1: "cache_inv p pid {i} t" and at: "cached_at t h i" using g by (simp_all add: got_def)
  have n: "i < NBUF" "i < length (bufs t)" using at cache_inv_basic[OF inv1] by (auto simp: cached_at_def)
  have bdev: "b_dev (buf_at t i) = 1" "b_blockno (buf_at t i) = h" using at by (simp_all add: cached_at_def)
  have valid: "b_valid (buf_at t i)" using cache_inv_buf(1)[OF inv1 n(1)] bdev by (simp add: buf_ok_def)
  have t1: "cache_inv p pid {i} ?t1" "view ?t1 = (view t)(h := b_data (?f (buf_at t i)))"
    "\<And>b k. cached_at ?t1 b k \<longleftrightarrow> cached_at t b k"
    by (rule cache_inv_set[OF inv1 at]; use bdev valid in simp)+
  have v1: "view ?t1 h = ?x" using t1(2) g by (simp add: got_def)
  have d1: "dirty ?t1 = dirty t" "dirty_bufs ?t1 = dirty_bufs t"
    using n by (auto simp: dirty_def dirty_bufs_def t1(3) fun_eq_iff)
  obtain u where w: "bwrite i ?t1 = Ret () u" and inv2: "cache_inv p pid {i} u" and at2: "cached_at u = cached_at ?t1"
    and fr2: "cache_frame ?t1 u" and v2: "view u = view ?t1" and dk2: "disk u = (disk ?t1)(h := view ?t1 h)"
    and dw2: "dwrites u = dwrites ?t1 @ [(h, view ?t1 h)]" and data2: "b_data (buf_at u i) = b_data (buf_at ?t1 i)"
    and b2: "dirty_bufs u = dirty_bufs ?t1 - {i}" and dt2: "dirty u = (dirty ?t1)(h := False)"
    using bwrite_contract[OF t1(1) t1(3)[THEN iffD2, OF at]] by auto
  have clean: "b_dirty (buf_at u i) \<or> b_data (buf_at u i) = disk u h"
    using view_cached[OF t1(1) t1(3)[THEN iffD2, OF at]] by (simp add: data2 dk2)
  obtain v where rl: "brelse i u = Ret () v" and inv3: "cache_inv p pid ({i} - {i}) v"
    and fr3: "cache_frame u v" and v3: "view v = view u" and dk3: "disk v = disk u" and dw3: "dwrites v = dwrites u"
    and b3: "dirty_bufs v = dirty_bufs u" and dt3: "dirty v = dirty u"
    using brelse_contract[OF inv2 _ _ clean] at t1(3) by (auto simp: at2)
  have "cache_frame s v"
    using g cache_frame_trans[OF cache_frame_trans[OF _ cache_frame_upd_buf] cache_frame_trans[OF fr2 fr3]]
    by (auto simp: got_def)
  then have "copied p pid h ?x s v"
    unfolding copied_def using inv3 v3 v2 t1(2) v1 dk3 dk2 dw3 dw2 dt3 dt2 d1 b3 b2 g by (auto simp: got_def)
  then show ?thesis
    using r w rl g by (simp add: write_head_def ok_def kbind_def dev hd[symmetric] set_data_run)
qed

text \<open>A loop of block copies, each to the block \<open>c i\<close> with the content \<open>x i\<close>.\<close>

definition copies :: "nat \<Rightarrow> int \<Rightarrow> (uint \<times> uchar list) list \<Rightarrow> 'z bstate_scheme \<Rightarrow> 'z bstate_scheme \<Rightarrow> bool" where
  "copies p pid ws s t \<longleftrightarrow>
     cache_inv p pid {} t \<and> cache_frame s t \<and> view t = apply_writes (view s) ws \<and> disk t = apply_writes (disk s) ws \<and>
     dwrites t = dwrites s @ ws \<and> dirty t = (\<lambda>b. dirty s b \<and> b \<notin> fst ` set ws) \<and> dirty_bufs t \<subseteq> dirty_bufs s"

lemma copies_snoc:
  assumes "copies p pid ws s t" and "copied p pid c x t u"
  shows "copies p pid (ws @ [(c, x)]) s u"
  using assms cache_frame_trans[of s t u] by (auto simp: copies_def copied_def fun_eq_iff)

lemma copies_trans:
  assumes "copies p pid ws s t" and "copies p pid ws' t u"
  shows "copies p pid (ws @ ws') s u"
  using assms cache_frame_trans[of s t u] by (auto simp: copies_def)

lemma copies_refl: "cache_inv p pid {} s \<Longrightarrow> copies p pid [] s s"
  by (simp add: copies_def)

lemma copied_copies: "cache_inv p pid {} s \<Longrightarrow> copied p pid c x s t \<Longrightarrow> copies p pid [(c, x)] s t"
  using copies_snoc[OF copies_refl] by fastforce

lemma copy_loop:
  fixes s :: "'z lstate_scheme"
  assumes inv: "cache_inv p pid {} s"
    and step: "\<And>k (t :: 'z lstate_scheme). k < n \<Longrightarrow> copies p pid (map (\<lambda>i. (c i, x i)) [0..<k]) s t \<Longrightarrow>
      ok (f k) t (\<lambda>_. copied p pid (c k) (x k) t)"
  shows "ok (kfor [0..<n] f) s (\<lambda>_. copies p pid (map (\<lambda>i. (c i, x i)) [0..<n]) s)"
proof -
  have "ok (kfor [0..<n] f) s (\<lambda>_. copies p pid (map (\<lambda>i. (c i, x i)) [0..<length [0..<n]]) s)"
  proof (rule ok_kfor)
    show "copies p pid (map (\<lambda>i. (c i, x i)) [0..<0]) s s" using copies_refl[OF inv] by simp
    fix k and t :: "'z lstate_scheme"
    assume k: "k < length [0..<n]" and I: "copies p pid (map (\<lambda>i. (c i, x i)) [0..<k]) s t"
    have "ok (f k) t (\<lambda>_. copied p pid (c k) (x k) t)" by (rule step) (use k I in simp_all)
    then show "ok (f ([0..<n] ! k)) t (\<lambda>_. copies p pid (map (\<lambda>i. (c i, x i)) [0..<Suc k]) s)"
      using k copies_snoc[OF I] by (auto simp: ok_def)
  qed
  then show ?thesis by simp
qed

definition log_ok :: "nat \<Rightarrow> int \<Rightarrow> 'z lstate_scheme \<Rightarrow> bool" where
  "log_ok p pid s \<longleftrightarrow>
     cache_inv p pid {} s \<and> lg_dev s = 1 \<and> log_room (lg_start s) (disksize s) \<and>
     0 \<le> lg_n s \<and> lg_n s < int LOGSIZE \<and> length (lg_block s) = LOGSIZE \<and>
     distinct (homes (lg_block s) (nat (lg_n s))) \<and> set (homes (lg_block s) (nat (lg_n s))) \<inter> log_area (lg_start s) = {} \<and>
     (\<forall>h \<in> set (homes (lg_block s) (nat (lg_n s))). h < disksize s) \<and>
     Collect (dirty s) = set (homes (lg_block s) (nat (lg_n s))) \<and>
     length (disk s (word_of_int (lg_start s))) = BSIZE \<and> get32 (disk s (word_of_int (lg_start s))) 0 = 0"

lemma log_ok_spare:
  assumes "log_ok p pid s"
  shows "card (dirty_bufs s) < NBUF"
proof -
  let ?h = "homes (lg_block s) (nat (lg_n s))"
  have "card (dirty_bufs s) \<le> card (set ?h)"
    by (rule card_dirty_bufs[of p pid "{}"]) (use assms in \<open>auto simp: log_ok_def\<close>)
  also have "\<dots> \<le> length ?h" by (rule card_length)
  also have "\<dots> < NBUF" using assms by (auto simp: homes_def log_ok_def param_defs)
  finally show ?thesis .
qed

lemma copies_spare:
  assumes "copies p pid ws s t" and "card (dirty_bufs s) < NBUF"
  shows "card (dirty_bufs t) < NBUF"
proof -
  have "finite (dirty_bufs s)" by (simp add: dirty_bufs_def)
  then have "card (dirty_bufs t) \<le> card (dirty_bufs s)" using assms(1) by (auto simp: copies_def intro: card_mono)
  then show ?thesis using assms(2) by simp
qed

lemma home_facts:
  assumes "log_ok p pid s" and "i < nat (lg_n s)"
  shows "word_of_int (lg_block s ! i) \<notin> log_area (lg_start s)" and "word_of_int (lg_block s ! i) < disksize s"
    and "dirty s (word_of_int (lg_block s ! i))" and "Suc i < LOGSIZE"
    and "log_block (lg_start s) i < disksize s" and "log_block (lg_start s) i \<noteq> word_of_int (lg_block s ! i)"
proof -
  have mem: "word_of_int (lg_block s ! i) \<in> set (homes (lg_block s) (nat (lg_n s)))"
    using assms(2) by (simp add: homes_def)
  show out: "word_of_int (lg_block s ! i) \<notin> log_area (lg_start s)" using assms(1) mem by (auto simp: log_ok_def)
  show "word_of_int (lg_block s ! i) < disksize s" using assms(1) mem by (auto simp: log_ok_def)
  show "dirty s (word_of_int (lg_block s ! i))" using assms(1) mem by (auto simp: log_ok_def)
  show i: "Suc i < LOGSIZE" using assms by (auto simp: log_ok_def)
  show "log_block (lg_start s) i < disksize s"
    using assms(1) i log_block_lt by (auto simp: log_ok_def)
  show "log_block (lg_start s) i \<noteq> word_of_int (lg_block s ! i)" using out log_block_area[OF i] by metis
qed

lemma write_log_ok:
  fixes s :: "'z lstate_scheme"
  assumes ok: "log_ok p pid s"
  shows "ok write_log s (\<lambda>_. copies p pid
    (map (\<lambda>i. (log_block (lg_start s) i, view s (word_of_int (lg_block s ! i)))) [0..<nat (lg_n s)]) s)"
proof -
  have inv: "cache_inv p pid {} s" using ok by (simp add: log_ok_def)
  have "ok (kfor [0..<nat (lg_n s)] write_log1) s (\<lambda>_. copies p pid
    (map (\<lambda>i. (log_block (lg_start s) i, view s (word_of_int (lg_block s ! i)))) [0..<nat (lg_n s)]) s)"
  proof (rule copy_loop[OF inv])
    fix k and t :: "'z lstate_scheme"
    let ?ws = "map (\<lambda>i. (log_block (lg_start s) i, view s (word_of_int (lg_block s ! i)))) [0..<k]"
    let ?y = "word_of_int (lg_block s ! k) :: uint"
    assume k: "k < nat (lg_n s)" and I: "copies p pid ?ws s t"
    note h = home_facts[OF ok k]
    have fr: "cache_frame s t" and inv_t: "cache_inv p pid {} t" using I by (simp_all add: copies_def)
    note lg = cache_frame_log[OF fr] and ds = cache_frame_disksize[OF fr]
    have notlog: "?y \<notin> fst ` set ?ws"
    proof
      assume "?y \<in> fst ` set ?ws"
      then obtain i where "i < k" "?y = log_block (lg_start s) i" by auto
      then show False using h(1,4) log_block_area[of i "lg_start s"] by auto
    qed
    have v: "view t ?y = view s ?y" using I notlog by (simp add: copies_def apply_writes_other)
    have "ok (write_log1 k) t (\<lambda>_. copied p pid (log_block (lg_start s) k) (view t ?y) t)"
    proof (rule write_log1_ok[OF inv_t])
      show "dirty t ?y \<or> card (dirty_bufs t) + 1 < NBUF" using I h(3) notlog by (simp add: copies_def)
      show "card (dirty_bufs t) < NBUF" by (rule copies_spare[OF I log_ok_spare[OF ok]])
    qed (use h ok in \<open>simp_all add: lg ds log_ok_def\<close>)
    then show "ok (write_log1 k) t (\<lambda>_. copied p pid (log_block (lg_start s) k) (view s ?y) t)" by (simp add: v)
  qed
  then show ?thesis by (simp add: write_log_def ok_bind_iff)
qed

lemma install_trans_ok:
  fixes s :: "'z lstate_scheme"
  assumes inv: "cache_inv p pid {} s" and dev: "lg_dev s = 1" and room: "log_room (lg_start s) (disksize s)"
    and n: "nat (lg_n s) < LOGSIZE" and dist: "distinct (homes (lg_block s) (nat (lg_n s)))"
    and home: "\<And>i. i < nat (lg_n s) \<Longrightarrow> word_of_int (lg_block s ! i) \<notin> log_area (lg_start s) \<and>
      word_of_int (lg_block s ! i) < disksize s \<and>
      (dirty s (word_of_int (lg_block s ! i)) \<or> card (dirty_bufs s) + 1 < NBUF)"
    and spare: "card (dirty_bufs s) < NBUF"
  shows "ok install_trans s (\<lambda>_. copies p pid
    (map (\<lambda>i. (word_of_int (lg_block s ! i), view s (log_block (lg_start s) i))) [0..<nat (lg_n s)]) s)"
proof -
  have "ok (kfor [0..<nat (lg_n s)] install_trans1) s (\<lambda>_. copies p pid
    (map (\<lambda>i. (word_of_int (lg_block s ! i), view s (log_block (lg_start s) i))) [0..<nat (lg_n s)]) s)"
  proof (rule copy_loop[OF inv])
    fix k and t :: "'z lstate_scheme"
    let ?ws = "map (\<lambda>i. (word_of_int (lg_block s ! i) :: uint, view s (log_block (lg_start s) i))) [0..<k]"
    let ?x = "log_block (lg_start s) k" and ?y = "word_of_int (lg_block s ! k) :: uint"
    assume k: "k < nat (lg_n s)" and I: "copies p pid ?ws s t"
    have fr: "cache_frame s t" and inv_t: "cache_inv p pid {} t" using I by (simp_all add: copies_def)
    note lg = cache_frame_log[OF fr] and ds = cache_frame_disksize[OF fr]
    have area: "?x \<in> log_area (lg_start s)" using k n by simp
    have x: "?x \<notin> fst ` set ?ws"
    proof
      assume "?x \<in> fst ` set ?ws"
      then obtain i where "i < k" "?x = word_of_int (lg_block s ! i)" by auto
      then have "?x \<notin> log_area (lg_start s)" using home[of i] k by simp
      then show False using area by simp
    qed
    have ne: "?x \<noteq> ?y" using home[OF k] area by metis
    have xs: "?x < disksize s" by (rule log_block_lt[OF room]) (use k n in simp)
    have y: "?y \<notin> fst ` set ?ws"
    proof
      assume "?y \<in> fst ` set ?ws"
      then obtain i where "i < k" "homes (lg_block s) (nat (lg_n s)) ! i = homes (lg_block s) (nat (lg_n s)) ! k"
        using k by (auto simp: homes_def)
      moreover have "length (homes (lg_block s) (nat (lg_n s))) = nat (lg_n s)" by (simp add: homes_def)
      ultimately show False using dist k by (metis less_irrefl less_trans nth_eq_iff_index_eq)
    qed
    have v: "view t ?x = view s ?x" using I x by (simp add: copies_def apply_writes_other)
    have card: "card (dirty_bufs t) \<le> card (dirty_bufs s)"
      using I by (auto simp: copies_def dirty_bufs_def intro!: card_mono)
    have "ok (install_trans1 k) t (\<lambda>_. copied p pid ?y (view t ?x) t)"
    proof (rule install_trans1_ok[OF inv_t])
      show "dirty t ?y \<or> card (dirty_bufs t) + 1 < NBUF" using I home[OF k] y card by (auto simp: copies_def)
      show "card (dirty_bufs t) < NBUF" using card spare by simp
    qed (use home[OF k] dev ne xs in \<open>simp_all add: lg ds\<close>)
    then show "ok (install_trans1 k) t (\<lambda>_. copied p pid ?y (view s ?x) t)" by (simp add: v)
  qed
  then show ?thesis by (simp add: install_trans_def ok_bind_iff)
qed

lemma lg_upd_cached [simp]:
  "cached_at (s\<lparr>lg_n := x\<rparr>) = cached_at s" "cached_at (s\<lparr>lg_block := y\<rparr>) = cached_at s"
  by (simp_all add: cached_at_def fun_eq_iff)

lemma lg_upd_cache [simp]:
  "view (s\<lparr>lg_n := x\<rparr>) = view s" "dirty (s\<lparr>lg_n := x\<rparr>) = dirty s"
  "dirty_bufs (s\<lparr>lg_n := x\<rparr>) = dirty_bufs s" "cache_inv p pid H (s\<lparr>lg_n := x\<rparr>) = cache_inv p pid H s"
  "view (s\<lparr>lg_block := y\<rparr>) = view s" "dirty (s\<lparr>lg_block := y\<rparr>) = dirty s"
  "dirty_bufs (s\<lparr>lg_block := y\<rparr>) = dirty_bufs s" "cache_inv p pid H (s\<lparr>lg_block := y\<rparr>) = cache_inv p pid H s"
  by (simp_all add: view_def dirty_def dirty_bufs_def cache_inv_def on_cpu_def fun_eq_iff split: option.split)

text \<open>The writes of \<open>commit\<close>, in order.\<close>

definition committed :: "nat \<Rightarrow> int \<Rightarrow> 'z lstate_scheme \<Rightarrow> 'z lstate_scheme \<Rightarrow> bool" where
  "committed p pid s t \<longleftrightarrow>
     cache_inv p pid {} t \<and> cache_frame (s\<lparr>lg_n := 0\<rparr>) t \<and>
     dwrites t = dwrites s @ commit_writes (lg_start s) (lg_block s) (nat (lg_n s)) (view s) (disk s (word_of_int (lg_start s))) \<and>
     disk t = apply_writes (disk s) (commit_writes (lg_start s) (lg_block s) (nat (lg_n s)) (view s) (disk s (word_of_int (lg_start s)))) \<and>
     view t = apply_writes (view s) (commit_writes (lg_start s) (lg_block s) (nat (lg_n s)) (view s) (disk s (word_of_int (lg_start s)))) \<and>
     (\<forall>b. \<not> dirty t b)"

lemma commit_ok:
  fixes s :: "'z lstate_scheme"
  assumes ok: "log_ok p pid s" and pos: "0 < lg_n s"
  shows "ok commit s (\<lambda>_. committed p pid s)"
proof -
  let ?st = "lg_start s" and ?n = "nat (lg_n s)" and ?bs = "lg_block s"
  let ?h = "word_of_int (lg_start s) :: uint" and ?home = "\<lambda>i. word_of_int (lg_block s ! i) :: uint"
  let ?L = "map (\<lambda>i. (log_block ?st i, view s (?home i))) [0..<?n]"
  let ?hd = "head_data (int ?n) ?bs (disk s ?h)"
  let ?I = "map (\<lambda>i. (?home i, view s (?home i))) [0..<?n]"
  have inv: "cache_inv p pid {} s" and dev: "lg_dev s = 1" and room: "log_room ?st (disksize s)"
    and n: "?n < LOGSIZE" and dist: "distinct (homes ?bs ?n)" and dt: "Collect (dirty s) = set (homes ?bs ?n)"
    using ok pos by (auto simp: log_ok_def)
  have spare: "card (dirty_bufs s) < NBUF" by (rule log_ok_spare[OF ok])
  have hlt: "?h < disksize s" by (rule log_head_lt[OF room])
  note hf = home_facts[OF ok]
  have lb: "log_block ?st i \<in> log_area ?st" "log_block ?st i \<noteq> ?h" if "i < ?n" for i
    using n that log_block_head[OF room, of i] by simp_all
  have hL: "?h \<notin> fst ` set ?L"
  proof
    assume "?h \<in> fst ` set ?L"
    then obtain i where "i < ?n" "?h = log_block ?st i" by auto
    then show False using lb(2) by metis
  qed
  have hI: "?home i \<noteq> ?h" if "i < ?n" for i using hf(1)[OF that] log_head_area by metis
  have vh: "view s ?h = disk s ?h"
  proof (rule view_clean[OF inv])
    show "\<not> dirty s ?h"
    proof
      assume "dirty s ?h"
      then have "?h \<in> set (homes ?bs ?n)" using dt by blast
      then obtain i where "i < ?n" "?h = ?home i" by (auto simp: homes_def)
      then show False using hI by metis
    qed
  qed simp
  obtain t1 where r1: "write_log s = Ret () t1" and c1: "copies p pid ?L s t1"
    using write_log_ok[OF ok] by (auto simp: ok_def)
  have fr1: "cache_frame s t1" and inv1: "cache_inv p pid {} t1" using c1 by (simp_all add: copies_def)
  note lg1 = cache_frame_log[OF fr1] and ds1 = cache_frame_disksize[OF fr1] and sp1 = copies_spare[OF c1 spare]
  have vh1: "view t1 ?h = disk s ?h" using c1 hL vh by (simp add: copies_def apply_writes_other)
  have "ok write_head t1 (\<lambda>_. copied p pid ?h (head_data (lg_n t1) (lg_block t1) (view t1 ?h)) t1)"
    by (rule write_head_ok[OF inv1]) (use hlt dev sp1 in \<open>simp_all add: lg1 ds1\<close>)
  then obtain t2 where r2: "write_head t1 = Ret () t2" and c2': "copied p pid ?h ?hd t1 t2"
    using pos by (auto simp: ok_def lg1 vh1)
  have c2: "copies p pid (?L @ [(?h, ?hd)]) s t2" by (rule copies_snoc[OF c1 c2'])
  have fr2: "cache_frame s t2" and inv2: "cache_inv p pid {} t2" using c2 by (simp_all add: copies_def)
  note lg2 = cache_frame_log[OF fr2] and ds2 = cache_frame_disksize[OF fr2] and sp2 = copies_spare[OF c2 spare]
  have dl: "distinct (map (log_block ?st) [0..<?n])"
    using log_block_inj[OF room] n by (auto simp: distinct_map inj_on_def)
  have v2: "view t2 (log_block ?st i) = view s (?home i)" if "i < ?n" for i
    using c2 lb(2)[OF that] that apply_writes_map[OF dl, of i "view s" "\<lambda>i. view s (?home i)"]
    by (simp add: copies_def)
  have d2: "dirty t2 (?home i)" if "i < ?n" for i
  proof -
    have "?home i \<notin> fst ` set ?L"
    proof
      assume "?home i \<in> fst ` set ?L"
      then obtain j where "j < ?n" "?home i = log_block ?st j" by auto
      then show False using lb(1)[of j] hf(1)[OF that] by simp
    qed
    then show ?thesis using c2 hf(3)[OF that] hI[OF that] by (simp add: copies_def)
  qed
  have "ok install_trans t2 (\<lambda>_. copies p pid
    (map (\<lambda>i. (word_of_int (lg_block t2 ! i), view t2 (log_block (lg_start t2) i))) [0..<nat (lg_n t2)]) t2)"
    by (rule install_trans_ok[OF inv2]) (use dev room n dist hf(1,2) d2 sp2 in \<open>simp_all add: lg2 ds2\<close>)
  moreover have "map (\<lambda>i. (word_of_int (lg_block t2 ! i), view t2 (log_block (lg_start t2) i))) [0..<nat (lg_n t2)] = ?I"
    using v2 by (simp add: lg2)
  ultimately obtain t3 where r3: "install_trans t2 = Ret () t3" and c3': "copies p pid ?I t2 t3"
    by (auto simp: ok_def)
  have c3: "copies p pid ((?L @ [(?h, ?hd)]) @ ?I) s t3" by (rule copies_trans[OF c2 c3'])
  have fr3: "cache_frame s t3" and inv3: "cache_inv p pid {} t3" using c3 by (simp_all add: copies_def)
  note lg3 = cache_frame_log[OF fr3] and ds3 = cache_frame_disksize[OF fr3] and sp3 = copies_spare[OF c3 spare]
  let ?t4 = "t3\<lparr>lg_n := 0\<rparr>"
  have "?h \<notin> fst ` set ?I"
  proof
    assume "?h \<in> fst ` set ?I"
    then obtain i where "i < ?n" "?h = ?home i" by auto
    then show False using hI by metis
  qed
  then have vh3: "view t3 ?h = ?hd"
    using c3 by (simp add: copies_def apply_writes_other)
  have "ok write_head ?t4 (\<lambda>_. copied p pid ?h (head_data (lg_n ?t4) (lg_block ?t4) (view ?t4 ?h)) ?t4)"
    by (rule write_head_ok) (use inv3 hlt dev sp3 in \<open>simp_all add: lg3 ds3\<close>)
  then obtain t5 where r5: "write_head ?t4 = Ret () t5" and c5: "copied p pid ?h (put32 ?hd 0 0) ?t4 t5"
    by (auto simp: ok_def vh3)
  have "cache_frame (s\<lparr>lg_n := 0\<rparr>) ?t4" using fr3 unfolding cache_frame_def by (cases s; cases t3) simp
  then have fr5: "cache_frame (s\<lparr>lg_n := 0\<rparr>) t5" using c5 cache_frame_trans by (auto simp: copied_def)
  have W: "commit_writes ?st ?bs ?n (view s) (disk s ?h) = (?L @ [(?h, ?hd)]) @ ?I @ [(?h, put32 ?hd 0 0)]"
    by (simp add: commit_writes_def)
  have "set (homes ?bs ?n) = fst ` set ?I" by (simp add: homes_def image_image)
  then have "b \<in> fst ` set ?I" if "dirty s b" for b using dt that by blast
  then have "\<not> dirty t3 b" for b using c3 by (auto simp: copies_def)
  then have "\<not> dirty t5 b" for b using c5 by (simp add: copied_def)
  then have "committed p pid s t5"
    unfolding committed_def W using c3 c5 fr5 by (simp add: copies_def copied_def)
  then show ?thesis using pos by (simp add: commit_def ok_def kbind_def r1 r2 r3 r5)
qed

subsection \<open>Recovery\<close>

text \<open>Reading one block and releasing it, with a change of the log's variables in between.\<close>

lemma no_dirty_bufs: "cache_inv p pid H s \<Longrightarrow> (\<And>b. \<not> dirty s b) \<Longrightarrow> dirty_bufs s = {}"
  using cache_inv_buf(1)[of p pid H s] by (fastforce simp: dirty_bufs_def dirty_def cached_at_def buf_ok_def)

lemma read_block:
  assumes inv: "cache_inv p pid {} s" and clean: "\<And>b. \<not> dirty s b" and room: "b < disksize s"
  shows "\<exists>i t. bread 1 b s = Ret i t \<and> cache_inv p pid {i} t \<and> cached_at t b i \<and> cache_frame s t \<and>
    disk t = disk s \<and> dwrites t = dwrites s \<and> view t = view s \<and> b_data (buf_at t i) = disk s b \<and> (\<forall>c. \<not> dirty t c)"
proof -
  have "card (dirty_bufs s) + card ({} :: nat set) < NBUF"
    using no_dirty_bufs[OF inv clean] by (simp add: param_defs)
  then obtain i t where r: "bread 1 b s = Ret i t" and g: "got p pid {} b s i t"
    using bread_got[OF inv room] by auto
  have "view s b = disk s b" by (rule view_clean[OF inv clean]) simp
  then show ?thesis using r g clean by (auto simp: got_def)
qed

lemma release_clean:
  assumes inv: "cache_inv p pid {i} s" and at: "cached_at s b i" and data: "b_data (buf_at s i) = disk s b"
    and clean: "\<And>c. \<not> dirty s c"
  shows "\<exists>t. brelse i s = Ret () t \<and> cache_inv p pid {} t \<and> cache_frame s t \<and> disk t = disk s \<and>
    dwrites t = dwrites s \<and> view t = view s \<and> (\<forall>c. \<not> dirty t c)"
  using brelse_contract[OF inv at] data clean by auto

lemma readsb_ok:
  assumes inv: "cache_inv p pid {} s" and clean: "\<And>b. \<not> dirty s b" and room: "1 < disksize s"
  shows "ok (readsb 1) s (\<lambda>x t. x = sb_of (disk s 1) \<and> cache_inv p pid {} t \<and> cache_frame s t \<and> disk t = disk s \<and>
    dwrites t = dwrites s \<and> (\<forall>c. \<not> dirty t c))"
proof -
  obtain i t where r: "bread 1 1 s = Ret i t" and t: "cache_inv p pid {i} t" "cached_at t 1 i" "cache_frame s t"
    "disk t = disk s" "dwrites t = dwrites s" "b_data (buf_at t i) = disk s 1" "\<forall>c. \<not> dirty t c"
    using read_block[OF inv clean room] by auto
  have data: "b_data (buf_at t i) = disk t 1" using t by simp
  obtain u where u: "brelse i t = Ret () u" "cache_inv p pid {} u" "cache_frame t u" "disk u = disk t"
    "dwrites u = dwrites t" "\<forall>c. \<not> dirty u c"
    using release_clean[OF t(1,2) data] t(7) by auto
  show ?thesis
    using r t u cache_frame_trans[OF t(3) u(3)] by (simp add: readsb_def ok_def kbind_def buf_data_def)
qed

lemma read_head_ok:
  fixes s :: "'z lstate_scheme"
  assumes inv: "cache_inv p pid {} s" and clean: "\<And>b. \<not> dirty s b" and dev: "lg_dev s = 1"
    and room: "log_room (lg_start s) (disksize s)" and n: "head_count (lg_start s) (disk s) < LOGSIZE"
    and len: "length (lg_block s) = LOGSIZE"
  shows "ok read_head s (\<lambda>_ t. cache_inv p pid {} t \<and> (\<forall>c. \<not> dirty t c) \<and> disk t = disk s \<and> dwrites t = dwrites s \<and>
    nat (lg_n t) = head_count (lg_start s) (disk s) \<and> lg_start t = lg_start s \<and> lg_dev t = 1 \<and> disksize t = disksize s \<and>
    (\<forall>i < head_count (lg_start s) (disk s). word_of_int (lg_block t ! i) = head_home (lg_start s) (disk s) i))"
proof -
  let ?h = "word_of_int (lg_start s) :: uint" and ?n = "head_count (lg_start s) (disk s)"
  let ?d = "disk s ?h" and ?g = "\<lambda>i. sint (get32 (disk s (word_of_int (lg_start s))) (4 + 4 * i))"
  obtain i t where r: "bread 1 ?h s = Ret i t" and t: "cache_inv p pid {i} t" "cached_at t ?h i" "cache_frame s t"
    "disk t = disk s" "dwrites t = dwrites s" "b_data (buf_at t i) = ?d" "\<forall>c. \<not> dirty t c"
    using read_block[OF inv clean log_head_lt[OF room]] by auto
  note lg = cache_frame_log[OF t(3)] and ds = cache_frame_disksize[OF t(3)]
  have cnt: "nat (sint (get32 ?d 0)) = ?n" "\<not> sint (get32 ?d 0) > int LOGSIZE"
    using n by (simp_all add: head_count_def)
  let ?t1 = "t\<lparr>lg_n := sint (get32 ?d 0)\<rparr>"
  let ?t2 = "?t1\<lparr>lg_block := map ?g [0..<?n] @ drop ?n (lg_block s)\<rparr>"
  have data: "b_data (buf_at ?t2 i) = disk ?t2 ?h" using t by simp
  obtain u where u: "brelse i ?t2 = Ret () u" "cache_inv p pid {} u" "cache_frame ?t2 u" "disk u = disk ?t2"
    "dwrites u = dwrites ?t2" "\<forall>c. \<not> dirty u c"
    using release_clean[of p pid i ?t2 ?h] data t by auto
  note lgu = cache_frame_log[OF u(3)] and dsu = cache_frame_disksize[OF u(3)]
  have "read_head s = Ret () u"
    using r t(6) u(1) cnt by (simp add: read_head_def kbind_def dev buf_data_def lg)
  moreover have "\<forall>j < ?n. word_of_int (lg_block u ! j) = head_home (lg_start s) (disk s) j"
    by (simp add: lgu nth_append head_home_def)
  ultimately show ?thesis using u t lgu dsu lg ds dev cnt by (simp add: ok_def)
qed

definition recoverable :: "int \<Rightarrow> uint \<Rightarrow> (uint \<Rightarrow> uchar list) \<Rightarrow> bool" where
  "recoverable start n d \<longleftrightarrow>
     log_room start n \<and> head_count start d < LOGSIZE \<and>
     distinct (map (head_home start d) [0..<head_count start d]) \<and>
     (\<forall>i < head_count start d. head_home start d i \<notin> log_area start \<and> head_home start d i < n)"

lemma view_disk: "cache_inv p pid {} s \<Longrightarrow> (\<And>b. \<not> dirty s b) \<Longrightarrow> view s = disk s"
  by (rule ext) (rule view_clean, auto)

lemma recover_ok:
  fixes s :: "'z lstate_scheme"
  assumes inv: "cache_inv p pid {} s" and clean: "\<And>b. \<not> dirty s b" and dev: "lg_dev s = 1"
    and rec: "recoverable (lg_start s) (disksize s) (disk s)" and len: "length (lg_block s) = LOGSIZE"
  shows "ok recover_from_log s (\<lambda>_ t. disk t = recovered (lg_start s) (disk s) \<and> cache_inv p pid {} t \<and>
    (\<forall>b. \<not> dirty t b) \<and> lg_n t = 0)"
proof -
  let ?st = "lg_start s" and ?d = "disk s" and ?h = "word_of_int (lg_start s) :: uint"
  let ?n = "head_count (lg_start s) (disk s)" and ?home = "head_home (lg_start s) (disk s)"
  have room: "log_room ?st (disksize s)" and n: "?n < LOGSIZE" using rec by (simp_all add: recoverable_def)
  obtain t where r: "read_head s = Ret () t" and t: "cache_inv p pid {} t" "\<forall>c. \<not> dirty t c" "disk t = ?d"
    "nat (lg_n t) = ?n" "lg_start t = ?st" "lg_dev t = 1" "disksize t = disksize s"
    "\<forall>i < ?n. word_of_int (lg_block t ! i) = ?home i"
    using read_head_ok[OF inv clean dev room n len] by (auto simp: ok_def)
  have homes: "homes (lg_block t) ?n = map ?home [0..<?n]" using t(8) by (simp add: homes_def)
  have vt: "view t = ?d" using view_disk[OF t(1)] t(2,3) by simp
  have nob: "dirty_bufs t = {}" using no_dirty_bufs[OF t(1)] t(2) by simp
  let ?W = "map (\<lambda>i. (?home i, ?d (log_block ?st i))) [0..<?n]"
  have "ok install_trans t (\<lambda>_. copies p pid
    (map (\<lambda>i. (word_of_int (lg_block t ! i), view t (log_block (lg_start t) i))) [0..<nat (lg_n t)]) t)"
    by (rule install_trans_ok[OF t(1)])
      (use t rec homes in \<open>simp_all add: recoverable_def nob param_defs\<close>)
  moreover have "map (\<lambda>i. (word_of_int (lg_block t ! i), view t (log_block (lg_start t) i))) [0..<nat (lg_n t)] = ?W"
    using t vt by simp
  ultimately obtain u where r2: "install_trans t = Ret () u" and c: "copies p pid ?W t u" by (auto simp: ok_def)
  have fr: "cache_frame t u" and inv_u: "cache_inv p pid {} u" using c by (simp_all add: copies_def)
  note lg = cache_frame_log[OF fr] and ds = cache_frame_disksize[OF fr]
  have du: "\<forall>b. \<not> dirty u b" using c t(2) by (simp add: copies_def)
  have disk_u: "disk u = apply_writes ?d ?W" using c t(3) by (simp add: copies_def)
  have "?h \<notin> fst ` set ?W"
  proof
    assume "?h \<in> fst ` set ?W"
    then obtain i where "i < ?n" "?h = ?home i" by auto
    then show False using rec log_head_area[of ?st] by (auto simp: recoverable_def)
  qed
  then have vh: "view u ?h = ?d ?h"
    using view_disk[OF inv_u] du disk_u by (simp add: apply_writes_other)
  let ?u = "u\<lparr>lg_n := 0\<rparr>"
  have "ok write_head ?u (\<lambda>_. copied p pid ?h (head_data (lg_n ?u) (lg_block ?u) (view ?u ?h)) ?u)"
    by (rule write_head_ok) (use inv_u t no_dirty_bufs[OF inv_u] du log_head_lt[OF room] in
        \<open>simp_all add: lg ds param_defs\<close>)
  then obtain v where r3: "write_head ?u = Ret () v" and cv: "copied p pid ?h (put32 (?d ?h) 0 0) ?u v"
    by (auto simp: ok_def vh)
  have "disk v = recovered ?st ?d" using cv disk_u by (simp add: copied_def recovered_def)
  moreover have "lg_n v = 0" using cv cache_frame_log(6)[of ?u v] by (simp add: copied_def)
  ultimately show ?thesis
    using r r2 r3 cv du by (simp add: recover_from_log_def ok_def kbind_def copied_def)
qed

text \<open>A machine that has just booted: nothing is cached.\<close>

definition booted :: "nat \<Rightarrow> int \<Rightarrow> (uint \<Rightarrow> uchar list) \<Rightarrow> uint \<Rightarrow> 'z lstate_scheme \<Rightarrow> bool" where
  "booted p pid d n s \<longleftrightarrow> cache_inv p pid {} s \<and> (\<forall>b. \<not> dirty s b) \<and> disk s = d \<and> disksize s = n \<and> length (lg_block s) = LOGSIZE"

lemma initlog_ok:
  fixes s :: "'z lstate_scheme"
  assumes boot: "booted p pid d n s" and start: "sint (sb_logstart (sb_of (d 1))) = start"
    and rec: "recoverable start n d" and room: "1 < n"
  shows "ok (initlog 1) s (\<lambda>_ t. disk t = recovered start d)"
proof -
  have s: "cache_inv p pid {} s" "\<And>b. \<not> dirty s b" "disk s = d" "disksize s = n" "length (lg_block s) = LOGSIZE"
    using boot by (simp_all add: booted_def)
  obtain t where r: "readsb 1 s = Ret (sb_of (d 1)) t" and t: "cache_inv p pid {} t" "cache_frame s t" "disk t = d"
    "\<forall>c. \<not> dirty t c"
    using readsb_ok[OF s(1,2)] room s(3,4) by (auto simp: ok_def)
  note lg = cache_frame_log[OF t(2)] and ds = cache_frame_disksize[OF t(2)]
  let ?t = "t\<lparr>lg_start := start, lg_size := sint (sb_nlog (sb_of (d 1))), lg_dev := 1\<rparr>"
  have ca: "cached_at ?t = cached_at t" by (simp add: cached_at_def fun_eq_iff)
  have "cache_inv p pid {} ?t" using t(1) by (simp add: cache_inv_def on_cpu_def)
  moreover have "\<not> dirty ?t b" for b using t(4) by (simp add: dirty_def ca)
  ultimately have "ok recover_from_log ?t (\<lambda>_ u. disk u = recovered start d)"
    using recover_ok[of p pid ?t] rec s t ds by (auto simp: lg ok_def)
  then show ?thesis
    using r start by (simp add: initlog_def ok_def kbind_def BSIZE_def param_defs)
qed

subsection \<open>The end of the last operation of a transaction\<close>

lemma lg_flag_cached [simp]:
  "cached_at (s\<lparr>lg_outstanding := x\<rparr>) = cached_at s" "cached_at (s\<lparr>lg_committing := y\<rparr>) = cached_at s"
  by (simp_all add: cached_at_def fun_eq_iff)

lemma lg_flag_cache [simp]:
  "view (s\<lparr>lg_outstanding := x\<rparr>) = view s" "dirty (s\<lparr>lg_outstanding := x\<rparr>) = dirty s"
  "cache_inv p pid H (s\<lparr>lg_outstanding := x\<rparr>) = cache_inv p pid H s"
  "view (s\<lparr>lg_committing := y\<rparr>) = view s" "dirty (s\<lparr>lg_committing := y\<rparr>) = dirty s"
  "cache_inv p pid H (s\<lparr>lg_committing := y\<rparr>) = cache_inv p pid H s"
  by (simp_all add: view_def dirty_def cache_inv_def on_cpu_def fun_eq_iff split: option.split)

lemma log_ok_flags [simp]:
  "log_ok p pid (s\<lparr>lg_outstanding := x\<rparr>) = log_ok p pid s" "log_ok p pid (s\<lparr>lg_committing := y\<rparr>) = log_ok p pid s"
  by (simp_all add: log_ok_def)

lemma view_wakeup1: "view (wakeup1 c s) = view s"
  by (rule ext) (simp add: view_def split: option.split)

lemma apply_writes_cases: "apply_writes d ws b = d b \<or> (b, apply_writes d ws b) \<in> set ws"
proof (induction ws arbitrary: d)
  case (Cons w ws)
  obtain c x where w: "w = (c, x)" by (cases w)
  have "apply_writes (d(c := x)) ws b = (d(c := x)) b \<or> (b, apply_writes (d(c := x)) ws b) \<in> set ws" by (rule Cons)
  then show ?case unfolding w by (cases "c = b") auto
qed simp

lemma crash_recoverable:
  assumes room: "log_room start sz" and n: "n < LOGSIZE"
    and dist: "distinct (homes bs n)" and out: "set (homes bs n) \<inter> log_area start = {}"
    and lt: "\<forall>h \<in> set (homes bs n). h < sz"
    and len: "length (d (word_of_int start)) = BSIZE" and head: "get32 (d (word_of_int start)) 0 = 0"
  shows "recoverable start sz (apply_writes d (take k (commit_writes start bs n v (d (word_of_int start)))))"
proof -
  let ?hd = "word_of_int start :: uint" and ?ws = "commit_writes start bs n v (d (word_of_int start))"
  let ?e = "apply_writes d (take k ?ws)" and ?h = "head_data (int n) bs (d (word_of_int start))"
  have hl: "length ?h = BSIZE" by (rule head_data_get(3)[OF len less_imp_le[OF n]])
  have lb: "log_block start i \<noteq> ?hd" if "i < n" for i
    using n that log_block_head[OF room, of i] by simp
  have hm: "word_of_int (bs ! i) \<noteq> ?hd" if "i < n" for i
  proof -
    have "word_of_int (bs ! i) \<in> set (homes bs n)" using that by (simp add: homes_def)
    then show ?thesis using out log_head_area[of start] by (metis disjoint_iff)
  qed
  have "?e ?hd = d ?hd \<or> (?hd, ?e ?hd) \<in> set ?ws"
    using apply_writes_cases[of d "take k ?ws" ?hd] by (auto dest: in_set_takeD)
  moreover have "x = ?h \<or> x = put32 ?h 0 0" if "(?hd, x) \<in> set ?ws" for x
  proof -
    have "(?hd, x) \<in> set (map (\<lambda>i. (log_block start i, v (word_of_int (bs ! i)))) [0..<n]) \<or> x = ?h \<or>
        (?hd, x) \<in> set (map (\<lambda>i. (word_of_int (bs ! i), v (word_of_int (bs ! i)))) [0..<n]) \<or> x = put32 ?h 0 0"
      using that by (auto simp: commit_writes_def)
    then show ?thesis unfolding set_map image_iff using lb hm by (metis Pair_inject atLeastLessThan_iff set_upt)
  qed
  ultimately have "?e ?hd = d ?hd \<or> ?e ?hd = ?h \<or> ?e ?hd = put32 ?h 0 0" by blast
  then consider "get32 (?e ?hd) 0 = 0" | "?e ?hd = ?h"
    using head hl by (auto simp: block_simps BSIZE_def)
  then show ?thesis
  proof cases
    case 1
    then show ?thesis using room by (simp add: recoverable_def head_count_def param_defs)
  next
    case 2
    have count: "head_count start ?e = n"
      unfolding head_count_def 2 head_data_get(1)[OF len less_imp_le[OF n]] sint_small[OF less_imp_le[OF n]] by simp
    have home: "head_home start ?e i = word_of_int (bs ! i)" if "i < n" for i
      unfolding head_home_def 2 head_data_get(2)[OF len less_imp_le[OF n] that] by simp
    have "map (head_home start ?e) [0..<n] = homes bs n" using home by (simp add: homes_def)
    moreover have "word_of_int (bs ! i) \<in> set (homes bs n)" if "i < n" for i using that by (simp add: homes_def)
    ultimately show ?thesis
      unfolding recoverable_def count using room n dist out lt home by (auto simp: disjoint_iff)
  qed
qed

text \<open>
  C11. Transactions are atomic under crashes. Take a state in which the last file system operation of a
  transaction ends: \<open>lg_n s\<close> blocks are logged. \<open>end_op\<close> returns and every block outside the log is then
  on the disk as the file system saw it. If the machine stops after any number \<open>k\<close> of the block writes
  that \<open>end_op\<close> makes and boots again, \<open>initlog\<close> returns, and outside the log the disk is either as it was
  before \<open>end_op\<close> or as after it.
\<close>

theorem log_crash_atomic:
  fixes s :: "'z lstate_scheme"
  assumes ok: "log_ok p pid s" and pos: "0 < lg_n s" and last: "lg_outstanding s = 1" "\<not> lg_committing s"
    and sb: "sint (sb_logstart (sb_of (disk s 1))) = lg_start s" "1 < disksize s" "1 \<notin> log_area (lg_start s)"
    and sb_home: "1 \<notin> set (homes (lg_block s) (nat (lg_n s)))"
  shows "\<exists>t ws. end_op s = Ret () t \<and> dwrites t = dwrites s @ ws \<and>
    (\<forall>b. b \<notin> log_area (lg_start s) \<longrightarrow> disk t b = view s b \<and> view t b = view s b) \<and>
    (\<forall>k q qid u. booted q qid (apply_writes (disk s) (take k ws)) (disksize s) (u :: 'y lstate_scheme) \<longrightarrow>
       ok (initlog 1) u (\<lambda>_ v. (\<forall>b. b \<notin> log_area (lg_start s) \<longrightarrow> disk v b = disk s b) \<or>
         (\<forall>b. b \<notin> log_area (lg_start s) \<longrightarrow> disk v b = view s b)))"
proof -
  let ?st = "lg_start s" and ?n = "nat (lg_n s)" and ?bs = "lg_block s" and ?h = "word_of_int (lg_start s) :: uint"
  let ?ws = "commit_writes ?st ?bs ?n (view s) (disk s ?h)"
  let ?s1 = "s\<lparr>lg_outstanding := 0, lg_committing := True\<rparr>"
  have room: "log_room ?st (disksize s)" and n: "?n < LOGSIZE" and dist: "distinct (homes ?bs ?n)"
    and out: "set (homes ?bs ?n) \<inter> log_area ?st = {}" and lt: "\<forall>h \<in> set (homes ?bs ?n). h < disksize s"
    and len: "length (disk s ?h) = BSIZE" and head: "get32 (disk s ?h) 0 = 0" and inv: "cache_inv p pid {} s"
    and dt: "Collect (dirty s) = set (homes ?bs ?n)"
    using ok pos by (auto simp: log_ok_def)
  have inst: "installed ?bs ?n (view s) (disk s) b = view s b" for b
  proof (cases "b \<in> set (homes ?bs ?n)")
    case False
    then have "\<not> dirty s b" using dt by blast
    then show ?thesis using view_clean[OF inv] False by (simp add: installed_def)
  qed (simp add: installed_def)
  obtain t1 where r: "commit ?s1 = Ret () t1" and c: "committed p pid ?s1 t1"
    using commit_ok[of p pid ?s1] ok pos by (auto simp: ok_def)
  let ?t = "wakeup1 (Some Chan_log) (t1\<lparr>lg_committing := False\<rparr>)"
  have e: "end_op s = Ret () ?t"
    using r last by (simp add: end_op_def kbind_def wakeup_def)
  have dw: "dwrites ?t = dwrites s @ ?ws" using c by (simp add: committed_def)
  have more: "\<not> length ?ws \<le> ?n" by (simp add: commit_writes_def)
  have full: "disk ?t b = view s b \<and> view ?t b = view s b" if "b \<notin> log_area ?st" for b
  proof -
    have "disk ?t b = apply_writes (disk s) (take (length ?ws) ?ws) b" using c by (simp add: committed_def)
    also have "\<dots> = recovered ?st (apply_writes (disk s) (take (length ?ws) ?ws)) b"
      by (rule recovered_empty[OF _ that, symmetric])
        (use head_data_get(3)[OF len less_imp_le[OF n]] in \<open>simp add: commit_writes_def block_simps BSIZE_def\<close>)
    also have "\<dots> = view s b"
      unfolding crash_disk[where d="disk s" and v="view s", OF room n dist out len head that] using inst more by simp
    finally have "disk ?t b = view s b" .
    moreover have "view ?t = disk ?t"
      using c view_disk[of p pid t1] by (simp add: committed_def view_wakeup1)
    ultimately show ?thesis by simp
  qed
  have crash: "ok (initlog 1) u (\<lambda>_ v. (\<forall>b. b \<notin> log_area ?st \<longrightarrow> disk v b = disk s b) \<or>
         (\<forall>b. b \<notin> log_area ?st \<longrightarrow> disk v b = view s b))"
    if "booted q qid (apply_writes (disk s) (take k ?ws)) (disksize s) u" for k q qid and u :: "'y lstate_scheme"
  proof -
    let ?d = "apply_writes (disk s) (take k ?ws)"
    have "1 \<notin> fst ` set (take k ?ws)"
    proof
      assume "1 \<in> fst ` set (take k ?ws)"
      then have "1 \<in> fst ` set ?ws" by (auto dest: in_set_takeD)
      moreover have "fst ` set ?ws \<subseteq> log_area ?st \<union> set (homes ?bs ?n)"
        using n by (auto simp: commit_writes_def homes_def)
      ultimately show False using sb(3) sb_home by blast
    qed
    then have "?d 1 = disk s 1" by (rule apply_writes_other)
    then have "ok (initlog 1) u (\<lambda>_ v. disk v = recovered ?st ?d)"
      using initlog_ok[OF that] sb crash_recoverable[where d="disk s", OF room n dist out lt len head] by simp
    then show ?thesis
      by (rule ok_mono) (use crash_disk[where d="disk s" and v="view s", OF room n dist out len head] inst in simp)
  qed
  show ?thesis using e dw full crash by blast
qed

text \<open>
  A file system of 100 blocks whose log starts at block 2, with an open transaction of one block: buffer 0
  holds new contents of block 40.
\<close>

definition example_disk :: "uint \<Rightarrow> uchar list" where
  "example_disk b = (if b = 1 then put32 (replicate BSIZE 0) 16 2 else replicate BSIZE 0)"

definition empty_buf :: buf where
  "empty_buf = \<lparr>b_valid = False, b_dirty = False, b_dev = 0, b_blockno = 0, b_lock = initsleeplock, b_refcnt = 0,
     b_data = replicate BSIZE 0\<rparr>"

definition example_log :: lstate where
  "example_log = \<lparr>mem = (\<lambda>_. 0), freelist = 0, use_lock = False, kend = 0x80110000, kdata = 0x80108000,
     ptable = (replicate NPROC zero_proc)[0 := zero_proc\<lparr>p_pid := 1, p_state := RUNNING\<rparr>], nextpid = 2,
     initproc = Some 0, ticks = 0, cpus = [\<lparr>c_apicid = 0, c_esp0 = 0, c_cr3 = 0, c_proc = Some 0\<rparr>],
     thiscpu = 0, kpgdir = 0, forkret_addr = 0, trapret_addr = 0,
     q_sz = replicate 5 0, q_front = replicate 5 0, q_rear = replicate 5 0,
     q_slots = replicate 5 (replicate NPROC None),
     bufs = (replicate NBUF empty_buf)[0 := empty_buf\<lparr>b_valid := True, b_dirty := True, b_dev := 1,
       b_blockno := 40, b_data := replicate BSIZE 7\<rparr>],
     lru = [0..<NBUF], disk = example_disk, disksize = 100, dwrites = [],
     lg_start = 2, lg_size = 30, lg_outstanding = 1, lg_committing = False, lg_dev = 1, lg_n = 1,
     lg_block = (replicate LOGSIZE 0)[0 := 40]\<rparr>"

lemma example_bufs:
  "i < NBUF \<Longrightarrow> buf_at example_log i = (if i = 0 then empty_buf\<lparr>b_valid := True, b_dirty := True, b_dev := 1,
     b_blockno := 40, b_data := replicate BSIZE 7\<rparr> else empty_buf)"
  by (simp add: example_log_def nth_list_update)

lemma example_homes: "homes (lg_block example_log) (nat (lg_n example_log)) = [40]"
  by (simp add: homes_def example_log_def param_defs)

lemma example_buf_ok:
  assumes "i < NBUF"
  shows "idle_buf (buf_at example_log i) \<and> buf_ok d 100 False (buf_at example_log i) \<and>
    (b_dev (buf_at example_log i) = 1 \<longrightarrow> i = 0)"
  unfolding example_bufs[OF assms]
  by (simp add: idle_buf_def empty_buf_def initsleeplock_def buf_ok_def word_less_def)

lemma example_cache: "cache_inv 0 1 {} example_log"
proof -
  have "on_cpu 0 1 example_log" by (simp add: example_log_def on_cpu_def NPROC_def)
  moreover have "length (bufs example_log) = NBUF" "lru example_log = [0..<NBUF]" "disksize example_log = 100"
    by (simp_all add: example_log_def)
  ultimately show ?thesis
    unfolding cache_inv_def using example_buf_ok by (metis distinct_upt empty_iff empty_subsetI set_upt)
qed

lemma example_dirty: "dirty example_log = (\<lambda>b. b = 40)"
proof -
  have "NBUF > 0" by (simp add: param_defs)
  then show ?thesis
    by (auto simp: dirty_def cached_at_def example_bufs empty_buf_def fun_eq_iff split: if_splits)
qed

lemma example_log_area: "x \<in> log_area 2 \<Longrightarrow> 2 \<le> Word.uint x \<and> Word.uint x < 32"
proof -
  assume "x \<in> log_area 2"
  then obtain i where i: "i < LOGSIZE" "x = word_of_int (2 + int i)"
    unfolding log_area_def image_iff by (metis atLeastLessThan_iff)
  have "Word.uint x = 2 + int i" unfolding i(2) by (rule uint_of_int) (use i(1) in \<open>simp_all add: param_defs\<close>)
  then show ?thesis using i(1) by (simp add: param_defs)
qed

lemma example_log_ok: "log_ok 0 1 example_log"
proof -
  have "40 \<notin> log_area 2" using example_log_area[of 40] by auto
  moreover have "lg_dev example_log = 1" "lg_start example_log = 2" "disksize example_log = 100"
      "lg_n example_log = 1" "length (lg_block example_log) = LOGSIZE" "disk example_log = example_disk"
    by (simp_all add: example_log_def)
  moreover have "log_room 2 100" "length (example_disk 2) = BSIZE" "get32 (example_disk 2) 0 = 0"
    by (simp_all add: log_room_def param_defs example_disk_def BSIZE_def get32_def word_of_bytes_def)
  ultimately show ?thesis
    unfolding log_ok_def example_homes using example_cache
    by (simp add: example_dirty param_defs word_less_def Collect_conv_if)
qed

theorem log_crash_atomic_witness:
  "\<exists>t ws. end_op example_log = Ret () t \<and> dwrites t = ws \<and> disk t 40 = view example_log 40 \<and>
    (\<forall>k u. booted 0 1 (apply_writes example_disk (take k ws)) 100 (u :: lstate) \<longrightarrow>
       ok (initlog 1) u (\<lambda>_ v. disk v 40 = example_disk 40 \<or> disk v 40 = view example_log 40))"
proof -
  have 40: "40 \<notin> log_area (lg_start example_log)" and 1: "1 \<notin> log_area (lg_start example_log)"
    using example_log_area[of 40] example_log_area[of 1] by (auto simp: example_log_def)
  have sb: "sint (sb_logstart (sb_of (disk example_log 1))) = lg_start example_log"
    by (simp add: example_log_def example_disk_def sb_of_def block_simps BSIZE_def)
  have init: "disk example_log = example_disk" "disksize example_log = 100" "dwrites example_log = []"
    "0 < lg_n example_log" "lg_outstanding example_log = 1" "\<not> lg_committing example_log"
    by (simp_all add: example_log_def)
  obtain t ws where e: "end_op example_log = Ret () t" and w: "dwrites t = ws"
    and d: "\<forall>b. b \<notin> log_area (lg_start example_log) \<longrightarrow> disk t b = view example_log b \<and> view t b = view example_log b"
    and r: "\<forall>k q qid u. booted q qid (apply_writes example_disk (take k ws)) 100 (u :: lstate) \<longrightarrow>
       ok (initlog 1) u (\<lambda>_ v. (\<forall>b. b \<notin> log_area (lg_start example_log) \<longrightarrow> disk v b = example_disk b) \<or>
         (\<forall>b. b \<notin> log_area (lg_start example_log) \<longrightarrow> disk v b = view example_log b))"
    using log_crash_atomic[OF example_log_ok init(4-6) sb _ 1] unfolding example_homes init by auto
  have "ok (initlog 1) u (\<lambda>_ v. disk v 40 = example_disk 40 \<or> disk v 40 = view example_log 40)"
    if "booted 0 1 (apply_writes example_disk (take k ws)) 100 u" for k and u :: lstate
    by (rule ok_mono[OF r[rule_format, OF that]]) (use 40 in auto)
  then show ?thesis using e w d 40 by blast
qed

end
