(* ===== verification/Xv6_Spinlock.thy ===== *)
theory Xv6_Spinlock
  imports Xv6_Memory
begin

text \<open>
  Spin locks (\<^verbatim>\<open>spinlock.c\<close>) on a machine with several CPUs. The other theories run a critical section as
  one step; this theory shows why they may. The code of \<^verbatim>\<open>acquire\<close> and \<^verbatim>\<open>release\<close> is cut at every access
  to the shared lock, so that the other CPUs may run between any two of them, and \<open>lock_step\<close> lets any
  CPU take the next step. What only the executing CPU reads and writes (its interrupt flag, \<^verbatim>\<open>ncli\<close> and
  \<^verbatim>\<open>intena\<close>) is not cut.
\<close>

subsection \<open>State\<close>

record spinlock =
  locked :: uint
  lk_name :: string
  lk_cpu :: "nat option"
  lk_pcs :: "uint list"

text \<open>\<open>lc_if\<close> is the bit \<^verbatim>\<open>FL_IF\<close> of the flags register of the CPU.\<close>

record lcpu =
  lc_apicid :: uchar
  lc_ncli :: int
  lc_intena :: bool
  lc_if :: bool

record lmach =
  lcpus :: "lcpu list"
  locks :: "nat \<Rightarrow> spinlock"
  lmem :: memory

abbreviation lcpu_at :: "'z lmach_scheme \<Rightarrow> nat \<Rightarrow> lcpu" where
  "lcpu_at s c \<equiv> lcpus s ! c"

definition upd_lcpu :: "nat \<Rightarrow> (lcpu \<Rightarrow> lcpu) \<Rightarrow> 'z lmach_scheme \<Rightarrow> 'z lmach_scheme" where
  "upd_lcpu c f s = s\<lparr>lcpus := (lcpus s)[c := f (lcpus s ! c)]\<rparr>"

definition upd_lock :: "nat \<Rightarrow> (spinlock \<Rightarrow> spinlock) \<Rightarrow> 'z lmach_scheme \<Rightarrow> 'z lmach_scheme" where
  "upd_lock l f s = s\<lparr>locks := (locks s)(l := f (locks s l))\<rparr>"

definition initlock :: "nat \<Rightarrow> string \<Rightarrow> 'z lmach_scheme \<Rightarrow> 'z lmach_scheme" where
  "initlock l name = upd_lock l (\<lambda>k. k\<lparr>lk_name := name, locked := 0, lk_cpu := None\<rparr>)"

subsection \<open>Operations of one CPU\<close>

text \<open>The first argument of an operation is the CPU that executes it.\<close>

definition mycpu :: "nat \<Rightarrow> (nat, 'z lmach_scheme) kernel" where
  "mycpu c s =
     (if lc_if (lcpu_at s c) then kpanic (''mycpu called with interrupts enabled'' @ [CHR 0x0A]) s
      else case find (\<lambda>i. lc_apicid (lcpu_at s i) = lc_apicid (lcpu_at s c)) [0..<length (lcpus s)] of
             Some i \<Rightarrow> Ret i s
           | None \<Rightarrow> kpanic (''unknown apicid'' @ [CHR 0x0A]) s)"

definition pushcli :: "nat \<Rightarrow> (unit, 'z lmach_scheme) kernel" where
  "pushcli c =
     kbind (kget (\<lambda>s. lc_if (lcpu_at s c))) (\<lambda>eflags.
     kbind (kmod (upd_lcpu c (\<lambda>x. x\<lparr>lc_if := False\<rparr>))) (\<lambda>_.
     kbind (mycpu c) (\<lambda>i.
     kbind (kget (\<lambda>s. lc_ncli (lcpu_at s i))) (\<lambda>n.
     kbind (kwhen (n = 0) (kbind (mycpu c) (\<lambda>i. kmod (upd_lcpu i (\<lambda>x. x\<lparr>lc_intena := eflags\<rparr>))))) (\<lambda>_.
     kbind (mycpu c) (\<lambda>i. kmod (upd_lcpu i (\<lambda>x. x\<lparr>lc_ncli := lc_ncli x + 1\<rparr>))))))))"

definition popcli :: "nat \<Rightarrow> (unit, 'z lmach_scheme) kernel" where
  "popcli c =
     kbind (kget (\<lambda>s. lc_if (lcpu_at s c))) (\<lambda>eflags.
     if eflags then kpanic ''popcli - interruptible''
     else kbind (mycpu c) (\<lambda>i.
     kbind (kmod (upd_lcpu i (\<lambda>x. x\<lparr>lc_ncli := lc_ncli x - 1\<rparr>))) (\<lambda>_.
     kbind (kget (\<lambda>s. lcpu_at s i)) (\<lambda>x.
     if lc_ncli x < 0 then kpanic ''popcli''
     else kwhen (lc_ncli x = 0 \<and> lc_intena x) (kmod (upd_lcpu c (\<lambda>x. x\<lparr>lc_if := True\<rparr>)))))))"

text \<open>\<^verbatim>\<open>holding\<close> reads \<^verbatim>\<open>locked\<close>, and if it is set \<^verbatim>\<open>cpu\<close>: \<open>holding_cpu\<close> is what follows the first read.\<close>

definition holding_locked :: "nat \<Rightarrow> nat \<Rightarrow> (uint, 'z lmach_scheme) kernel" where
  "holding_locked c l = kbind (pushcli c) (\<lambda>_. kget (\<lambda>s. locked (locks s l)))"

definition holding_cpu :: "nat \<Rightarrow> nat \<Rightarrow> uint \<Rightarrow> (bool, 'z lmach_scheme) kernel" where
  "holding_cpu c l x =
     kbind (if x = 0 then kret False else kbind (mycpu c) (\<lambda>i. kget (\<lambda>s. lk_cpu (locks s l) = Some i))) (\<lambda>r.
     kbind (popcli c) (\<lambda>_. kret r))"

definition holding :: "nat \<Rightarrow> nat \<Rightarrow> (bool, 'z lmach_scheme) kernel" where
  "holding c l = kbind (holding_locked c l) (holding_cpu c l)"

definition xchg :: "nat \<Rightarrow> uint \<Rightarrow> (uint, 'z lmach_scheme) kernel" where
  "xchg l newval =
     kbind (kget (\<lambda>s. locked (locks s l))) (\<lambda>result.
     kbind (kmod (upd_lock l (\<lambda>k. k\<lparr>locked := newval\<rparr>))) (\<lambda>_. kret result))"

text \<open>The saved program counters of the call stack whose frame holds the argument at address \<open>v\<close>.\<close>

fun pcs_from :: "memory \<Rightarrow> uint \<Rightarrow> nat \<Rightarrow> uint list" where
  "pcs_from m ebp 0 = []"
| "pcs_from m ebp (Suc n) =
     (if ebp = 0 \<or> ebp < KERNBASE \<or> ebp = 0xFFFFFFFF then replicate (Suc n) 0
      else read32 m (ebp + 4) # pcs_from m (read32 m ebp) n)"

definition getcallerpcs :: "memory \<Rightarrow> uint \<Rightarrow> uint list" where
  "getcallerpcs m v = pcs_from m (v - 8) 10"

text \<open>
  The points at which the other CPUs may run. \<open>acquire_step\<close> runs \<^verbatim>\<open>acquire\<close> from one point to the next,
  or to its return (\<open>None\<close>), and \<open>release_step\<close> does so for \<^verbatim>\<open>release\<close>.
\<close>

datatype acq_pc = Acq_enter | Acq_cpu uint | Acq_xchg | Acq_record
datatype rel_pc = Rel_enter | Rel_cpu uint | Rel_clear | Rel_store | Rel_popcli

fun acquire_step :: "nat \<Rightarrow> uint \<Rightarrow> nat \<Rightarrow> acq_pc \<Rightarrow> (acq_pc option, 'z lmach_scheme) kernel" where
  "acquire_step c v l Acq_enter =
     kbind (pushcli c) (\<lambda>_. kbind (holding_locked c l) (\<lambda>x. kret (Some (Acq_cpu x))))"
| "acquire_step c v l (Acq_cpu x) =
     kbind (holding_cpu c l x) (\<lambda>r. if r then kpanic ''acquire'' else kret (Some Acq_xchg))"
| "acquire_step c v l Acq_xchg =
     kbind (xchg l 1) (\<lambda>x. kret (Some (if x \<noteq> 0 then Acq_xchg else Acq_record)))"
| "acquire_step c v l Acq_record =
     kbind (mycpu c) (\<lambda>i.
     kbind (kmod (upd_lock l (\<lambda>k. k\<lparr>lk_cpu := Some i\<rparr>))) (\<lambda>_.
     kbind (kmod (\<lambda>s. upd_lock l (\<lambda>k. k\<lparr>lk_pcs := getcallerpcs (lmem s) v\<rparr>) s)) (\<lambda>_.
     kret None)))"

fun release_step :: "nat \<Rightarrow> nat \<Rightarrow> rel_pc \<Rightarrow> (rel_pc option, 'z lmach_scheme) kernel" where
  "release_step c l Rel_enter =
     kbind (holding_locked c l) (\<lambda>x. kret (Some (Rel_cpu x)))"
| "release_step c l (Rel_cpu x) =
     kbind (holding_cpu c l x) (\<lambda>r. if \<not> r then kpanic ''release'' else kret (Some Rel_clear))"
| "release_step c l Rel_clear =
     kbind (kmod (upd_lock l (\<lambda>k. k\<lparr>lk_pcs := (lk_pcs k)[0 := 0]\<rparr>))) (\<lambda>_.
     kbind (kmod (upd_lock l (\<lambda>k. k\<lparr>lk_cpu := None\<rparr>))) (\<lambda>_.
     kret (Some Rel_store)))"
| "release_step c l Rel_store =
     kbind (kmod (upd_lock l (\<lambda>k. k\<lparr>locked := 0\<rparr>))) (\<lambda>_. kret (Some Rel_popcli))"
| "release_step c l Rel_popcli = kbind (popcli c) (\<lambda>_. kret None)"

subsection \<open>Interrupts\<close>

definition apics_ok :: "'z lmach_scheme \<Rightarrow> bool" where
  "apics_ok s \<longleftrightarrow> distinct (map lc_apicid (lcpus s))"

definition cli_push :: "lcpu \<Rightarrow> lcpu" where
  "cli_push x = x\<lparr>lc_if := False, lc_intena := (if lc_ncli x = 0 then lc_if x else lc_intena x),
     lc_ncli := lc_ncli x + 1\<rparr>"

definition cli_pop :: "lcpu \<Rightarrow> lcpu" where
  "cli_pop x = x\<lparr>lc_ncli := lc_ncli x - 1, lc_if := (lc_ncli x = 1 \<and> lc_intena x)\<rparr>"

lemma upd_lcpu_simps [simp]:
  "c < length (lcpus s) \<Longrightarrow> lcpu_at (upd_lcpu c f s) c = f (lcpu_at s c)"
  "c \<noteq> d \<Longrightarrow> lcpu_at (upd_lcpu c f s) d = lcpu_at s d"
  "c < length (lcpus s) \<Longrightarrow> upd_lcpu c f (upd_lcpu c g s) = upd_lcpu c (\<lambda>x. f (g x)) s"
  by (simp_all add: upd_lcpu_def)

lemma upd_lcpu_frame [simp]:
  "locks (upd_lcpu c f s) = locks s" "lmem (upd_lcpu c f s) = lmem s"
  "length (lcpus (upd_lcpu c f s)) = length (lcpus s)"
  by (simp_all add: upd_lcpu_def)

lemma upd_lock_frame [simp]:
  "lcpus (upd_lock l f s) = lcpus s" "lmem (upd_lock l f s) = lmem s"
  "locks (upd_lock l f s) k = (if k = l then f (locks s l) else locks s k)"
  by (simp_all add: upd_lock_def)

lemma apics_ok_upd: "apics_ok s \<Longrightarrow> (\<And>x. lc_apicid (f x) = lc_apicid x) \<Longrightarrow> apics_ok (upd_lcpu c f s)"
proof -
  assume "apics_ok s" and f: "\<And>x. lc_apicid (f x) = lc_apicid x"
  moreover have "map lc_apicid (lcpus (upd_lcpu c f s)) = map lc_apicid (lcpus s)"
    by (rule nth_equalityI) (simp_all add: upd_lcpu_def, metis f nth_list_update_eq nth_list_update_neq)
  ultimately show ?thesis by (simp add: apics_ok_def)
qed

lemma mycpu_run:
  assumes "apics_ok s" and "c < length (lcpus s)" and "\<not> lc_if (lcpu_at s c)"
  shows "mycpu c s = Ret c s"
proof -
  have "find (\<lambda>i. lc_apicid (lcpu_at s i) = lc_apicid (lcpu_at s c)) [0..<length (lcpus s)] = Some c"
    unfolding find_Some_iff using assms(1,2)
    by (intro exI[of _ c]) (auto simp: apics_ok_def distinct_conv_nth)
  then show ?thesis using assms(3) by (simp add: mycpu_def)
qed

lemma pushcli_run:
  assumes "apics_ok s" and "c < length (lcpus s)"
  shows "pushcli c s = Ret () (upd_lcpu c cli_push s)"
proof -
  let ?s = "upd_lcpu c (\<lambda>x. x\<lparr>lc_if := False\<rparr>) s"
  have r: "mycpu c (upd_lcpu c g s) = Ret c (upd_lcpu c g s)"
    if "\<And>x. lc_apicid (g x) = lc_apicid x" "\<not> lc_if (g (lcpu_at s c))" for g
    by (rule mycpu_run) (use assms that in \<open>auto intro: apics_ok_upd\<close>)
  have f: "upd_lcpu c f s = upd_lcpu c g s" if "f (lcpu_at s c) = g (lcpu_at s c)" for f g
    using that by (simp add: upd_lcpu_def)
  show ?thesis
    using assms by (simp add: pushcli_def kbind_def r) (auto simp: kwhen_def kbind_def r cli_push_def intro!: f)
qed

lemma popcli_run:
  assumes "apics_ok s" and "c < length (lcpus s)" and "\<not> lc_if (lcpu_at s c)" and "1 \<le> lc_ncli (lcpu_at s c)"
  shows "popcli c s = Ret () (upd_lcpu c cli_pop s)"
proof -
  have f: "upd_lcpu c f s = upd_lcpu c g s" if "f (lcpu_at s c) = g (lcpu_at s c)" for f g
    using that by (simp add: upd_lcpu_def)
  show ?thesis
    using assms by (auto simp: popcli_def kbind_def mycpu_run kwhen_def cli_pop_def intro!: f)
qed

lemma holding_locked_run:
  assumes "apics_ok s" and "c < length (lcpus s)"
  shows "holding_locked c l s = Ret (locked (locks s l)) (upd_lcpu c cli_push s)"
  using assms by (simp add: holding_locked_def kbind_def pushcli_run)

lemma holding_cpu_run:
  assumes "apics_ok s" and "c < length (lcpus s)" and "\<not> lc_if (lcpu_at s c)" and "1 \<le> lc_ncli (lcpu_at s c)"
  shows "holding_cpu c l x s = Ret (x \<noteq> 0 \<and> lk_cpu (locks s l) = Some c) (upd_lcpu c cli_pop s)"
  using assms by (simp add: holding_cpu_def kbind_def popcli_run mycpu_run)

subsection \<open>All CPUs\<close>

text \<open>
  \<open>lpc\<close> says where each CPU is; \<open>held\<close> are the locks between whose \<^verbatim>\<open>acquire\<close> and \<^verbatim>\<open>release\<close> it is, that is,
  the critical sections it executes. A CPU calls \<^verbatim>\<open>acquire\<close> only on a lock it does not hold and \<^verbatim>\<open>release\<close>
  only on one it holds. Interrupts may come when \<^verbatim>\<open>FL_IF\<close> is set, and their gates clear it; it is set
  again, by \<^verbatim>\<open>iret\<close> or by the \<^verbatim>\<open>sti\<close> of the scheduler, only where no lock is held. A CPU that holds one lock
  may switch to another process (\<^verbatim>\<open>sched\<close>), which sets \<^verbatim>\<open>intena\<close> to what that process had.
\<close>

datatype lock_pc = Running | Acquiring nat acq_pc | Releasing nat rel_pc

record lsys = lmach +
  lpc :: "nat \<Rightarrow> lock_pc"
  held :: "nat \<Rightarrow> nat list"

definition goto :: "nat \<Rightarrow> lock_pc \<Rightarrow> lsys \<Rightarrow> lsys" where
  "goto c k s = s\<lparr>lpc := (lpc s)(c := k)\<rparr>"

definition hold :: "nat \<Rightarrow> nat list \<Rightarrow> lsys \<Rightarrow> lsys" where
  "hold c ls s = s\<lparr>held := (held s)(c := ls)\<rparr>"

inductive lock_step :: "lsys \<Rightarrow> lsys \<Rightarrow> bool" where
  call_acquire: "c < length (lcpus s) \<Longrightarrow> lpc s c = Running \<Longrightarrow> l \<notin> set (held s c) \<Longrightarrow>
    lock_step s (goto c (Acquiring l Acq_enter) s)"
| in_acquire: "c < length (lcpus s) \<Longrightarrow> lpc s c = Acquiring l k \<Longrightarrow> acquire_step c v l k s = Ret (Some k') t \<Longrightarrow>
    lock_step s (goto c (Acquiring l k') t)"
| acquired: "c < length (lcpus s) \<Longrightarrow> lpc s c = Acquiring l k \<Longrightarrow> acquire_step c v l k s = Ret None t \<Longrightarrow>
    lock_step s (hold c (l # held s c) (goto c Running t))"
| call_release: "c < length (lcpus s) \<Longrightarrow> lpc s c = Running \<Longrightarrow> l \<in> set (held s c) \<Longrightarrow>
    lock_step s (hold c (remove1 l (held s c)) (goto c (Releasing l Rel_enter) s))"
| in_release: "c < length (lcpus s) \<Longrightarrow> lpc s c = Releasing l k \<Longrightarrow> release_step c l k s = Ret (Some k') t \<Longrightarrow>
    lock_step s (goto c (Releasing l k') t)"
| released: "c < length (lcpus s) \<Longrightarrow> lpc s c = Releasing l k \<Longrightarrow> release_step c l k s = Ret None t \<Longrightarrow>
    lock_step s (goto c Running t)"
| interrupt: "c < length (lcpus s) \<Longrightarrow> lpc s c = Running \<Longrightarrow> lc_if (lcpu_at s c) \<Longrightarrow>
    lock_step s (upd_lcpu c (\<lambda>x. x\<lparr>lc_if := False\<rparr>) s)"
| enable: "c < length (lcpus s) \<Longrightarrow> lpc s c = Running \<Longrightarrow> held s c = [] \<Longrightarrow>
    lock_step s (upd_lcpu c (\<lambda>x. x\<lparr>lc_if := True\<rparr>) s)"
| resched: "c < length (lcpus s) \<Longrightarrow> lpc s c = Running \<Longrightarrow> held s c = [l] \<Longrightarrow>
    lock_step s (upd_lcpu c (\<lambda>x. x\<lparr>lc_intena := b\<rparr>) s)"

inductive locks_reach :: "lsys \<Rightarrow> bool" where
  start: "apics_ok s \<Longrightarrow> (\<forall>c. lpc s c = Running \<and> held s c = []) \<Longrightarrow>
    (\<forall>c < length (lcpus s). lc_ncli (lcpu_at s c) = 0) \<Longrightarrow>
    (\<forall>l. locked (locks s l) = 0 \<and> lk_cpu (locks s l) = None) \<Longrightarrow> locks_reach s"
| step: "locks_reach s \<Longrightarrow> lock_step s t \<Longrightarrow> locks_reach t"

definition owns :: "lsys \<Rightarrow> nat \<Rightarrow> nat \<Rightarrow> bool" where
  "owns s c l \<longleftrightarrow> l \<in> set (held s c) \<or> lpc s c = Acquiring l Acq_record \<or>
     (\<exists>k. lpc s c = Releasing l k \<and> k \<noteq> Rel_popcli)"

definition recorded :: "lsys \<Rightarrow> nat \<Rightarrow> nat \<Rightarrow> bool" where
  "recorded s c l \<longleftrightarrow> l \<in> set (held s c) \<or> (\<exists>k. lpc s c = Releasing l k \<and> k \<noteq> Rel_store \<and> k \<noteq> Rel_popcli)"

fun cli_extra :: "lock_pc \<Rightarrow> int" where
  "cli_extra Running = 0"
| "cli_extra (Acquiring l Acq_enter) = 0"
| "cli_extra (Acquiring l (Acq_cpu x)) = 2"
| "cli_extra (Acquiring l Acq_xchg) = 1"
| "cli_extra (Acquiring l Acq_record) = 1"
| "cli_extra (Releasing l (Rel_cpu x)) = 2"
| "cli_extra (Releasing l k) = 1"

definition cpu_inv :: "lcpu \<Rightarrow> lock_pc \<Rightarrow> nat list \<Rightarrow> bool" where
  "cpu_inv x k ls \<longleftrightarrow>
     lc_ncli x = int (length ls) + cli_extra k \<and> (0 < lc_ncli x \<longrightarrow> \<not> lc_if x) \<and> distinct ls \<and>
     (case k of Running \<Rightarrow> True | Acquiring l _ \<Rightarrow> l \<notin> set ls
      | Releasing l r \<Rightarrow> l \<notin> set ls \<and> (case r of Rel_cpu y \<Rightarrow> y \<noteq> 0 | _ \<Rightarrow> True))"

definition lock_ok :: "lsys \<Rightarrow> nat \<Rightarrow> bool" where
  "lock_ok s l \<longleftrightarrow>
     (locked (locks s l) \<noteq> 0 \<longleftrightarrow> (\<exists>c < length (lcpus s). owns s c l)) \<and>
     (\<forall>c < length (lcpus s). \<forall>d < length (lcpus s). owns s c l \<longrightarrow> owns s d l \<longrightarrow> c = d) \<and>
     (\<forall>d. lk_cpu (locks s l) = Some d \<longleftrightarrow> d < length (lcpus s) \<and> recorded s d l)"

definition locks_inv :: "lsys \<Rightarrow> bool" where
  "locks_inv s \<longleftrightarrow> apics_ok s \<and> (\<forall>c < length (lcpus s). cpu_inv (lcpu_at s c) (lpc s c) (held s c)) \<and> (\<forall>l. lock_ok s l)"

text \<open>A step of one CPU concerns its own control state and the lock it works on.\<close>

definition local_step :: "nat \<Rightarrow> lsys \<Rightarrow> lsys \<Rightarrow> bool" where
  "local_step c s t \<longleftrightarrow>
     length (lcpus t) = length (lcpus s) \<and> apics_ok t \<and>
     (\<forall>d. d \<noteq> c \<longrightarrow> lcpu_at t d = lcpu_at s d \<and> lpc t d = lpc s d \<and> held t d = held s d) \<and>
     cpu_inv (lcpu_at t c) (lpc t c) (held t c)"

definition lock_change :: "nat \<Rightarrow> lsys \<Rightarrow> lsys \<Rightarrow> nat \<Rightarrow> bool" where
  "lock_change c s t l \<longleftrightarrow>
     (locked (locks t l) \<noteq> 0 \<longleftrightarrow> owns t c l \<or> locked (locks s l) \<noteq> 0 \<and> \<not> owns s c l) \<and>
     (owns t c l \<longrightarrow> owns s c l \<or> locked (locks s l) = 0) \<and>
     (\<forall>d. lk_cpu (locks t l) = Some d \<longleftrightarrow>
        (if d = c then recorded t c l else lk_cpu (locks s l) = Some d))"

lemma locks_inv_local:
  assumes inv: "locks_inv s" and c: "c < length (lcpus s)" and step: "local_step c s t"
    and l: "\<And>l. lock_change c s t l"
  shows "locks_inv t"
proof -
  have n: "length (lcpus t) = length (lcpus s)" and a: "apics_ok t" and o: "cpu_inv (lcpu_at t c) (lpc t c) (held t c)"
    using step by (auto simp: local_step_def)
  have other: "owns t d l = owns s d l" "recorded t d l = recorded s d l" "cpu_inv (lcpu_at t d) (lpc t d) (held t d) = cpu_inv (lcpu_at s d) (lpc s d) (held s d)"
    if "d \<noteq> c" for d l
    using step that by (simp_all add: local_step_def owns_def recorded_def)
  have "lock_ok t l" for l
  proof -
    have s: "lock_ok s l" using inv by (simp add: locks_inv_def)
    note L = l[of l, unfolded lock_change_def]
    have "locked (locks t l) \<noteq> 0 \<longleftrightarrow> (\<exists>d < length (lcpus t). owns t d l)"
      using s L other(1)[of _ l] c unfolding lock_ok_def n by metis
    moreover have "\<forall>b < length (lcpus t). \<forall>d < length (lcpus t). owns t b l \<longrightarrow> owns t d l \<longrightarrow> b = d"
      using s L other(1)[of _ l] c unfolding lock_ok_def n by metis
    moreover have "lk_cpu (locks t l) = Some d \<longleftrightarrow> d < length (lcpus t) \<and> recorded t d l" for d
      using s L other(2)[of _ l] c unfolding lock_ok_def n by (cases "d = c") auto
    ultimately show ?thesis by (simp add: lock_ok_def)
  qed
  moreover have "cpu_inv (lcpu_at t d) (lpc t d) (held t d)" if "d < length (lcpus t)" for d
    using that inv o other(3)[of d] unfolding n locks_inv_def by (cases "d = c") auto
  ultimately show ?thesis using a by (simp add: locks_inv_def)
qed

lemma lsys_frame [simp]:
  "lcpus (goto c k s) = lcpus s" "locks (goto c k s) = locks s" "held (goto c k s) = held s"
  "lpc (goto c k s) = (lpc s)(c := k)"
  "lcpus (hold c ls s) = lcpus s" "locks (hold c ls s) = locks s" "lpc (hold c ls s) = lpc s"
  "held (hold c ls s) = (held s)(c := ls)"
  "lpc (upd_lcpu c f s) = lpc s" "held (upd_lcpu c f s) = held s"
  "lpc (upd_lock l g s) = lpc s" "held (upd_lock l g s) = held s"
  by (simp_all add: goto_def hold_def upd_lcpu_def upd_lock_def)

lemma apics_ok_frame [simp]:
  "apics_ok (goto c k s) = apics_ok s" "apics_ok (hold c ls s) = apics_ok s" "apics_ok (upd_lock l g s) = apics_ok s"
  by (simp_all add: apics_ok_def)

lemma cli_keeps [simp]:
  "lc_apicid (cli_push x) = lc_apicid x" "lc_apicid (cli_pop x) = lc_apicid x"
  "lc_ncli (cli_push x) = lc_ncli x + 1" "lc_ncli (cli_pop x) = lc_ncli x - 1" "\<not> lc_if (cli_push x)"
  "lc_if (cli_pop x) = (lc_ncli x = 1 \<and> lc_intena x)"
  by (simp_all add: cli_push_def cli_pop_def)

lemma apics_ok_cli [simp]:
  "apics_ok s \<Longrightarrow> apics_ok (upd_lcpu c cli_push s)" "apics_ok s \<Longrightarrow> apics_ok (upd_lcpu c cli_pop s)"
  by (auto intro: apics_ok_upd)

lemma locks_invD:
  assumes "locks_inv s" and "c < length (lcpus s)"
  shows "apics_ok s" "cpu_inv (lcpu_at s c) (lpc s c) (held s c)" "owns s c l \<Longrightarrow> locked (locks s l) \<noteq> 0"
    "lk_cpu (locks s l) = Some c \<longleftrightarrow> recorded s c l" "owns s c l \<Longrightarrow> lk_cpu (locks s l) = Some d \<Longrightarrow> d = c"
proof -
  have ok: "apics_ok s" "\<And>l. lock_ok s l" using assms by (simp_all add: locks_inv_def)
  show "apics_ok s" "cpu_inv (lcpu_at s c) (lpc s c) (held s c)" using assms by (simp_all add: locks_inv_def)
  show "owns s c l \<Longrightarrow> locked (locks s l) \<noteq> 0" "lk_cpu (locks s l) = Some c \<longleftrightarrow> recorded s c l"
    using ok(2)[of l] assms(2) unfolding lock_ok_def by metis+
  have "recorded s d l \<Longrightarrow> owns s d l" by (auto simp: recorded_def owns_def)
  then show "owns s c l \<Longrightarrow> lk_cpu (locks s l) = Some d \<Longrightarrow> d = c"
    using ok(2)[of l] assms(2) unfolding lock_ok_def by metis
qed

text \<open>Every step of \<^verbatim>\<open>acquire\<close> and \<^verbatim>\<open>release\<close> returns: none of their panics is reached.\<close>

lemma acquire_step_run:
  assumes inv: "locks_inv s" and c: "c < length (lcpus s)" and pc: "lpc s c = Acquiring l k"
  shows "acquire_step c v l k s = (case k of
      Acq_enter \<Rightarrow> Ret (Some (Acq_cpu (locked (locks s l)))) (upd_lcpu c (\<lambda>x. cli_push (cli_push x)) s)
    | Acq_cpu x \<Rightarrow> Ret (Some Acq_xchg) (upd_lcpu c cli_pop s)
    | Acq_xchg \<Rightarrow> Ret (Some (if locked (locks s l) \<noteq> 0 then Acq_xchg else Acq_record)) (upd_lock l (\<lambda>k. k\<lparr>locked := 1\<rparr>) s)
    | Acq_record \<Rightarrow> Ret None (upd_lock l (\<lambda>k. k\<lparr>lk_cpu := Some c, lk_pcs := getcallerpcs (lmem s) v\<rparr>) s))"
proof -
  note I = locks_invD[OF inv c]
  have notrec: "lk_cpu (locks s l) \<noteq> Some c" using I(2) I(4)[of l] pc by (auto simp: recorded_def cpu_inv_def)
  show ?thesis
  proof (cases k)
    case Acq_enter
    then show ?thesis using I(1) c by (simp add: kbind_def pushcli_run holding_locked_run)
  next
    case (Acq_cpu x)
    then have "\<not> lc_if (lcpu_at s c)" "1 \<le> lc_ncli (lcpu_at s c)" using I(2) pc by (auto simp: cpu_inv_def)
    then show ?thesis using Acq_cpu I(1) c notrec by (simp add: kbind_def holding_cpu_run)
  next
    case Acq_xchg
    then show ?thesis by (simp add: kbind_def xchg_def)
  next
    case Acq_record
    then have "\<not> lc_if (lcpu_at s c)" using I(2) pc by (auto simp: cpu_inv_def)
    then show ?thesis using Acq_record I(1) c by (simp add: kbind_def mycpu_run upd_lock_def)
  qed
qed

lemma release_step_run:
  assumes inv: "locks_inv s" and c: "c < length (lcpus s)" and pc: "lpc s c = Releasing l k"
  shows "release_step c l k s = (case k of
      Rel_enter \<Rightarrow> Ret (Some (Rel_cpu (locked (locks s l)))) (upd_lcpu c cli_push s)
    | Rel_cpu x \<Rightarrow> Ret (Some Rel_clear) (upd_lcpu c cli_pop s)
    | Rel_clear \<Rightarrow> Ret (Some Rel_store) (upd_lock l (\<lambda>k. k\<lparr>lk_pcs := (lk_pcs k)[0 := 0], lk_cpu := None\<rparr>) s)
    | Rel_store \<Rightarrow> Ret (Some Rel_popcli) (upd_lock l (\<lambda>k. k\<lparr>locked := 0\<rparr>) s)
    | Rel_popcli \<Rightarrow> Ret None (upd_lcpu c cli_pop s))"
proof -
  note I = locks_invD[OF inv c]
  have n: "\<not> lc_if (lcpu_at s c)" "1 \<le> lc_ncli (lcpu_at s c)"
    using I(2) pc by (cases k; auto simp: cpu_inv_def)+
  show ?thesis
  proof (cases k)
    case (Rel_cpu x)
    then have "lk_cpu (locks s l) = Some c" "x \<noteq> 0" using I(2) I(4)[of l] pc by (auto simp: recorded_def cpu_inv_def)
    then show ?thesis using Rel_cpu I(1) c n by (simp add: kbind_def holding_cpu_run)
  qed (use I(1) c n in \<open>simp_all add: kbind_def holding_locked_run popcli_run upd_lock_def\<close>)
qed

lemma lock_change_same:
  assumes "locks_inv s" and "c < length (lcpus s)"
    and "locks t m = locks s m" and "owns t c m = owns s c m" and "recorded t c m = recorded s c m"
  shows "lock_change c s t m"
  using locks_invD(3,4)[OF assms(1,2), of m] assms(3-) by (auto simp: lock_change_def)

lemma acquire_step_local:
  assumes inv: "locks_inv s" and c: "c < length (lcpus s)" and pc: "lpc s c = Acquiring l k"
    and r: "acquire_step c v l k s = Ret (Some k') t"
  shows "local_step c s (goto c (Acquiring l k') t) \<and> lock_change c s (goto c (Acquiring l k') t) m"
proof -
  note I = locks_invD[OF inv c] and run = r[unfolded acquire_step_run[OF inv c pc]]
  have "local_step c s (goto c (Acquiring l k') t)" using I(1,2) I(3)[of l] run c pc
    by (cases k) (auto simp: local_step_def cpu_inv_def owns_def intro: apics_ok_upd)
  moreover have "lock_change c s (goto c (Acquiring l k') t) m"
  proof (cases "m = l")
    case False
    show ?thesis
      by (rule lock_change_same[OF inv c]; use run pc False in \<open>cases k\<close>) (auto simp: owns_def recorded_def)
  next
    case True
    have "\<And>d. owns s c l \<Longrightarrow> d \<noteq> c \<Longrightarrow> lk_cpu (locks s l) \<noteq> Some d" using I(5)[of l] by blast
    then show ?thesis unfolding True using I(2) I(3)[of l] I(4)[of l] run pc
      by (cases k; cases "locked (locks s l) = 0") (auto simp: lock_change_def cpu_inv_def owns_def recorded_def)
  qed
  ultimately show ?thesis ..
qed

lemma acquired_local:
  assumes inv: "locks_inv s" and c: "c < length (lcpus s)" and pc: "lpc s c = Acquiring l k"
    and r: "acquire_step c v l k s = Ret None t"
  shows "local_step c s (hold c (l # held s c) (goto c Running t)) \<and>
    lock_change c s (hold c (l # held s c) (goto c Running t)) m"
proof -
  note I = locks_invD[OF inv c] and run = r[unfolded acquire_step_run[OF inv c pc]]
  have "local_step c s (hold c (l # held s c) (goto c Running t))" using I(1,2) I(3)[of l] run c pc
    by (cases k) (auto simp: local_step_def cpu_inv_def owns_def intro: apics_ok_upd)
  moreover have "lock_change c s (hold c (l # held s c) (goto c Running t)) m"
  proof (cases "m = l")
    case False
    show ?thesis
      by (rule lock_change_same[OF inv c]; use run pc False in \<open>cases k\<close>) (auto simp: owns_def recorded_def)
  next
    case True
    have "\<And>d. owns s c l \<Longrightarrow> d \<noteq> c \<Longrightarrow> lk_cpu (locks s l) \<noteq> Some d" using I(5)[of l] by blast
    then show ?thesis unfolding True using I(2) I(3)[of l] I(4)[of l] run pc
      by (cases k; cases "locked (locks s l) = 0") (auto simp: lock_change_def cpu_inv_def owns_def recorded_def)
  qed
  ultimately show ?thesis ..
qed

lemma release_step_local:
  assumes inv: "locks_inv s" and c: "c < length (lcpus s)" and pc: "lpc s c = Releasing l k"
    and r: "release_step c l k s = Ret (Some k') t"
  shows "local_step c s (goto c (Releasing l k') t) \<and> lock_change c s (goto c (Releasing l k') t) m"
proof -
  note I = locks_invD[OF inv c] and run = r[unfolded release_step_run[OF inv c pc]]
  have "local_step c s (goto c (Releasing l k') t)" using I(1,2) I(3)[of l] run c pc
    by (cases k) (auto simp: local_step_def cpu_inv_def owns_def intro: apics_ok_upd)
  moreover have "lock_change c s (goto c (Releasing l k') t) m"
  proof (cases "m = l")
    case False
    show ?thesis
      by (rule lock_change_same[OF inv c]; use run pc False in \<open>cases k\<close>) (auto simp: owns_def recorded_def)
  next
    case True
    have "\<And>d. owns s c l \<Longrightarrow> d \<noteq> c \<Longrightarrow> lk_cpu (locks s l) \<noteq> Some d" using I(5)[of l] by blast
    then show ?thesis unfolding True using I(2) I(3)[of l] I(4)[of l] run pc
      by (cases k; cases "locked (locks s l) = 0") (auto simp: lock_change_def cpu_inv_def owns_def recorded_def)
  qed
  ultimately show ?thesis ..
qed

lemma released_local:
  assumes inv: "locks_inv s" and c: "c < length (lcpus s)" and pc: "lpc s c = Releasing l k"
    and r: "release_step c l k s = Ret None t"
  shows "local_step c s (goto c Running t) \<and> lock_change c s (goto c Running t) m"
proof -
  note I = locks_invD[OF inv c] and run = r[unfolded release_step_run[OF inv c pc]]
  have "local_step c s (goto c Running t)" using I(1,2) I(3)[of l] run c pc
    by (cases k) (auto simp: local_step_def cpu_inv_def owns_def intro: apics_ok_upd)
  moreover have "lock_change c s (goto c Running t) m"
  proof (cases "m = l")
    case False
    show ?thesis
      by (rule lock_change_same[OF inv c]; use run pc False in \<open>cases k\<close>) (auto simp: owns_def recorded_def)
  next
    case True
    have "\<And>d. owns s c l \<Longrightarrow> d \<noteq> c \<Longrightarrow> lk_cpu (locks s l) \<noteq> Some d" using I(5)[of l] by blast
    then show ?thesis unfolding True using I(2) I(3)[of l] I(4)[of l] run pc
      by (cases k; cases "locked (locks s l) = 0") (auto simp: lock_change_def cpu_inv_def owns_def recorded_def)
  qed
  ultimately show ?thesis ..
qed

lemma call_release_local:
  assumes inv: "locks_inv s" and c: "c < length (lcpus s)" and pc: "lpc s c = Running" and l: "l \<in> set (held s c)"
  shows "local_step c s (hold c (remove1 l (held s c)) (goto c (Releasing l Rel_enter) s)) \<and>
    lock_change c s (hold c (remove1 l (held s c)) (goto c (Releasing l Rel_enter) s)) m"
proof -
  note I = locks_invD[OF inv c]
  have "Suc (length (remove1 l (held s c))) = length (held s c)"
    using l by (simp add: length_remove1) (cases "held s c", auto)
  then have "int (length (remove1 l (held s c))) + 1 = int (length (held s c))" by linarith
  then show ?thesis
    using I(1,2) I(3)[of m] I(4)[of m] c pc l
    by (auto simp: local_step_def lock_change_def cpu_inv_def owns_def recorded_def)
qed

lemma lock_step_inv:
  assumes "lock_step s t" and "locks_inv s"
  shows "locks_inv t"
  using assms
proof (cases rule: lock_step.cases)
  case (call_acquire c l)
  note I = locks_invD[OF assms(2) call_acquire(2)]
  have "local_step c s t \<and> lock_change c s t m" for m
    using I(1,2) I(3)[of m] I(4)[of m] call_acquire
    by (auto simp: local_step_def lock_change_def cpu_inv_def owns_def recorded_def)
  then show ?thesis using locks_inv_local[OF assms(2) call_acquire(2)] by blast
next
  case (interrupt c)
  note I = locks_invD[OF assms(2) interrupt(2)]
  have "local_step c s t \<and> lock_change c s t m" for m
    using I(1,2) I(3)[of m] I(4)[of m] interrupt
    by (auto simp: local_step_def lock_change_def cpu_inv_def owns_def recorded_def intro: apics_ok_upd)
  then show ?thesis using locks_inv_local[OF assms(2) interrupt(2)] by blast
next
  case (enable c)
  note I = locks_invD[OF assms(2) enable(2)]
  have "local_step c s t \<and> lock_change c s t m" for m
    using I(1,2) I(3)[of m] I(4)[of m] enable
    by (auto simp: local_step_def lock_change_def cpu_inv_def owns_def recorded_def intro: apics_ok_upd)
  then show ?thesis using locks_inv_local[OF assms(2) enable(2)] by blast
next
  case (resched c l b)
  note I = locks_invD[OF assms(2) resched(2)]
  have "local_step c s t \<and> lock_change c s t m" for m
    using I(1,2) I(3)[of m] I(4)[of m] resched
    by (auto simp: local_step_def lock_change_def cpu_inv_def owns_def recorded_def intro: apics_ok_upd)
  then show ?thesis using locks_inv_local[OF assms(2) resched(2)] by blast
qed (use locks_inv_local acquire_step_local acquired_local release_step_local released_local call_release_local assms(2) in metis)+

lemma locks_reach_inv: "locks_reach s \<Longrightarrow> locks_inv s"
proof (induction rule: locks_reach.induct)
  case (start s)
  then show ?case
    by (auto simp: locks_inv_def lock_ok_def cpu_inv_def owns_def recorded_def)
next
  case (step s t)
  then show ?case using lock_step_inv by blast
qed

declare acquire_step.simps [simp del] release_step.simps [simp del]

text \<open>A CPU that no other CPU disturbs takes a free lock, and one that finds the lock taken comes to spin on it.\<close>

lemma acquire_alone:
  assumes r: "locks_reach s" and c: "c < length (lcpus s)" and pc: "lpc s c = Running" and l: "l \<notin> set (held s c)"
  shows "\<exists>t. locks_reach t \<and> length (lcpus t) = length (lcpus s) \<and> lpc t c = Acquiring l Acq_xchg \<and>
    held t = held s \<and> locks t = locks s \<and> (\<forall>d. d \<noteq> c \<longrightarrow> lpc t d = lpc s d)"
proof -
  let ?a = "goto c (Acquiring l Acq_enter) s"
  have a: "locks_reach ?a" using r call_acquire[OF c pc l] by (rule locks_reach.step)
  let ?b = "goto c (Acquiring l (Acq_cpu (locked (locks s l)))) (upd_lcpu c (\<lambda>x. cli_push (cli_push x)) ?a)"
  have "lock_step ?a ?b"
    by (rule in_acquire[where v = 0]) (use c acquire_step_run[OF locks_reach_inv[OF a], where c = c and v = 0] in simp_all)
  with a have b: "locks_reach ?b" by (rule locks_reach.step)
  let ?t = "goto c (Acquiring l Acq_xchg) (upd_lcpu c cli_pop ?b)"
  have "lock_step ?b ?t"
    by (rule in_acquire[where v = 0]) (use c acquire_step_run[OF locks_reach_inv[OF b], where c = c and v = 0] in simp_all)
  with b have "locks_reach ?t" by (rule locks_reach.step)
  then show ?thesis by (intro exI[of _ ?t]) simp
qed

lemma acquire_free:
  assumes r: "locks_reach s" and c: "c < length (lcpus s)" and pc: "lpc s c = Running" and l: "l \<notin> set (held s c)"
    and free: "locked (locks s l) = 0"
  shows "\<exists>t. locks_reach t \<and> length (lcpus t) = length (lcpus s) \<and> lpc t c = Running \<and> held t = (held s)(c := l # held s c) \<and>
    (\<forall>d. d \<noteq> c \<longrightarrow> lpc t d = lpc s d)"
proof -
  obtain a where a: "locks_reach a" "length (lcpus a) = length (lcpus s)" "lpc a c = Acquiring l Acq_xchg"
    "held a = held s" "locks a = locks s" "\<forall>d. d \<noteq> c \<longrightarrow> lpc a d = lpc s d"
    using acquire_alone[OF r c pc l] by blast
  let ?b = "goto c (Acquiring l Acq_record) (upd_lock l (\<lambda>k. k\<lparr>locked := 1\<rparr>) a)"
  have "lock_step a ?b"
    by (rule in_acquire[where v = 0]) (use c a free acquire_step_run[OF locks_reach_inv[OF a(1)], where c = c and v = 0] in simp_all)
  with a(1) have b: "locks_reach ?b" by (rule locks_reach.step)
  let ?t = "hold c (l # held ?b c) (goto c Running (upd_lock l (\<lambda>k. k\<lparr>lk_cpu := Some c, lk_pcs := getcallerpcs (lmem ?b) 0\<rparr>) ?b))"
  have "lock_step ?b ?t"
    by (rule acquired[where v = 0]) (use c a acquire_step_run[OF locks_reach_inv[OF b], where c = c and v = 0] in simp_all)
  with b have "locks_reach ?t" by (rule locks_reach.step)
  then show ?thesis using a by (intro exI[of _ ?t]) (simp add: fun_eq_iff)
qed

text \<open>Two CPUs with interrupts on and every lock free, and a state in which CPU 0 holds lock 0.\<close>

definition lock_boot :: lsys where
  "lock_boot = \<lparr>lcpus = [\<lparr>lc_apicid = 0, lc_ncli = 0, lc_intena = False, lc_if = True\<rparr>,
       \<lparr>lc_apicid = 1, lc_ncli = 0, lc_intena = False, lc_if = True\<rparr>],
     locks = (\<lambda>_. \<lparr>locked = 0, lk_name = [], lk_cpu = None, lk_pcs = replicate 10 0\<rparr>), lmem = (\<lambda>_. 0),
     lpc = (\<lambda>_. Running), held = (\<lambda>_. [])\<rparr>"

lemma lock_boot_reach: "locks_reach lock_boot"
  by (rule locks_reach.start) (auto simp: lock_boot_def apics_ok_def less_Suc_eq)

lemma lock_example:
  "\<exists>s. locks_reach s \<and> length (lcpus s) = 2 \<and> lpc s 0 = Running \<and> held s 0 = [0] \<and> lpc s 1 = Running \<and> held s 1 = []"
  using acquire_free[OF lock_boot_reach, of 0 0] by (fastforce simp: lock_boot_def)

subsection \<open>Properties of the locks\<close>

text \<open>
  C12. Mutual exclusion. However the CPUs interleave the accesses of \<^verbatim>\<open>acquire\<close> and \<^verbatim>\<open>release\<close> to the locks,
  two CPUs are never between \<^verbatim>\<open>acquire\<close> and \<^verbatim>\<open>release\<close> of the same lock. The CPU that is there has its
  interrupts off, and the lock records it.
\<close>

theorem mutual_exclusion:
  assumes "locks_reach s" and "c < length (lcpus s)" and "d < length (lcpus s)"
    and "l \<in> set (held s c)" and "l \<in> set (held s d)"
  shows "c = d \<and> locked (locks s l) \<noteq> 0 \<and> lk_cpu (locks s l) = Some c \<and> \<not> lc_if (lcpu_at s c)"
proof -
  note inv = locks_reach_inv[OF assms(1)]
  have own: "owns s c l" "owns s d l" "recorded s c l" using assms(4,5) by (simp_all add: owns_def recorded_def)
  have "lock_ok s l" using inv by (simp add: locks_inv_def)
  then have "c = d" using own assms(2,3) by (simp add: lock_ok_def)
  moreover have "0 < length (held s c)" using assms(4) by (cases "held s c") auto
  moreover have "0 \<le> cli_extra k" for k by (cases k rule: cli_extra.cases) auto
  ultimately show ?thesis
    using locks_invD[OF inv assms(2)] own by (auto simp: cpu_inv_def add_pos_nonneg)
qed

theorem mutual_exclusion_witness:
  "\<exists>s. locks_reach s \<and> length (lcpus s) = 2 \<and> 0 \<in> set (held s 0) \<and> 0 \<notin> set (held s 1) \<and> \<not> lc_if (lcpu_at s 0)"
proof -
  obtain s where s: "locks_reach s" "length (lcpus s) = 2" "held s 0 = [0]" "held s 1 = []"
    using lock_example by blast
  then have "\<not> lc_if (lcpu_at s 0)" using mutual_exclusion[of s 0 0 0] by simp
  then show ?thesis using s by (intro exI[of _ s]) simp
qed

text \<open>
  C20. The locks do not panic. In every reachable state, whatever the other CPUs do, the next step of a CPU
  inside \<^verbatim>\<open>acquire\<close> or \<^verbatim>\<open>release\<close> returns: the checks of \<^verbatim>\<open>acquire\<close>, \<^verbatim>\<open>release\<close>, \<^verbatim>\<open>popcli\<close> and \<^verbatim>\<open>mycpu\<close> pass.
\<close>

theorem locks_never_panic:
  assumes "locks_reach s" and "c < length (lcpus s)"
  shows "(lpc s c = Acquiring l k \<longrightarrow> (\<exists>r t. acquire_step c v l k s = Ret r t)) \<and>
    (lpc s c = Releasing l q \<longrightarrow> (\<exists>r t. release_step c l q s = Ret r t))"
  using acquire_step_run[OF locks_reach_inv[OF assms(1)] assms(2), of l k v]
    release_step_run[OF locks_reach_inv[OF assms(1)] assms(2), of l q]
  by (simp split: acq_pc.splits rel_pc.splits)

theorem locks_never_panic_witness:
  "\<exists>s r t. locks_reach s \<and> lpc s 1 = Acquiring 0 Acq_xchg \<and> held s 0 = [0] \<and> acquire_step 1 0 0 Acq_xchg s = Ret r t"
proof -
  obtain a where a: "locks_reach a" "length (lcpus a) = 2" "held a 0 = [0]" "lpc a 1 = Running" "held a 1 = []"
    using lock_example by blast
  obtain s where s: "locks_reach s" "length (lcpus s) = 2" "lpc s 1 = Acquiring 0 Acq_xchg" "held s = held a"
    using acquire_alone[OF a(1), of 1 0] a by (auto simp: a(5))
  then show ?thesis using locks_never_panic[of s 1 0 Acq_xchg 0 Rel_enter] a(3) by auto
qed

text \<open>
  C22. Misuse is caught. In a reachable state, a CPU outside \<^verbatim>\<open>acquire\<close> and \<^verbatim>\<open>release\<close> that calls \<^verbatim>\<open>acquire\<close> on a
  lock it already holds panics with the message \<open>acquire\<close> instead of spinning for ever, and one that calls
  \<^verbatim>\<open>release\<close> on a lock it does not hold panics with the message \<open>release\<close>, even if another CPU holds the lock.
\<close>

theorem lock_misuse_panics:
  assumes "locks_reach s" and "c < length (lcpus s)" and "lpc s c = Running"
  shows "if l \<in> set (held s c)
    then \<exists>x t. acquire_step c v l Acq_enter s = Ret (Some (Acq_cpu x)) t \<and>
      acquire_step c v l (Acq_cpu x) t = Fault (Panic ''acquire'')
    else \<exists>x t. release_step c l Rel_enter s = Ret (Some (Rel_cpu x)) t \<and>
      release_step c l (Rel_cpu x) t = Fault (Panic ''release'')"
proof -
  note inv = locks_reach_inv[OF assms(1)]
  note I = locks_invD[OF inv assms(2)]
  have cpu: "lk_cpu (locks s l) = Some c \<longleftrightarrow> l \<in> set (held s c)"
    using I(4)[of l] assms(3) by (simp add: recorded_def)
  have lck: "l \<in> set (held s c) \<Longrightarrow> locked (locks s l) \<noteq> 0" using I(3)[of l] by (simp add: owns_def)
  have n: "lc_ncli (lcpu_at s c) \<ge> 0" using I(2) assms(3) by (simp add: cpu_inv_def)
  show ?thesis
  proof (cases "l \<in> set (held s c)")
    case True
    let ?t = "upd_lcpu c (\<lambda>x. cli_push (cli_push x)) s"
    have "apics_ok ?t" using I(1) by (simp add: apics_ok_upd)
    then have "holding_cpu c l (locked (locks s l)) ?t = Ret True (upd_lcpu c cli_pop ?t)"
      using holding_cpu_run[of ?t c l "locked (locks s l)"] assms(2) n True cpu lck by auto
    then show ?thesis
      using True I(1) assms(2) by (simp add: acquire_step.simps kbind_def pushcli_run holding_locked_run)
  next
    case False
    let ?t = "upd_lcpu c cli_push s"
    have "holding_cpu c l (locked (locks s l)) ?t = Ret False (upd_lcpu c cli_pop ?t)"
      using holding_cpu_run[of ?t c l "locked (locks s l)"] I(1) assms(2) n False cpu by auto
    then show ?thesis
      using False I(1) assms(2) by (simp add: release_step.simps kbind_def holding_locked_run)
  qed
qed

theorem lock_misuse_panics_witness:
  "\<exists>s x t. locks_reach s \<and> held s 0 = [0] \<and> acquire_step 0 0 0 Acq_enter s = Ret (Some (Acq_cpu x)) t \<and>
    acquire_step 0 0 0 (Acq_cpu x) t = Fault (Panic ''acquire'')"
proof -
  obtain s where s: "locks_reach s" "length (lcpus s) = 2" "lpc s 0 = Running" "held s 0 = [0]"
    using lock_example by blast
  then show ?thesis using lock_misuse_panics[of s 0 0 0] by auto
qed

text \<open>
  C23. \<^verbatim>\<open>pushcli\<close> and \<^verbatim>\<open>popcli\<close> nest. On a CPU with \<^verbatim>\<open>ncli\<close> zero, \<open>n\<close> calls of \<^verbatim>\<open>pushcli\<close> followed by \<open>m \<le> n\<close> calls
  of \<^verbatim>\<open>popcli\<close> return; interrupts are then as they were before if \<open>m = n\<close>, and off otherwise, and one more
  \<^verbatim>\<open>popcli\<close> after the last panics.
\<close>

theorem cli_nesting:
  fixes s :: "'z lmach_scheme"
  assumes "apics_ok s" and "c < length (lcpus s)" and "lc_ncli (lcpu_at s c) = 0" and "0 < n" and "m \<le> n"
  shows "ok (kbind (kfor [0..<n] (\<lambda>_. pushcli c)) (\<lambda>_. kfor [0..<m] (\<lambda>_. popcli c))) s (\<lambda>_ t.
      lc_ncli (lcpu_at t c) = int (n - m) \<and> lc_if (lcpu_at t c) = (m = n \<and> lc_if (lcpu_at s c)) \<and>
      (m = n \<longrightarrow> popcli c t = Fault (Panic (if lc_if (lcpu_at s c) then ''popcli - interruptible'' else ''popcli''))))"
proof -
  let ?b = "lc_if (lcpu_at s c)"
  let ?I = "\<lambda>k t. apics_ok t \<and> c < length (lcpus t) \<and> lc_ncli (lcpu_at t c) = int k \<and>
    (if k = 0 then lc_if (lcpu_at t c) = ?b else \<not> lc_if (lcpu_at t c) \<and> lc_intena (lcpu_at t c) = ?b)"
  have push: "ok (kfor [0..<n] (\<lambda>_. pushcli c)) s (\<lambda>_. ?I (length [0..<n]))"
  proof (rule ok_kfor)
    fix k and t :: "'z lmach_scheme"
    assume t: "?I k t"
    show "ok (pushcli c) t (\<lambda>_. ?I (Suc k))"
      using t by (auto simp: ok_def pushcli_run cli_push_def)
  qed (use assms in simp)
  have pop: "ok (kfor [0..<m] (\<lambda>_. popcli c)) t (\<lambda>_. ?I (n - length [0..<m]))" if "?I n t" for t :: "'z lmach_scheme"
  proof (rule ok_kfor)
    fix k and u :: "'z lmach_scheme"
    assume "k < length [0..<m]" and u: "?I (n - k) u"
    then have k: "n - k = Suc (n - Suc k)" using assms(5) by simp
    show "ok (popcli c) u (\<lambda>_. ?I (n - Suc k))"
      using u unfolding k by (auto simp: ok_def popcli_run cli_pop_def)
  qed (use that in simp)
  have fin: "popcli c t = Fault (Panic (if ?b then ''popcli - interruptible'' else ''popcli''))" if "?I 0 t" for t :: "'z lmach_scheme"
    using that by (auto simp: popcli_def kbind_def mycpu_run)
  show ?thesis
    unfolding ok_bind_iff
    by (rule ok_mono[OF push], rule ok_mono[OF pop]) (use assms(5) fin in \<open>auto split: if_splits\<close>)
qed

theorem cli_nesting_witness:
  "ok (kbind (kfor [0..<2] (\<lambda>_. pushcli 0)) (\<lambda>_. kfor [0..<2] (\<lambda>_. popcli 0))) lock_boot (\<lambda>_ t.
     lc_ncli (lcpu_at t 0) = 0 \<and> lc_if (lcpu_at t 0))"
proof -
  have "apics_ok lock_boot" "0 < length (lcpus lock_boot)" "lc_ncli (lcpu_at lock_boot 0) = 0" "lc_if (lcpu_at lock_boot 0)"
    by (simp_all add: lock_boot_def apics_ok_def)
  then show ?thesis using cli_nesting[of lock_boot 0 2 2] by (auto intro: ok_mono)
qed



end
