(* ===== verification/Xv6_Boot.thy ===== *)
theory Xv6_Boot
  imports Xv6_File
begin

text \<open>
  A concrete state of the kernel: the tables as the loader leaves them, all zero, except that the process
  table is given and its first process runs on the only CPU.
\<close>

definition zero_buf :: buf where
  "zero_buf = \<lparr>b_valid = False, b_dirty = False, b_dev = 0, b_blockno = 0, b_lock = initsleeplock, b_refcnt = 0,
     b_data = replicate BSIZE 0\<rparr>"

definition zero_inode :: inode where
  "zero_inode = \<lparr>i_dev = 0, i_inum = 0, i_ref = 0, i_lock = initsleeplock, i_valid = False, i_type = 0, i_major = 0,
     i_minor = 0, i_nlink = 0, i_size = 0, i_addrs = replicate (NDIRECT + 1) 0\<rparr>"

definition zero_pipe :: pipe where
  "zero_pipe = \<lparr>pi_data = replicate PIPESIZE 0, pi_nread = 0, pi_nwrite = 0, pi_readopen = True, pi_writeopen = True\<rparr>"

definition zero_file :: kfile where
  "zero_file = \<lparr>f_type = FD_NONE, f_ref = 0, f_readable = False, f_writable = False, f_pipe = 0, f_ip = 0, f_off = 0\<rparr>"

definition example_kernel :: "proc list \<Rightarrow> fstate" where
  "example_kernel ps = \<lparr>mem = (\<lambda>_. 0), freelist = 0, use_lock = True, kend = 0x80110000, kdata = 0x80108000,
     ptable = ps, nextpid = 3,
     initproc = Some 0, ticks = 0, cpus = [\<lparr>c_apicid = 0, c_esp0 = 0, c_cr3 = 0, c_proc = Some 0\<rparr>],
     thiscpu = 0, kpgdir = 0, forkret_addr = 0, trapret_addr = 0,
     q_sz = replicate 5 0, q_front = replicate 5 0, q_rear = replicate 5 0,
     q_slots = replicate 5 (replicate NPROC None),
     bufs = replicate NBUF zero_buf, lru = [0..<NBUF], disk = (\<lambda>_. replicate BSIZE 0), disksize = of_nat FSSIZE, dwrites = [],
     lg_start = 2, lg_size = 30, lg_outstanding = 0, lg_committing = False, lg_dev = 1, lg_n = 0,
     lg_block = replicate LOGSIZE 0,
     sb = \<lparr>sb_size = 1000, sb_nblocks = 941, sb_ninodes = 200, sb_nlog = 30, sb_logstart = 2, sb_inodestart = 32,
       sb_bmapstart = 58\<rparr>,
     inodes = replicate NINODE zero_inode,
     in_buf = replicate 128 0, in_r = 0, in_w = 0, in_e = 0, uart_out = [], cga_pos = 0, crt = replicate 2000 0,
     pipes = (\<lambda>_. zero_pipe), files = replicate NFILE zero_file\<rparr>"

end
