(* ===== verification/Xv6_Pipe.thy ===== *)
theory Xv6_Pipe
  imports Xv6_Boot
begin

text \<open>
  Pipes (\<^verbatim>\<open>pipe.c\<close>). The ring of a pipe is a bounded first-in first-out buffer; \<^verbatim>\<open>pipewrite\<close> appends to it and
  \<^verbatim>\<open>piperead\<close> takes from its front. The last part is about sleeping: a step relation of processes that
  write, read, close and kill in any order, and when a process can be left asleep.
\<close>

subsection \<open>The ring\<close>

definition pipe_used :: "pipe \<Rightarrow> nat" where
  "pipe_used p = unat (pi_nwrite p - pi_nread p)"

definition pipe_inv :: "pipe \<Rightarrow> bool" where
  "pipe_inv p \<longleftrightarrow> length (pi_data p) = PIPESIZE \<and> pipe_used p \<le> PIPESIZE"

definition pipe_contents :: "pipe \<Rightarrow> uchar list" where
  "pipe_contents p = map (\<lambda>i. pi_data p ! ((unat (pi_nread p) + i) mod PIPESIZE)) [0..<pipe_used p]"

lemma pipe_contents_length [simp]: "length (pipe_contents p) = pipe_used p"
  by (simp add: pipe_contents_def)

lemma pipe_full_used: "pipe_inv p \<Longrightarrow> pipe_full p \<longleftrightarrow> pipe_used p = PIPESIZE"
proof -
  have "pi_nwrite p = pi_nread p + of_nat PIPESIZE \<longleftrightarrow> pi_nwrite p - pi_nread p = of_nat PIPESIZE"
    by (metis add.commute add_diff_cancel_right' diff_add_cancel)
  also have "\<dots> \<longleftrightarrow> pipe_used p = PIPESIZE"
    by (simp add: pipe_used_def PIPESIZE_def word_unat_eq_iff)
  finally show ?thesis by (simp add: pipe_full_def)
qed

lemma pipe_empty_used: "pipe_empty p \<longleftrightarrow> pipe_used p = 0"
  by (auto simp: pipe_empty_def pipe_used_def unat_eq_0)

lemma unat_add_mod_512: "unat (a + 1 :: uint) mod 512 = (unat a + 1) mod 512"
  by (simp add: unat_add_mod mod_mod_cancel)

lemma pipe_put_used:
  assumes "pipe_inv p" and "\<not> pipe_full p"
  shows "pipe_used (pipe_put c p) = Suc (pipe_used p)"
proof -
  have "pipe_used p < PIPESIZE" using assms pipe_full_used[of p] by (simp add: pipe_inv_def)
  then have "unat (pi_nwrite p - pi_nread p) + 1 < 2 ^ 32" by (simp add: pipe_used_def PIPESIZE_def)
  then have "unat ((pi_nwrite p - pi_nread p) + 1) = Suc (unat (pi_nwrite p - pi_nread p))" by (simp add: unat_add_mod)
  moreover have "pi_nwrite p + 1 - pi_nread p = (pi_nwrite p - pi_nread p) + 1" by simp
  moreover have "pipe_used (pipe_put c p) = unat (pi_nwrite p + 1 - pi_nread p)" by (simp add: pipe_used_def pipe_put_def)
  ultimately show ?thesis by (simp only: pipe_used_def)
qed

lemma write_position: "unat (pi_nwrite p) mod 512 = (unat (pi_nread p) + pipe_used p) mod 512"
proof -
  have "pi_nwrite p = pi_nread p + (pi_nwrite p - pi_nread p)" by simp
  then have "unat (pi_nwrite p) = (unat (pi_nread p) + pipe_used p) mod 2 ^ 32"
    unfolding pipe_used_def by (metis unat_add_mod)
  then show ?thesis by (simp add: mod_mod_cancel)
qed

lemma ring_neq:
  assumes "(i::nat) < n" and "n < 512"
  shows "(a + i) mod 512 \<noteq> (a + n) mod 512"
proof
  assume "(a + i) mod 512 = (a + n) mod 512"
  then have "512 dvd (a + n) - (a + i)" using mod_eq_dvd_iff_nat[of "a + i" "a + n" 512] assms(1) by simp
  then show False using assms dvd_imp_le[of 512 "n - i"] by simp
qed

lemma pipe_put_contents:
  assumes inv: "pipe_inv p" and free: "\<not> pipe_full p"
  shows "pipe_inv (pipe_put c p)" and "pipe_contents (pipe_put c p) = pipe_contents p @ [c]"
proof -
  have used: "pipe_used p < 512" "length (pi_data p) = 512"
    using inv free pipe_full_used[OF inv] by (simp_all add: pipe_inv_def PIPESIZE_def)
  then show "pipe_inv (pipe_put c p)"
    using pipe_put_used[OF inv free, of c] by (simp add: pipe_inv_def pipe_put_def PIPESIZE_def)
  let ?d = "(pi_data p)[(unat (pi_nread p) + pipe_used p) mod 512 := c]"
  have "?d ! ((unat (pi_nread p) + i) mod 512) = pi_data p ! ((unat (pi_nread p) + i) mod 512)" if "i < pipe_used p" for i
    using ring_neq[OF that used(1), of "unat (pi_nread p)"] by simp
  moreover have "?d ! ((unat (pi_nread p) + pipe_used p) mod 512) = c" using used by simp
  ultimately show "pipe_contents (pipe_put c p) = pipe_contents p @ [c]"
    unfolding pipe_contents_def pipe_put_used[OF inv free]
    by (simp add: pipe_put_def PIPESIZE_def write_position)
qed

lemma pipe_get_contents:
  assumes inv: "pipe_inv p" and ne: "\<not> pipe_empty p"
  shows "pipe_inv (snd (pipe_get p))" and "pipe_contents p = fst (pipe_get p) # pipe_contents (snd (pipe_get p))"
proof -
  let ?q = "snd (pipe_get p)"
  have d: "pi_nwrite p - pi_nread p \<noteq> 0" using ne by (simp add: pipe_empty_def)
  then have "unat (pi_nwrite p - pi_nread p) = Suc (unat ((pi_nwrite p - pi_nread p) - 1))"
    using unat_minus_one[OF d] unat_gt_0[of "pi_nwrite p - pi_nread p"] by simp
  moreover have "pi_nwrite p - (pi_nread p + 1) = (pi_nwrite p - pi_nread p) - 1" by simp
  moreover have "pipe_used ?q = unat (pi_nwrite p - (pi_nread p + 1))" by (simp add: pipe_used_def pipe_get_def)
  ultimately have u: "pipe_used p = Suc (pipe_used ?q)" by (simp only: pipe_used_def)
  show "pipe_inv ?q" using inv u by (simp add: pipe_inv_def pipe_get_def)
  have "(unat (pi_nread p) + Suc i) mod 512 = (unat (pi_nread p + 1) + i) mod 512" for i
  proof -
    have "(unat (pi_nread p + 1) + i) mod 512 = ((unat (pi_nread p) + 1) mod 512 + i) mod 512"
      by (simp only: unat_add_mod_512[symmetric] mod_add_left_eq)
    then show ?thesis by (simp add: mod_add_left_eq mod_Suc_eq)
  qed
  then show "pipe_contents p = fst (pipe_get p) # pipe_contents ?q"
    unfolding pipe_contents_def u
    by (simp add: pipe_get_def PIPESIZE_def upt_conv_Cons map_Suc_upt[symmetric] comp_def del: upt_Suc)
qed

interpretation pipe_ring: fifo pipe_inv pipe_contents PIPESIZE pipe_full pipe_empty pipe_put pipe_get
proof (unfold_locales, goal_cases)
  case (1 q)
  then show ?case using pipe_full_used[of q] by (auto simp: pipe_inv_def)
next
  case (2 q)
  then show ?case by (simp add: pipe_empty_used pipe_contents_def)
qed (use pipe_put_contents pipe_get_contents in auto)

subsection \<open>Writing and reading\<close>

text \<open>\<open>moved pi q s\<close> is the state \<open>s\<close> with the pipe at \<open>pi\<close> replaced by \<open>q\<close>, whose ends are open as before.\<close>

definition moved :: "uint \<Rightarrow> pipe \<Rightarrow> 'z fstate_scheme \<Rightarrow> 'z fstate_scheme" where
  "moved pi q = upd_pipe pi (\<lambda>_. q)"

definition same_ends :: "pipe \<Rightarrow> pipe \<Rightarrow> bool" where
  "same_ends p q \<longleftrightarrow> pi_readopen q = pi_readopen p \<and> pi_writeopen q = pi_writeopen p"

lemma moved_simps [simp]:
  "pipes (moved pi q s) pi = q" "ptable (moved pi q s) = ptable s" "cpus (moved pi q s) = cpus s"
  "thiscpu (moved pi q s) = thiscpu s" "moved pi q (moved pi r s) = moved pi q s" "moved pi (pipes s pi) s = s"
  by (simp_all add: moved_def upd_pipe_def)

lemma upd_pipe_moved: "upd_pipe pi f s = moved pi (f (pipes s pi)) s"
  by (simp add: moved_def upd_pipe_def)

lemma pipes_wakeup1 [simp]: "pipes (wakeup1 c s) = pipes s"
  by (simp add: wakeup1_def)

definition running :: "nat \<Rightarrow> 'z ptab_scheme \<Rightarrow> bool" where
  "running p s \<longleftrightarrow> c_proc (cpus s ! thiscpu s) = Some p \<and> p < length (ptable s)"

definition killed_at :: "nat \<Rightarrow> 'z ptab_scheme \<Rightarrow> bool" where
  "killed_at p s \<longleftrightarrow> p_killed (proc_at s p) \<noteq> 0"

lemma running_moved [simp]: "running p (moved pi q s) = running p s" "killed_at p (moved pi q s) = killed_at p s"
  by (simp_all add: running_def killed_at_def)

lemma curproc_running: "running p s \<Longrightarrow> curproc s = Ret p s"
  by (simp add: running_def curproc_def myproc_def)

text \<open>What \<open>pipewrite_loop\<close> did with \<open>cs\<close> when it stopped with the pipe \<open>q\<close>: \<open>k\<close> bytes are in it.\<close>

definition put_some :: "uchar list \<Rightarrow> nat \<Rightarrow> pipe \<Rightarrow> pipe \<Rightarrow> bool" where
  "put_some cs k p q \<longleftrightarrow> pipe_inv q \<and> same_ends p q \<and> k \<le> length cs \<and> pipe_contents q = pipe_contents p @ take k cs"

lemma put_some_Cons:
  assumes "pipe_inv p" and "\<not> pipe_full p"
  shows "put_some cs k (pipe_put c p) q \<Longrightarrow> put_some (c # cs) (Suc k) p q"
  using pipe_put_contents[OF assms] by (auto simp: put_some_def same_ends_def pipe_put_def)

lemma pipewrite_loop_spec:
  assumes "pipe_inv (pipes s pi)" and "running p s"
  shows "\<exists>k q. put_some cs k (pipes s pi) q \<and>
    (if k = length cs then pipewrite_loop cs pi s = Ret True (moved pi q s)
     else pipe_full q \<and>
       (if \<not> pi_readopen q \<or> killed_at p s then pipewrite_loop cs pi s = Ret False (moved pi q s)
        else pipewrite_loop cs pi s = Sleep (Chan_nwrite pi) (wakeup1 (Some (Chan_nread pi)) (moved pi q s))))"
  using assms
proof (induction cs arbitrary: s)
  case Nil
  then show ?case by (intro exI[of _ 0] exI[of _ "pipes s pi"]) (simp add: put_some_def same_ends_def)
next
  case (Cons c cs)
  show ?case
  proof (cases "pipe_full (pipes s pi)")
    case True
    then show ?thesis
      using Cons.prems
      by (intro exI[of _ 0] exI[of _ "pipes s pi"])
        (auto simp: put_some_def same_ends_def kbind_def curproc_running wakeup_def killed_at_def)
  next
    case False
    let ?t = "moved pi (pipe_put c (pipes s pi)) s"
    have "pipe_inv (pipes ?t pi)" using pipe_put_contents[OF Cons.prems(1) False] by simp
    then obtain k q where kq: "put_some cs k (pipes ?t pi) q"
      "if k = length cs then pipewrite_loop cs pi ?t = Ret True (moved pi q s)
       else pipe_full q \<and>
         (if \<not> pi_readopen q \<or> killed_at p s then pipewrite_loop cs pi ?t = Ret False (moved pi q s)
          else pipewrite_loop cs pi ?t = Sleep (Chan_nwrite pi) (wakeup1 (Some (Chan_nread pi)) (moved pi q s)))"
      using Cons.IH[of ?t] Cons.prems(2) by auto
    then show ?thesis
      using put_some_Cons[OF Cons.prems(1) False, of cs k c q] False
      by (intro exI[of _ "Suc k"] exI[of _ q]) (simp add: upd_pipe_moved)
  qed
qed

lemma piperead_loop_spec:
  assumes "pipe_inv (pipes s pi)"
  shows "\<exists>cs q. piperead_loop n pi s = Ret cs (moved pi q s) \<and> pipe_inv q \<and> same_ends (pipes s pi) q \<and>
    pipe_contents (pipes s pi) = cs @ pipe_contents q \<and> length cs = min n (pipe_used (pipes s pi))"
  using assms
proof (induction n arbitrary: s)
  case 0
  then show ?case by (intro exI[of _ "[]"] exI[of _ "pipes s pi"]) (simp add: same_ends_def)
next
  case (Suc n)
  show ?case
  proof (cases "pipe_empty (pipes s pi)")
    case True
    then show ?thesis using Suc.prems
      by (intro exI[of _ "[]"] exI[of _ "pipes s pi"]) (simp add: same_ends_def pipe_empty_used)
  next
    case False
    obtain c p' where g: "pipe_get (pipes s pi) = (c, p')" by (cases "pipe_get (pipes s pi)")
    have p': "pipe_inv p'" "pipe_contents (pipes s pi) = c # pipe_contents p'"
      using pipe_get_contents[OF Suc.prems False] g by simp_all
    have used: "pipe_used (pipes s pi) = Suc (pipe_used p')" using arg_cong[OF p'(2), of length] by simp
    have ends: "same_ends (pipes s pi) p'" using g by (auto simp: pipe_get_def same_ends_def)
    obtain cs q where q: "piperead_loop n pi (moved pi p' s) = Ret cs (moved pi q s)" "pipe_inv q" "same_ends p' q"
      "pipe_contents p' = cs @ pipe_contents q" "length cs = min n (pipe_used p')"
      using Suc.IH[of "moved pi p' s"] p'(1) by auto
    then show ?thesis
      using False g p' used ends
      by (intro exI[of _ "c # cs"] exI[of _ q]) (simp add: moved_def[symmetric] kbind_def same_ends_def)
  qed
qed

lemma pipewrite_run:
  assumes "pipe_inv (pipes s pi)" and "running p s"
  shows "\<exists>k q. put_some src k (pipes s pi) q \<and>
    (if k = length src then pipewrite pi src s = Ret (int (length src)) (wakeup1 (Some (Chan_nread pi)) (moved pi q s))
     else pipe_full q \<and>
       (if \<not> pi_readopen q \<or> killed_at p s then pipewrite pi src s = Ret (- 1) (moved pi q s)
        else pipewrite pi src s = Sleep (Chan_nwrite pi) (wakeup1 (Some (Chan_nread pi)) (moved pi q s))))"
proof -
  obtain k q where kq: "put_some src k (pipes s pi) q"
    "if k = length src then pipewrite_loop src pi s = Ret True (moved pi q s)
     else pipe_full q \<and>
       (if \<not> pi_readopen q \<or> killed_at p s then pipewrite_loop src pi s = Ret False (moved pi q s)
        else pipewrite_loop src pi s = Sleep (Chan_nwrite pi) (wakeup1 (Some (Chan_nread pi)) (moved pi q s)))"
    using pipewrite_loop_spec[OF assms] by blast
  then show ?thesis
    by (intro exI[of _ k] exI[of _ q]) (auto simp: pipewrite_def kbind_def wakeup_def split: if_splits)
qed

lemma piperead_run:
  assumes "pipe_inv (pipes s pi)" and "running p s"
  shows "if pipe_empty (pipes s pi) \<and> pi_writeopen (pipes s pi)
    then piperead pi n s = (if killed_at p s then Ret (- 1, []) s else Sleep (Chan_nread pi) s)
    else \<exists>cs q. piperead pi n s = Ret (int (length cs), cs) (wakeup1 (Some (Chan_nwrite pi)) (moved pi q s)) \<and>
      pipe_inv q \<and> same_ends (pipes s pi) q \<and> pipe_contents (pipes s pi) = cs @ pipe_contents q \<and>
      length cs = min (nat n) (length (pipe_contents (pipes s pi)))"
proof (cases "pipe_empty (pipes s pi) \<and> pi_writeopen (pipes s pi)")
  case True
  then show ?thesis using assms(2) by (simp add: piperead_def kbind_def curproc_running killed_at_def)
next
  case False
  obtain cs q where r: "piperead_loop (nat n) pi s = Ret cs (moved pi q s)" and q: "pipe_inv q" "same_ends (pipes s pi) q"
    "pipe_contents (pipes s pi) = cs @ pipe_contents q" "length cs = min (nat n) (pipe_used (pipes s pi))"
    using piperead_loop_spec[OF assms(1), of "nat n"] by blast
  have "piperead pi n s = Ret (int (length cs), cs) (wakeup1 (Some (Chan_nwrite pi)) (moved pi q s))"
    unfolding piperead_def if_not_P[OF False] using r by (simp add: kbind_def wakeup_def)
  then show ?thesis unfolding if_not_P[OF False] pipe_contents_length using q by blast
qed

subsection \<open>Sleeping and waking\<close>

definition waits :: "chan \<Rightarrow> nat \<Rightarrow> 'z ptab_scheme \<Rightarrow> bool" where
  "waits c i s \<longleftrightarrow> i < length (ptable s) \<and> p_state (proc_at s i) = SLEEPING \<and> p_chan (proc_at s i) = Some c"

text \<open>What \<^verbatim>\<open>sleep\<close> does to the process before it calls \<^verbatim>\<open>sched\<close>.\<close>

definition fall_asleep :: "nat \<Rightarrow> chan \<Rightarrow> 'z ptab_scheme \<Rightarrow> 'z ptab_scheme" where
  "fall_asleep p c = upd_proc p (\<lambda>pr. pr\<lparr>p_chan := Some c, p_state := SLEEPING\<rparr>)"

text \<open>
  Steps on the pipe at \<open>pi\<close>, by any process: a read, a write that does not fail, closing an end and
  \<^verbatim>\<open>kill\<close>. Everything else the kernel does (a change of process, other pipes, memory) is \<open>other\<close>: it does not
  touch this pipe and lets no process fall asleep on it.
\<close>

inductive pipe_step :: "uint \<Rightarrow> 'z fstate_scheme \<Rightarrow> 'z fstate_scheme \<Rightarrow> bool" for pi where
  writes: "running p s \<Longrightarrow> pipewrite pi src s = Ret r t \<Longrightarrow> r \<noteq> - 1 \<Longrightarrow> pipe_step pi s t"
| write_sleep: "running p s \<Longrightarrow> pipewrite pi src s = Sleep c t \<Longrightarrow> pipe_step pi s (fall_asleep p c t)"
| reads: "running p s \<Longrightarrow> piperead pi n s = Ret r t \<Longrightarrow> pipe_step pi s t"
| read_sleep: "running p s \<Longrightarrow> piperead pi n s = Sleep c t \<Longrightarrow> pipe_step pi s (fall_asleep p c t)"
| closes: "pipeclose pi w s = Ret () t \<Longrightarrow> pipe_step pi s t"
| kills: "kill pid s = Ret r t \<Longrightarrow> pipe_step pi s t"
| other: "pipes t pi = pipes s pi \<Longrightarrow>
    (\<And>i c. c \<in> {Chan_nread pi, Chan_nwrite pi} \<Longrightarrow> waits c i t \<Longrightarrow> waits c i s \<and> killed_at i t = killed_at i s) \<Longrightarrow>
    pipe_step pi s t"

text \<open>No process sleeps on the pipe that could go on.\<close>

definition may_wait :: "uint \<Rightarrow> nat \<Rightarrow> 'z fstate_scheme \<Rightarrow> bool" where
  "may_wait pi i s \<longleftrightarrow>
     (waits (Chan_nread pi) i s \<longrightarrow> pipe_empty (pipes s pi) \<and> pi_writeopen (pipes s pi) \<and> \<not> killed_at i s) \<and>
     (waits (Chan_nwrite pi) i s \<longrightarrow> pipe_full (pipes s pi) \<and> pi_readopen (pipes s pi) \<and> \<not> killed_at i s)"

definition pipe_awake :: "uint \<Rightarrow> 'z fstate_scheme \<Rightarrow> bool" where
  "pipe_awake pi s \<longleftrightarrow> pipe_inv (pipes s pi) \<and> (\<forall>i. may_wait pi i s)"

lemma waits_wakeup1 [simp]: "waits c i (wakeup1 (Some d) s) \<longleftrightarrow> waits c i s \<and> c \<noteq> d"
  by (auto simp: waits_def wakeup1_def split: if_splits)

lemma killed_wakeup1 [simp]: "i < length (ptable s) \<Longrightarrow> killed_at i (wakeup1 c s) = killed_at i s"
  by (simp add: killed_at_def wakeup1_def)

lemma waits_moved [simp]: "waits c i (moved pi q s) = waits c i s"
  by (simp add: waits_def)

lemma waits_length: "waits c i s \<Longrightarrow> i < length (ptable s)"
  by (simp add: waits_def)

lemma fall_asleep_frame [simp]: "pipes (fall_asleep p c s) = pipes s" "killed_at i (fall_asleep p c s) = killed_at i s"
  by (simp add: fall_asleep_def upd_proc_def)
    (cases "i = p"; cases "p < length (ptable s)"; simp add: fall_asleep_def upd_proc_def killed_at_def list_update_beyond)

lemma waits_asleep: "waits d i (fall_asleep p c s) \<longleftrightarrow>
    (if i = p then p < length (ptable s) \<and> d = c else waits d i s)"
  by (auto simp: waits_def fall_asleep_def upd_proc_def)

lemma may_waitI:
  assumes "\<And>i. waits (Chan_nread pi) i t \<Longrightarrow> pipe_empty (pipes t pi) \<and> pi_writeopen (pipes t pi) \<and> \<not> killed_at i t"
    and "\<And>i. waits (Chan_nwrite pi) i t \<Longrightarrow> pipe_full (pipes t pi) \<and> pi_readopen (pipes t pi) \<and> \<not> killed_at i t"
    and "pipe_inv (pipes t pi)"
  shows "pipe_awake pi t"
  using assms by (simp add: pipe_awake_def may_wait_def)

lemma pipe_awakeD:
  assumes "pipe_awake pi s"
  shows "waits (Chan_nread pi) i s \<Longrightarrow> pipe_empty (pipes s pi) \<and> pi_writeopen (pipes s pi) \<and> \<not> killed_at i s"
    and "waits (Chan_nwrite pi) i s \<Longrightarrow> pipe_full (pipes s pi) \<and> pi_readopen (pipes s pi) \<and> \<not> killed_at i s"
    and "pipe_inv (pipes s pi)"
  using assms by (simp_all add: pipe_awake_def may_wait_def)

lemma awake_write:
  assumes "pipe_awake pi s" and "put_some src k (pipes s pi) q" and "k = length src \<or> pipe_full q"
  shows "pipe_awake pi (wakeup1 (Some (Chan_nread pi)) (moved pi q s))"
proof (rule may_waitI)
  fix i
  assume w: "waits (Chan_nwrite pi) i (wakeup1 (Some (Chan_nread pi)) (moved pi q s))"
  then have f: "pipe_full (pipes s pi)" "pi_readopen (pipes s pi)" "\<not> killed_at i s" and i: "i < length (ptable s)"
    using pipe_awakeD(2)[OF assms(1)] waits_length by fastforce+
  have "pipe_used (pipes s pi) = PIPESIZE" using f(1) pipe_full_used[OF pipe_awakeD(3)[OF assms(1)]] by simp
  moreover have "length (pipe_contents q) = pipe_used (pipes s pi) + k"
    using assms(2) unfolding put_some_def by (simp del: pipe_contents_length) simp
  moreover have "pipe_inv q" "same_ends (pipes s pi) q" using assms(2) by (simp_all add: put_some_def)
  ultimately have "pipe_full q" using pipe_full_used[of q] by (simp add: pipe_inv_def)
  then show "pipe_full (pipes (wakeup1 (Some (Chan_nread pi)) (moved pi q s)) pi) \<and>
      pi_readopen (pipes (wakeup1 (Some (Chan_nread pi)) (moved pi q s)) pi) \<and>
      \<not> killed_at i (wakeup1 (Some (Chan_nread pi)) (moved pi q s))"
    using f i \<open>same_ends (pipes s pi) q\<close> by (simp add: same_ends_def)
qed (use assms(2) in \<open>simp_all add: put_some_def\<close>)

lemma awake_sleep:
  assumes "pipe_awake pi s" and "\<not> killed_at p s"
    and "c = Chan_nread pi \<and> pipe_empty (pipes s pi) \<and> pi_writeopen (pipes s pi) \<or>
      c = Chan_nwrite pi \<and> pipe_full (pipes s pi) \<and> pi_readopen (pipes s pi)"
  shows "pipe_awake pi (fall_asleep p c s)"
  by (rule may_waitI) (use assms pipe_awakeD[OF assms(1)] in \<open>auto simp: waits_asleep split: if_splits\<close>)

lemma awake_read:
  assumes "pipe_awake pi s" and "pipe_inv q" and "same_ends (pipes s pi) q" and "pipe_contents (pipes s pi) = cs @ pipe_contents q"
  shows "pipe_awake pi (wakeup1 (Some (Chan_nwrite pi)) (moved pi q s))"
proof (rule may_waitI)
  fix i
  assume w: "waits (Chan_nread pi) i (wakeup1 (Some (Chan_nwrite pi)) (moved pi q s))"
  then have f: "pipe_empty (pipes s pi)" "pi_writeopen (pipes s pi)" "\<not> killed_at i s" and i: "i < length (ptable s)"
    using pipe_awakeD(1)[OF assms(1)] waits_length by fastforce+
  then have "pipe_used q = 0" using arg_cong[OF assms(4), of length] by (simp add: pipe_empty_used)
  then show "pipe_empty (pipes (wakeup1 (Some (Chan_nwrite pi)) (moved pi q s)) pi) \<and>
      pi_writeopen (pipes (wakeup1 (Some (Chan_nwrite pi)) (moved pi q s)) pi) \<and>
      \<not> killed_at i (wakeup1 (Some (Chan_nwrite pi)) (moved pi q s))"
    using f i assms(3) by (simp add: pipe_empty_used same_ends_def)
qed (use assms(2) in simp_all)

lemma awake_frame:
  "pipe_awake pi s \<Longrightarrow> pipes t = pipes s \<Longrightarrow> ptable t = ptable s \<Longrightarrow> pipe_awake pi t"
  by (simp add: pipe_awake_def may_wait_def waits_def killed_at_def)

lemma awake_close:
  assumes awake: "pipe_awake pi s" and close: "pipeclose pi w s = Ret () t"
  shows "pipe_awake pi t"
proof -
  let ?p = "pipes s pi"
  let ?u = "if w then wakeup1 (Some (Chan_nread pi)) (moved pi (?p\<lparr>pi_writeopen := False\<rparr>) s)
    else wakeup1 (Some (Chan_nwrite pi)) (moved pi (?p\<lparr>pi_readopen := False\<rparr>) s)"
  note aw = pipe_awakeD[OF awake]
  have "pipe_awake pi ?u"
  proof (rule may_waitI)
    show "pipe_inv (pipes ?u pi)" using aw(3) by (simp add: pipe_inv_def pipe_used_def)
    fix i
    show "waits (Chan_nread pi) i ?u \<Longrightarrow> pipe_empty (pipes ?u pi) \<and> pi_writeopen (pipes ?u pi) \<and> \<not> killed_at i ?u"
      using aw(1)[of i] waits_length[of _ i s] by (auto simp: pipe_empty_def split: if_splits)
    show "waits (Chan_nwrite pi) i ?u \<Longrightarrow> pipe_full (pipes ?u pi) \<and> pi_readopen (pipes ?u pi) \<and> \<not> killed_at i ?u"
      using aw(2)[of i] waits_length[of _ i s] by (auto simp: pipe_full_def split: if_splits)
  qed
  moreover have "t = ?u \<or> kfree pi ?u = Ret () t"
    using close by (auto simp: pipeclose_def kbind_def wakeup_def upd_pipe_moved split: if_splits)
  then have "pipes t = pipes ?u" "ptable t = ptable ?u"
    by (auto simp: kfree_def Let_def split: if_splits)
  ultimately show ?thesis by (rule awake_frame)
qed

lemma awake_kill:
  assumes awake: "pipe_awake pi s" and kill: "kill pid s = Ret r t"
  shows "pipe_awake pi t"
proof (cases "find_proc (\<lambda>p. p_pid p = pid) s")
  case None
  then show ?thesis using assms by (simp add: kill_def)
next
  case (Some j)
  let ?f = "\<lambda>p. p\<lparr>p_killed := 1, p_state := (if p_state p = SLEEPING then RUNNABLE else p_state p)\<rparr>"
  have t: "t = upd_proc j ?f s" using kill Some by (simp add: kill_def)
  have w: "waits c i t \<Longrightarrow> i \<noteq> j \<and> waits c i s \<and> killed_at i t = killed_at i s" for c i
    unfolding t by (cases "i = j") (auto simp: waits_def upd_proc_def killed_at_def split: if_splits)
  have p: "pipes t = pipes s" by (simp add: t upd_proc_def)
  show ?thesis by (rule may_waitI) (use w pipe_awakeD[OF awake] p in auto)
qed

lemma pipe_step_awake:
  assumes "pipe_step pi s t" and awake: "pipe_awake pi s"
  shows "pipe_awake pi t"
  using assms(1)
proof (cases rule: pipe_step.cases)
  case (writes p src r)
  obtain k q where "put_some src k (pipes s pi) q"
    "if k = length src then pipewrite pi src s = Ret (int (length src)) (wakeup1 (Some (Chan_nread pi)) (moved pi q s))
     else pipe_full q \<and>
       (if \<not> pi_readopen q \<or> killed_at p s then pipewrite pi src s = Ret (- 1) (moved pi q s)
        else pipewrite pi src s = Sleep (Chan_nwrite pi) (wakeup1 (Some (Chan_nread pi)) (moved pi q s)))"
    using pipewrite_run[OF pipe_awakeD(3)[OF awake] writes(1)] by blast
  then show ?thesis using writes(2,3) awake_write[OF awake] by (auto split: if_splits)
next
  case (write_sleep p src c u)
  obtain k q where kq: "put_some src k (pipes s pi) q"
    "if k = length src then pipewrite pi src s = Ret (int (length src)) (wakeup1 (Some (Chan_nread pi)) (moved pi q s))
     else pipe_full q \<and>
       (if \<not> pi_readopen q \<or> killed_at p s then pipewrite pi src s = Ret (- 1) (moved pi q s)
        else pipewrite pi src s = Sleep (Chan_nwrite pi) (wakeup1 (Some (Chan_nread pi)) (moved pi q s)))"
    using pipewrite_run[OF pipe_awakeD(3)[OF awake] write_sleep(2)] by blast
  then have u: "c = Chan_nwrite pi" "u = wakeup1 (Some (Chan_nread pi)) (moved pi q s)" "pipe_full q" "pi_readopen q" "\<not> killed_at p s"
    using write_sleep(3) by (auto split: if_splits)
  have "pipe_awake pi u" unfolding u(2) by (rule awake_write[OF awake kq(1)]) (use u in simp)
  moreover have "\<not> killed_at p u" using u write_sleep(2) by (simp add: running_def)
  ultimately show ?thesis unfolding write_sleep(1) using awake_sleep[of pi u p c] u by simp
next
  case (reads p n r)
  show ?thesis
    using piperead_run[OF pipe_awakeD(3)[OF awake] reads(1), of n] reads(2) awake awake_read[OF awake]
    by (auto split: if_splits)
next
  case (read_sleep p n c u)
  then have "u = s" "c = Chan_nread pi" "pipe_empty (pipes s pi)" "pi_writeopen (pipes s pi)" "\<not> killed_at p s"
    using piperead_run[OF pipe_awakeD(3)[OF awake] read_sleep(2), of n] by (auto split: if_splits)
  then show ?thesis unfolding read_sleep(1) using awake_sleep[OF awake] by simp
next
  case (closes w)
  then show ?thesis by (rule awake_close[OF awake])
next
  case (kills pid r)
  then show ?thesis by (rule awake_kill[OF awake])
next
  case other
  then show ?thesis using pipe_awakeD[OF awake] by (intro may_waitI) auto
qed

subsection \<open>Properties of pipes\<close>

definition example_pipe :: fstate where
  "example_pipe = example_kernel [zero_proc\<lparr>p_pid := 1, p_state := RUNNING, p_killed := 1\<rparr>,
     zero_proc\<lparr>p_pid := 2, p_state := SLEEPING, p_chan := Some (Chan_nread 0x80200000)\<rparr>]"

lemma example_pipe_facts:
  "pipes example_pipe pi = zero_pipe" "pipe_inv zero_pipe" "pipe_contents zero_pipe = []" "pipe_used zero_pipe = 0"
  "running 0 example_pipe" "killed_at 0 example_pipe" "waits (Chan_nread 0x80200000) 1 example_pipe"
  by (simp_all add: example_pipe_def example_kernel_def zero_pipe_def pipe_inv_def pipe_contents_def pipe_used_def
      running_def killed_at_def waits_def)

text \<open>
  C17. The ring of a pipe, with its counters that wrap at 32 bits and its index modulo 512, is a bounded queue:
  for every sequence of single-byte puts and gets, the bytes that come out followed by those left in the
  ring are the bytes that were in it followed by those that were put, in order.
\<close>

theorem pipe_is_fifo:
  assumes "pipe_inv p"
  shows "case buf_run pipe_full pipe_empty pipe_put pipe_get ops p of (out, q) \<Rightarrow>
    pipe_inv q \<and> out @ pipe_contents q = pipe_contents p @ puts PIPESIZE ops (length (pipe_contents p))"
  using pipe_ring.run_refines_list[OF assms, of ops] list_run_order[of PIPESIZE ops "pipe_contents p"] by (auto split: prod.splits dest: list_run_order)

theorem pipe_is_fifo_witness:
  "pipe_inv zero_pipe \<and> (case buf_run pipe_full pipe_empty pipe_put pipe_get [Put 1, Put 2, Get] zero_pipe of (out, q) \<Rightarrow>
    out @ pipe_contents q = [1, 2])"
  using pipe_is_fifo[OF example_pipe_facts(2), of "[Put 1, Put 2, Get]"] example_pipe_facts(2,3)
  by (auto simp: PIPESIZE_def)

text \<open>
  C16. What \<^verbatim>\<open>pipewrite\<close> and \<^verbatim>\<open>piperead\<close> do, called by process \<open>p\<close>. \<^verbatim>\<open>pipewrite\<close> appends a prefix of the bytes to the
  pipe. If that is all of them it wakes the readers and returns their number. Otherwise the pipe is
  full: the call fails if no reader is left or the caller was killed, and else it wakes the readers and
  sleeps. \<^verbatim>\<open>piperead\<close> on an empty pipe with a writer fails if the caller was killed and else sleeps; in
  every other case it returns the first \<open>n\<close> bytes of the pipe, or all if there are fewer, and wakes the
  writers.
\<close>

theorem pipe_transfer:
  assumes "pipe_inv (pipes s pi)" and "running p s"
  shows "(\<exists>k q. pipe_inv q \<and> k \<le> length src \<and> pipe_contents q = pipe_contents (pipes s pi) @ take k src \<and>
      pipewrite pi src s =
        (if k = length src then Ret (int (length src)) (wakeup1 (Some (Chan_nread pi)) (moved pi q s))
         else if \<not> pi_readopen q \<or> killed_at p s then Ret (- 1) (moved pi q s)
         else Sleep (Chan_nwrite pi) (wakeup1 (Some (Chan_nread pi)) (moved pi q s))) \<and>
      (k < length src \<longrightarrow> length (pipe_contents q) = PIPESIZE)) \<and>
    (if pipe_contents (pipes s pi) = [] \<and> pi_writeopen (pipes s pi)
     then piperead pi n s = (if killed_at p s then Ret (- 1, []) s else Sleep (Chan_nread pi) s)
     else \<exists>cs q. piperead pi n s = Ret (int (length cs), cs) (wakeup1 (Some (Chan_nwrite pi)) (moved pi q s)) \<and>
       pipe_inv q \<and> pipe_contents (pipes s pi) = cs @ pipe_contents q \<and>
       length cs = min (nat n) (length (pipe_contents (pipes s pi))))"
proof -
  obtain k q where kq: "put_some src k (pipes s pi) q"
    "if k = length src then pipewrite pi src s = Ret (int (length src)) (wakeup1 (Some (Chan_nread pi)) (moved pi q s))
     else pipe_full q \<and>
       (if \<not> pi_readopen q \<or> killed_at p s then pipewrite pi src s = Ret (- 1) (moved pi q s)
        else pipewrite pi src s = Sleep (Chan_nwrite pi) (wakeup1 (Some (Chan_nread pi)) (moved pi q s)))"
    using pipewrite_run[OF assms] by blast
  have e: "pipe_contents p = [] \<longleftrightarrow> pipe_empty p" for p by (simp add: pipe_empty_used pipe_contents_def)
  have "k < length src \<longrightarrow> length (pipe_contents q) = PIPESIZE"
    unfolding pipe_contents_length using kq pipe_full_used[of q] by (auto simp: put_some_def)
  moreover have "pipewrite pi src s =
        (if k = length src then Ret (int (length src)) (wakeup1 (Some (Chan_nread pi)) (moved pi q s))
         else if \<not> pi_readopen q \<or> killed_at p s then Ret (- 1) (moved pi q s)
         else Sleep (Chan_nwrite pi) (wakeup1 (Some (Chan_nread pi)) (moved pi q s)))"
    using kq(2) by (simp split: if_splits)
  ultimately have W: "\<exists>k q. pipe_inv q \<and> k \<le> length src \<and> pipe_contents q = pipe_contents (pipes s pi) @ take k src \<and>
      pipewrite pi src s =
        (if k = length src then Ret (int (length src)) (wakeup1 (Some (Chan_nread pi)) (moved pi q s))
         else if \<not> pi_readopen q \<or> killed_at p s then Ret (- 1) (moved pi q s)
         else Sleep (Chan_nwrite pi) (wakeup1 (Some (Chan_nread pi)) (moved pi q s))) \<and>
      (k < length src \<longrightarrow> length (pipe_contents q) = PIPESIZE)"
    using kq(1) unfolding put_some_def by blast
  show ?thesis
  proof (cases "pipe_empty (pipes s pi) \<and> pi_writeopen (pipes s pi)")
    case True
    then show ?thesis unfolding e using W piperead_run[OF assms, of n] by (simp only: if_True) simp
  next
    case False
    then show ?thesis unfolding e using W piperead_run[OF assms, of n] unfolding if_not_P[OF False] by blast
  qed
qed

theorem pipe_transfer_witness:
  "\<exists>k q. k \<le> 1 \<and> pipe_contents q = take k [7] \<and> pipewrite 0x80200000 [7] example_pipe =
     (if k = 1 then Ret 1 (wakeup1 (Some (Chan_nread 0x80200000)) (moved 0x80200000 q example_pipe))
      else Ret (- 1) (moved 0x80200000 q example_pipe))"
proof -
  have "pipe_inv (pipes example_pipe 0x80200000)" by (simp add: example_pipe_facts)
  from pipe_transfer[OF this example_pipe_facts(5), of "[7]" 1] show ?thesis
    by (auto simp: example_pipe_facts split: if_splits)
qed

text \<open>
  C14. No wakeup on a pipe is lost. From a state in which no process sleeps on the pipe without reason, after
  any number of reads, writes that do not fail, closes, kills and other steps, a process that sleeps in
  \<^verbatim>\<open>piperead\<close> finds the pipe empty with its write end open, one that sleeps in \<^verbatim>\<open>pipewrite\<close> finds it full with
  its read end open, and neither was killed.
\<close>

theorem pipe_no_lost_wakeup:
  assumes "pipe_awake pi s" and "(pipe_step pi)\<^sup>*\<^sup>* s t"
  shows "(waits (Chan_nread pi) i t \<longrightarrow> pipe_contents (pipes t pi) = [] \<and> pi_writeopen (pipes t pi) \<and> \<not> killed_at i t) \<and>
    (waits (Chan_nwrite pi) i t \<longrightarrow>
       length (pipe_contents (pipes t pi)) = PIPESIZE \<and> pi_readopen (pipes t pi) \<and> \<not> killed_at i t)"
proof -
  have aw: "pipe_awake pi t" using assms(2,1) by (induction rule: rtranclp_induct) (auto intro: pipe_step_awake)
  then show ?thesis
    using pipe_awakeD(1)[OF aw, of i] pipe_awakeD(2)[OF aw, of i] pipe_awakeD(3)[OF aw] pipe_full_used[of "pipes t pi"]
    by (auto simp: pipe_empty_used pipe_contents_def)
qed

theorem pipe_no_lost_wakeup_witness:
  "\<exists>t. (pipe_step 0x80200000)\<^sup>*\<^sup>* example_pipe t \<and> pipe_contents (pipes t 0x80200000) = [7] \<and> \<not> waits (Chan_nread 0x80200000) 1 t"
proof -
  let ?pi = "0x80200000 :: uint" and ?s = example_pipe
  have aw: "pipe_awake ?pi ?s"
  proof (rule may_waitI)
    fix i
    show "waits (Chan_nread ?pi) i ?s \<Longrightarrow> pipe_empty (pipes ?s ?pi) \<and> pi_writeopen (pipes ?s ?pi) \<and> \<not> killed_at i ?s"
      by (auto simp: example_pipe_def example_kernel_def waits_def zero_pipe_def pipe_empty_def killed_at_def zero_proc_def
          less_Suc_eq numeral_2_eq_2)
    show "waits (Chan_nwrite ?pi) i ?s \<Longrightarrow> pipe_full (pipes ?s ?pi) \<and> pi_readopen (pipes ?s ?pi) \<and> \<not> killed_at i ?s"
      by (auto simp: example_pipe_def example_kernel_def waits_def zero_proc_def less_Suc_eq numeral_2_eq_2)
  qed (simp add: example_pipe_facts)
  let ?q = "pipe_put 7 zero_pipe"
  let ?t = "wakeup1 (Some (Chan_nread ?pi)) (moved ?pi ?q ?s)"
  have nf: "\<not> pipe_full zero_pipe" using pipe_full_used[OF example_pipe_facts(2)] by (simp add: example_pipe_facts PIPESIZE_def)
  then have "pipewrite ?pi [7] ?s = Ret 1 ?t"
    by (simp add: pipewrite_def kbind_def wakeup_def example_pipe_facts upd_pipe_moved)
  then have "pipe_step ?pi ?s ?t" by (rule pipe_step.writes[OF example_pipe_facts(5)]) simp
  then have st: "(pipe_step ?pi)\<^sup>*\<^sup>* ?s ?t" by blast
  have c: "pipe_contents (pipes ?t ?pi) = [7]" using pipe_put_contents[OF example_pipe_facts(2) nf] by (simp add: example_pipe_facts)
  then show ?thesis using pipe_no_lost_wakeup[OF aw st, of 1] st by (intro exI[of _ ?t]) auto
qed

text \<open>
  C27. A failing write can lose a wakeup. When a killed process writes more than fits, \<^verbatim>\<open>pipewrite\<close> fills the pipe
  and returns \<open>-1\<close> without waking the readers: a process that slept in \<^verbatim>\<open>piperead\<close> goes on sleeping though the
  pipe is now full.
\<close>

theorem killed_writer_leaves_reader_asleep:
  assumes "pipe_inv (pipes s pi)" and "running p s" and "killed_at p s" and "waits (Chan_nread pi) i s"
    and "PIPESIZE < length (pipe_contents (pipes s pi)) + length src"
  shows "\<exists>t. pipewrite pi src s = Ret (- 1) t \<and> waits (Chan_nread pi) i t \<and>
    length (pipe_contents (pipes t pi)) = PIPESIZE"
proof -
  obtain k q where kq: "put_some src k (pipes s pi) q"
    "if k = length src then pipewrite pi src s = Ret (int (length src)) (wakeup1 (Some (Chan_nread pi)) (moved pi q s))
     else pipe_full q \<and>
       (if \<not> pi_readopen q \<or> killed_at p s then pipewrite pi src s = Ret (- 1) (moved pi q s)
        else pipewrite pi src s = Sleep (Chan_nwrite pi) (wakeup1 (Some (Chan_nread pi)) (moved pi q s)))"
    using pipewrite_run[OF assms(1,2)] by blast
  have "pipe_used q = length (pipe_contents (pipes s pi) @ take k src)"
    using kq(1) unfolding put_some_def by (metis pipe_contents_length)
  then have k: "k \<noteq> length src" using assms(5) kq(1) by (auto simp: put_some_def pipe_inv_def)
  then have "length (pipe_contents q) = PIPESIZE"
    unfolding pipe_contents_length using kq pipe_full_used[of q] by (simp add: put_some_def)
  then show ?thesis using kq(2) k assms(3,4) by (intro exI[of _ "moved pi q s"]) auto
qed

theorem killed_writer_leaves_reader_asleep_witness:
  "\<exists>t. pipewrite 0x80200000 (replicate 513 7) example_pipe = Ret (- 1) t \<and> waits (Chan_nread 0x80200000) 1 t \<and>
    length (pipe_contents (pipes t 0x80200000)) = 512"
proof -
  have "pipe_inv (pipes example_pipe 0x80200000)" by (simp add: example_pipe_facts)
  moreover have "PIPESIZE < length (pipe_contents (pipes example_pipe 0x80200000)) + length (replicate 513 7)"
    by (simp add: example_pipe_facts PIPESIZE_def)
  ultimately show ?thesis
    using killed_writer_leaves_reader_asleep[OF _ example_pipe_facts(5,6,7), of "replicate 513 7"]
    by (simp add: PIPESIZE_def)
qed

end
