(* ===== verification/Xv6_Vmap.thy ===== *)
theory Xv6_Vmap
  imports Xv6_Vm
begin

text \<open>
  What the page table operations of \<^verbatim>\<open>vm.c\<close> mean. \<open>lookup\<close> reads a page directory in memory as a function
  from virtual page numbers to present page table entries. The lemmas say how \<^verbatim>\<open>mappages\<close>, \<^verbatim>\<open>allocuvm\<close>,
  \<^verbatim>\<open>deallocuvm\<close> and \<^verbatim>\<open>freevm\<close> change that function, and where the pages go: a page is on the free list, or it
  holds a page table, or it is a frame of a user page, and never two of these.
\<close>

subsection \<open>Words in pages\<close>

definition entry :: "uint \<Rightarrow> nat \<Rightarrow> uint" where
  "entry p i = p + 4 * of_nat i"

lemma unat_times4: "i < 1024 \<Longrightarrow> unat (4 * of_nat i :: uint) = 4 * i"
  by (simp add: unat_word_ariths(2) unat_of_nat_small)

lemma unat_entry: "page_ok e p \<Longrightarrow> i < 1024 \<Longrightarrow> unat (entry p i) = unat p + 4 * i"
proof -
  assume "page_ok e p" "i < 1024"
  then have "unat p + 4 * i < 2 ^ 32" using page_ok_range(3)[of e p] by simp
  then show ?thesis using \<open>i < 1024\<close> by (simp add: entry_def unat_add_mod unat_times4)
qed

lemma entry_aligned: "page_ok e p \<Longrightarrow> i < 1024 \<Longrightarrow> unat (entry p i) mod 4 = 0"
proof -
  assume a: "page_ok e p" "i < 1024"
  have "unat p mod 4 = 0" using page_ok_range(1)[OF a(1)] mod_mod_cancel[of 4 4096 "unat p"] by simp
  then show ?thesis using unat_entry[OF a] by simp
qed

lemma entry_in_page: "page_ok e p \<Longrightarrow> i < 1024 \<Longrightarrow> k < 4 \<Longrightarrow> in_page p (entry p i + k)"
proof -
  assume a: "page_ok e p" "i < 1024" "k < 4"
  have "entry p i + k - p = 4 * of_nat i + k" by (simp add: entry_def)
  moreover have "unat (4 * of_nat i + k) = 4 * i + unat k"
    using a(2,3) by (simp add: unat_add_mod unat_times4 word_less_nat_alt)
  ultimately have "unat (entry p i + k - p) = 4 * i + unat k" by (simp only:)
  moreover have "unat k < 4" using a(3) by (simp add: word_less_nat_alt)
  ultimately show ?thesis using a(2) unfolding in_page_def by linarith
qed

lemma read32_outside:
  assumes "page_ok e p" and "i < 1024" and "\<And>x. in_page p x \<Longrightarrow> m' x = m x"
  shows "read32 m' (entry p i) = read32 m (entry p i)"
  by (rule read32_cong) (use assms entry_in_page in auto)

lemma write32_in_page:
  assumes "page_ok e p" and "i < 1024" and "\<not> in_page p x"
  shows "write32 m (entry p i) v x = m x"
  using entry_in_page[OF assms(1,2), of 0] entry_in_page[OF assms(1,2), of 1] entry_in_page[OF assms(1,2), of 2]
    entry_in_page[OF assms(1,2), of 3] assms(3)
  by (auto simp: write32_def)

lemma read32_write32_other:
  assumes "unat a mod 4 = 0" and "unat b mod 4 = 0" and "a \<noteq> b" and "unat a + 4 \<le> 2 ^ 32" and "unat b + 4 \<le> 2 ^ 32"
  shows "read32 (write32 m a v) b = read32 m b"
proof (rule read32_cong)
  fix k :: uint
  assume k: "k < 4"
  have "b + k \<noteq> a + j" if "j < 4" for j
  proof
    assume eq: "b + k = a + j"
    have "unat b + unat k = unat a + unat j"
      using arg_cong[OF eq, of unat] k that assms(4,5) by (simp add: unat_add_mod word_less_nat_alt)
    moreover have "unat k < 4" "unat j < 4" using k that by (simp_all add: word_less_nat_alt)
    ultimately have "unat b = unat a" using assms(1,2) by presburger
    then show False using assms(3) by (metis unsigned_word_eqI)
  qed
  from this[of 0] this[of 1] this[of 2] this[of 3] show "write32 m a v (b + k) = m (b + k)"
    by (simp add: write32_def)
qed

lemma read32_entry_write:
  assumes "page_ok e p" and "i < 1024" and "j < 1024"
  shows "read32 (write32 m (entry p i) v) (entry p j) = (if i = j then v else read32 m (entry p j))"
proof (cases "i = j")
  case False
  have u: "unat (entry p i) = unat p + 4 * i" "unat (entry p j) = unat p + 4 * j"
    using unat_entry[OF assms(1)] assms by simp_all
  then have "entry p i \<noteq> entry p j" using False by (metis add_left_cancel mult_cancel1 zero_neq_numeral)
  then have "read32 (write32 m (entry p i) v) (entry p j) = read32 m (entry p j)"
    by (rule read32_write32_other[OF entry_aligned[OF assms(1,2)] entry_aligned[OF assms(1,3)]])
      (use u assms page_ok_range(3)[OF assms(1)] in simp_all)
  then show ?thesis using False by simp
qed simp

subsection \<open>Reading a page directory\<close>

definition present :: "uint \<Rightarrow> bool" where
  "present e \<longleftrightarrow> e AND PTE_P \<noteq> 0"

definition frame :: "uint \<Rightarrow> uint" where
  "frame e = P2V (PTE_ADDR e)"

definition pde :: "memory \<Rightarrow> uint \<Rightarrow> nat \<Rightarrow> uint" where
  "pde m d i = read32 m (entry d i)"

definition tables :: "memory \<Rightarrow> uint \<Rightarrow> uint set" where
  "tables m d = {frame (pde m d i) | i. i < 1024 \<and> present (pde m d i)}"

definition lookup :: "memory \<Rightarrow> uint \<Rightarrow> nat \<Rightarrow> uint option" where
  "lookup m d v =
     (if present (pde m d (v div 1024))
      then let e = read32 m (entry (frame (pde m d (v div 1024))) (v mod 1024)) in if present e then Some e else None
      else None)"

definition vpn :: "uint \<Rightarrow> nat" where
  "vpn va = unat va div 4096"

lemma vpn_less: "vpn va < 1048576"
  using unat_uint_less[of va] by (simp add: vpn_def div_less_iff_less_mult)

lemma unat_PTX: "unat (PTX a) = unat a div 4096 mod 1024"
proof -
  have "PTX a = take_bit 10 (drop_bit 12 a)"
    by (simp add: PTX_def take_bit_eq_mask mask_eq_exp_minus_1)
  then show ?thesis by (simp add: drop_bit_eq_div take_bit_eq_mod unat_mod_distrib unat_div_distrib)
qed

lemma pde_addr_entry: "pde_addr d va = entry d (vpn va div 1024)"
proof -
  have "vpn va div 1024 = unat (PDX va)" by (simp add: unat_PDX vpn_def div_mult2_eq[symmetric])
  then show ?thesis by (simp add: pde_addr_def entry_def)
qed

lemma PTX_entry: "t + 4 * PTX va = entry t (vpn va mod 1024)"
proof -
  have "vpn va mod 1024 = unat (PTX va)" by (simp add: unat_PTX vpn_def)
  then show ?thesis by (simp add: entry_def)
qed

text \<open>
  The free list \<open>fl\<close>, the directory \<open>d\<close> and its page tables are pages of the kernel, all different.
\<close>

definition pt_inv :: "'z mach_scheme \<Rightarrow> uint list \<Rightarrow> uint \<Rightarrow> bool" where
  "pt_inv s fl d \<longleftrightarrow>
     kmem_inv s fl \<and> page_ok (kend s) d \<and> d \<notin> set fl \<and>
     (\<forall>i<1024. present (pde (mem s) d i) \<longrightarrow>
        page_ok (kend s) (frame (pde (mem s) d i)) \<and> frame (pde (mem s) d i) \<noteq> d \<and> frame (pde (mem s) d i) \<notin> set fl) \<and>
     (\<forall>i<1024. \<forall>j<1024. present (pde (mem s) d i) \<longrightarrow> present (pde (mem s) d j) \<longrightarrow>
        frame (pde (mem s) d i) = frame (pde (mem s) d j) \<longrightarrow> i = j)"

lemma pt_invD:
  assumes "pt_inv s fl d"
  shows "kmem_inv s fl" "page_ok (kend s) d" "d \<notin> set fl"
    "i < 1024 \<Longrightarrow> present (pde (mem s) d i) \<Longrightarrow> page_ok (kend s) (frame (pde (mem s) d i))"
    "i < 1024 \<Longrightarrow> present (pde (mem s) d i) \<Longrightarrow> frame (pde (mem s) d i) \<noteq> d"
    "i < 1024 \<Longrightarrow> present (pde (mem s) d i) \<Longrightarrow> frame (pde (mem s) d i) \<notin> set fl"
    "i < 1024 \<Longrightarrow> j < 1024 \<Longrightarrow> present (pde (mem s) d i) \<Longrightarrow> present (pde (mem s) d j) \<Longrightarrow>
       frame (pde (mem s) d i) = frame (pde (mem s) d j) \<Longrightarrow> i = j"
    "p \<in> set fl \<Longrightarrow> page_ok (kend s) p"
  using assms by (auto simp: pt_inv_def kmem_inv_def)

lemma tables_ok:
  assumes "pt_inv s fl d" and "t \<in> tables (mem s) d"
  shows "page_ok (kend s) t" "t \<noteq> d" "t \<notin> set fl"
  using assms pt_invD[OF assms(1)] by (auto simp: tables_def)

text \<open>Memory that differs from \<open>m\<close> at most in the pages of \<open>P\<close>.\<close>

definition same_outside :: "uint set \<Rightarrow> memory \<Rightarrow> memory \<Rightarrow> bool" where
  "same_outside P m m' \<longleftrightarrow> (\<forall>x. (\<forall>p \<in> P. \<not> in_page p x) \<longrightarrow> m' x = m x)"

lemma same_outside_refl [simp]: "same_outside P m m"
  by (simp add: same_outside_def)

lemma same_outside_trans: "same_outside P m m' \<Longrightarrow> same_outside Q m' m'' \<Longrightarrow> P \<union> Q \<subseteq> R \<Longrightarrow> same_outside R m m''"
  unfolding same_outside_def by (metis UnI1 UnI2 subsetD)

lemma same_outside_mono: "same_outside P m m' \<Longrightarrow> P \<subseteq> Q \<Longrightarrow> same_outside Q m m'"
  unfolding same_outside_def by blast

lemma read_other_page:
  assumes "same_outside P m m'" and "page_ok e q" and "\<forall>p \<in> P. page_ok e p" and "q \<notin> P" and "i < 1024"
  shows "read32 m' (entry q i) = read32 m (entry q i)"
proof (rule read32_outside[OF assms(2,5)])
  fix x
  assume "in_page q x"
  then have "\<not> in_page p x" if "p \<in> P" for p
    using in_page_disjoint[of e q p x] assms(2-4) that by metis
  then show "m' x = m x" using assms(1) by (simp add: same_outside_def)
qed

lemma kmem_inv_outside:
  assumes "kmem_inv s fl" and "same_outside P (mem s) (mem t)" and "\<forall>p \<in> P. page_ok (kend s) p \<and> p \<notin> set fl"
    and "freelist t = freelist s" and "kend t = kend s"
  shows "kmem_inv t fl"
proof (rule kmem_inv_cong[OF assms(1) _ assms(4,5)])
  fix v x
  assume v: "v \<in> set fl" "in_page v x"
  then have "page_ok (kend s) v" using assms(1) by (simp add: kmem_inv_def)
  then have "\<not> in_page p x" if "p \<in> P" for p
    using in_page_disjoint[of "kend s" v p x] assms(3) that v by metis
  then show "mem t x = mem s x" using assms(2) by (simp add: same_outside_def)
qed

text \<open>A directory entry that points to the page \<open>p\<close>.\<close>

lemma PTE_ADDR_or:
  assumes "page_ok e p" and "f AND NOT 0xFFF = 0"
  shows "PTE_ADDR (V2P p OR f) = V2P p"
proof -
  have "unat (V2P p) = unat p - 2147483648"
    using page_ok_range(2)[OF assms(1)] by (simp add: V2P_def KERNBASE_def unat_sub_if' word_le_nat_alt)
  moreover have "(unat p - 2147483648) mod 4096 = 0"
    using page_ok_range(1,2)[OF assms(1)] by (simp add: mod_eq_0_iff_dvd dvd_diff_nat)
  ultimately have "unat (V2P p) div 4096 * 4096 = unat (V2P p)" by (metis add_0_right div_mult_mod_eq)
  then have "V2P p AND NOT 0xFFF = V2P p"
    using unat_and_not_low12[of "V2P p"] by (metis unsigned_word_eqI)
  then show ?thesis using assms(2) by (simp add: PTE_ADDR_def bit.conj_disj_distrib2)
qed

lemma frame_or: "page_ok e p \<Longrightarrow> f AND NOT 0xFFF = 0 \<Longrightarrow> frame (V2P p OR f) = p"
  by (simp add: frame_def PTE_ADDR_or)

lemma present_or: "present (a OR PTE_P)" "present (a OR PTE_P OR b)" "present (PTE_P OR b)"
proof -
  have *: "present (c OR PTE_P)" for c
  proof -
    have "bit (c OR PTE_P) 0" by (simp add: PTE_P_def bit_or_iff)
    moreover have "x AND PTE_P \<noteq> 0" if "bit x 0" for x :: uint
      using that by (simp add: PTE_P_def and_one_eq bit_0 mod_2_eq_odd)
    ultimately show ?thesis unfolding present_def by blast
  qed
  show "present (a OR PTE_P)" by (rule *)
  show "present (a OR PTE_P OR b)" using *[of "a OR b"] by (simp add: or.assoc or.commute or.left_commute)
  show "present (PTE_P OR b)" using *[of b] by (simp add: or.commute)
qed

subsection \<open>Walking\<close>

text \<open>The entry for page number \<open>v\<close>, if its page table exists.\<close>

definition pte_at :: "memory \<Rightarrow> uint \<Rightarrow> nat \<Rightarrow> uint option" where
  "pte_at m d v =
     (if present (pde m d (v div 1024)) then Some (entry (frame (pde m d (v div 1024))) (v mod 1024)) else None)"

lemma lookup_pte: "lookup m d v = (case pte_at m d v of None \<Rightarrow> None
    | Some a \<Rightarrow> if present (read32 m a) then Some (read32 m a) else None)"
  by (simp add: lookup_def pte_at_def Let_def)

lemma walkpgdir_run:
  "walkpgdir d va False s = Ret (case pte_at (mem s) d (vpn va) of None \<Rightarrow> 0 | Some a \<Rightarrow> a) s"
  by (simp add: walkpgdir_def pde_addr_entry PTX_entry pte_at_def pde_def present_def frame_def Let_def)

lemma pte_at_nonzero:
  assumes "pt_inv s fl d" and "pte_at (mem s) d v = Some a" and "v < 1048576"
  shows "a \<noteq> 0"
proof -
  have i: "v div 1024 < 1024" using assms(3) by (simp add: div_less_iff_less_mult)
  have p: "present (pde (mem s) d (v div 1024))" "a = entry (frame (pde (mem s) d (v div 1024))) (v mod 1024)"
    using assms(2) by (auto simp: pte_at_def split: if_splits)
  have "page_ok (kend s) (frame (pde (mem s) d (v div 1024)))" using pt_invD(4)[OF assms(1) i p(1)] .
  then have "2147483648 \<le> unat a" unfolding p(2)
    using unat_entry[of "kend s" "frame (pde (mem s) d (v div 1024))" "v mod 1024"]
      page_ok_range(2)[of "kend s" "frame (pde (mem s) d (v div 1024))"] by simp
  then show ?thesis by auto
qed

text \<open>What \<^verbatim>\<open>walkpgdir\<close> adds: a fresh page table, all of whose entries are zero.\<close>

definition add_table :: "uint \<Rightarrow> uint \<Rightarrow> nat \<Rightarrow> memory \<Rightarrow> memory" where
  "add_table d p i m = write32 (fill m p 0 4096) (entry d i) (V2P p OR PTE_P OR PTE_W OR PTE_U)"

lemma fill_outside: "\<not> in_page p x \<Longrightarrow> fill m p b 4096 x = m x"
  by (simp add: fill_def in_page_def)

lemma walkpgdir_alloc_run:
  assumes "pt_inv s (p # fl) d" and "pte_at (mem s) d (vpn va) = None"
  shows "walkpgdir d va True s =
    Ret (entry p (vpn va mod 1024)) (s\<lparr>freelist := read32 (mem s) p, mem := add_table d p (vpn va div 1024) (mem s)\<rparr>)"
proof -
  have "kalloc s = Ret p (s\<lparr>freelist := read32 (mem s) p\<rparr>)" by (rule kalloc_Cons(1)[OF pt_invD(1)[OF assms(1)]])
  moreover have "p \<noteq> 0" using pt_invD(8)[OF assms(1), of p] page_ok_nonzero by auto
  ultimately show ?thesis
    using assms(2)
    by (simp add: walkpgdir_def pde_addr_entry PTX_entry pte_at_def pde_def[symmetric] present_def[symmetric]
        Let_def kbind_def memset_fill PGSIZE_def add_table_def split: if_splits)
qed

lemma table_flags: "(PTE_P OR PTE_W OR PTE_U) AND NOT 0xFFF = 0"
  by (simp add: PTE_P_def PTE_W_def PTE_U_def)

lemma add_table_reads:
  assumes inv: "pt_inv s (p # fl) d" and i: "i < 1024"
  shows "j < 1024 \<Longrightarrow> pde (add_table d p i (mem s)) d j = (if j = i then V2P p OR PTE_P OR PTE_W OR PTE_U else pde (mem s) d j)"
    and "j < 1024 \<Longrightarrow> read32 (add_table d p i (mem s)) (entry p j) = 0"
    and "page_ok (kend s) q \<Longrightarrow> q \<noteq> p \<Longrightarrow> q \<noteq> d \<Longrightarrow> j < 1024 \<Longrightarrow>
      read32 (add_table d p i (mem s)) (entry q j) = read32 (mem s) (entry q j)"
    and "same_outside {d, p} (mem s) (add_table d p i (mem s))"
proof -
  note I = pt_invD[OF inv]
  have p: "page_ok (kend s) p" "p \<noteq> d" using I(3,8) by auto
  let ?f = "fill (mem s) p 0 4096" and ?m = "add_table d p i (mem s)"
  have fp: "same_outside {p} (mem s) ?f" by (simp add: same_outside_def fill_outside)
  have fd: "same_outside {d} ?f ?m"
    unfolding same_outside_def add_table_def using write32_in_page[OF I(2) i] by simp
  show "same_outside {d, p} (mem s) ?m" by (rule same_outside_trans[OF fp fd]) simp
  show "pde ?m d j = (if j = i then V2P p OR PTE_P OR PTE_W OR PTE_U else pde (mem s) d j)" if "j < 1024"
    unfolding pde_def add_table_def read32_entry_write[OF I(2) i that]
    using read_other_page[OF fp I(2) _ _ that] p by auto
  show "read32 ?m (entry p j) = 0" if j: "j < 1024"
  proof -
    have "read32 ?m (entry p j) = read32 ?f (entry p j)"
      by (rule read_other_page[OF fd p(1) _ _ j]) (use I(2) p in auto)
    moreover have "?f (entry p j + k) = 0" if "k < 4" for k
      using entry_in_page[OF p(1) j that] by (simp add: fill_def in_page_def)
    from this[of 0] this[of 1] this[of 2] this[of 3] have "read32 ?f (entry p j) = 0"
      by (simp add: read32_def word_of_bytes_def)
    ultimately show ?thesis by simp
  qed
  show "read32 ?m (entry q j) = read32 (mem s) (entry q j)" if "page_ok (kend s) q" "q \<noteq> p" "q \<noteq> d" "j < 1024"
    by (rule read_other_page[OF \<open>same_outside {d, p} (mem s) ?m\<close> that(1) _ _ that(4)]) (use I(2) p that in auto)
qed

lemma add_table_inv:
  assumes inv: "pt_inv s (p # fl) d" and i: "i < 1024" and absent: "\<not> present (pde (mem s) d i)"
  shows "pt_inv (s\<lparr>freelist := read32 (mem s) p, mem := add_table d p i (mem s)\<rparr>) fl d"
    and "v < 1048576 \<Longrightarrow> lookup (add_table d p i (mem s)) d v = lookup (mem s) d v"
    and "tables (add_table d p i (mem s)) d = insert p (tables (mem s) d)"
proof -
  note I = pt_invD[OF inv]
  let ?m = "add_table d p i (mem s)" and ?e = "V2P p OR PTE_P OR PTE_W OR PTE_U"
  let ?t = "s\<lparr>freelist := read32 (mem s) p, mem := ?m\<rparr>"
  note R = add_table_reads[OF inv i]
  have p: "page_ok (kend s) p" "p \<noteq> d" "p \<notin> set fl" "distinct fl"
    using I(1,3,8) by (auto simp: kmem_inv_def)
  have e: "present ?e" "frame ?e = p"
    using present_or(2)[of "V2P p" "PTE_W OR PTE_U"] frame_or[OF p(1) table_flags] by (simp_all add: or.assoc)
  have "kmem_inv (s\<lparr>freelist := read32 (mem s) p\<rparr>) fl" by (rule kalloc_Cons(2)[OF I(1)])
  then have "kmem_inv ?t fl"
    by (rule kmem_inv_outside[where P = "{d, p}"]) (use R(4) I(2,3) p in auto)
  moreover have "frame (pde (mem s) d j) \<noteq> p" if "j < 1024" "present (pde (mem s) d j)" for j
    using I(6)[OF that] by auto
  ultimately show "pt_inv ?t fl d"
    unfolding pt_inv_def using I p e R(1) by (auto simp del: add_table_def)
  show "tables ?m d = insert p (tables (mem s) d)"
    unfolding tables_def using R(1) e absent i by (auto simp: if_splits) metis+
  show "lookup ?m d v = lookup (mem s) d v" if v: "v < 1048576"
  proof -
    have q: "v div 1024 < 1024" "v mod 1024 < 1024" using v by (simp_all add: div_less_iff_less_mult)
    show ?thesis
    proof (cases "v div 1024 = i")
      case True
      then show ?thesis using R(1)[OF q(1)] R(2)[OF q(2)] e absent by (simp add: lookup_def present_def)
    next
      case False
      then have "pde ?m d (v div 1024) = pde (mem s) d (v div 1024)" using R(1)[OF q(1)] by simp
      then show ?thesis
        using R(3)[OF I(4)[OF q(1)] _ I(5)[OF q(1)] q(2)] I(6)[OF q(1)] by (auto simp: lookup_def)
    qed
  qed
qed

text \<open>Storing an entry in an existing page table.\<close>

lemma store_pte:
  assumes inv: "pt_inv s fl d" and v: "v < 1048576" and a: "pte_at (mem s) d v = Some a"
  shows "pt_inv (s\<lparr>mem := write32 (mem s) a e\<rparr>) fl d"
    and "w < 1048576 \<Longrightarrow> lookup (write32 (mem s) a e) d w = (if w = v then if present e then Some e else None else lookup (mem s) d w)"
    and "w < 1048576 \<Longrightarrow> pte_at (write32 (mem s) a e) d w = pte_at (mem s) d w"
    and "tables (write32 (mem s) a e) d = tables (mem s) d"
    and "same_outside (tables (mem s) d) (mem s) (write32 (mem s) a e)"
proof -
  note I = pt_invD[OF inv]
  have q: "v div 1024 < 1024" "v mod 1024 < 1024" using v by (simp_all add: div_less_iff_less_mult)
  let ?t = "frame (pde (mem s) d (v div 1024))" and ?m = "write32 (mem s) a e"
  have pr: "present (pde (mem s) d (v div 1024))" and aa: "a = entry ?t (v mod 1024)"
    using a by (auto simp: pte_at_def split: if_splits)
  note T = I(4)[OF q(1) pr] I(5)[OF q(1) pr] I(6)[OF q(1) pr]
  have so: "same_outside {?t} (mem s) ?m"
    unfolding same_outside_def aa using write32_in_page[OF T(1) q(2)] by simp
  have "?t \<in> tables (mem s) d" using q(1) pr by (auto simp: tables_def)
  then show "same_outside (tables (mem s) d) (mem s) ?m" by (intro same_outside_mono[OF so]) simp
  have pd: "pde ?m d j = pde (mem s) d j" if "j < 1024" for j
    unfolding pde_def by (rule read_other_page[OF so I(2) _ _ that]) (use T in auto)
  then show "tables ?m d = tables (mem s) d" unfolding tables_def by (metis (no_types, lifting))
  show "pte_at ?m d w = pte_at (mem s) d w" if "w < 1048576"
    using pd[of "w div 1024"] that by (simp add: pte_at_def div_less_iff_less_mult)
  have "kmem_inv (s\<lparr>mem := ?m\<rparr>) fl"
    by (rule kmem_inv_outside[OF I(1), where P = "{?t}"]) (use so T in auto)
  then show "pt_inv (s\<lparr>mem := ?m\<rparr>) fl d" using I pd by (simp add: pt_inv_def)
  show "lookup ?m d w = (if w = v then if present e then Some e else None else lookup (mem s) d w)" if w: "w < 1048576"
  proof -
    have r: "w div 1024 < 1024" "w mod 1024 < 1024" using w by (simp_all add: div_less_iff_less_mult)
    show ?thesis
    proof (cases "present (pde (mem s) d (w div 1024))")
      case False
      then show ?thesis using pd[OF r(1)] pr by (auto simp: lookup_def)
    next
      case True
      have "read32 ?m (entry (frame (pde (mem s) d (w div 1024))) (w mod 1024)) =
          (if w = v then e else read32 (mem s) (entry (frame (pde (mem s) d (w div 1024))) (w mod 1024)))"
      proof (cases "w div 1024 = v div 1024")
        case True
        then have "w mod 1024 = v mod 1024 \<longleftrightarrow> w = v" by (metis div_mult_mod_eq)
        then show ?thesis unfolding aa True read32_entry_write[OF T(1) q(2) r(2)] by auto
      next
        case False
        then have "frame (pde (mem s) d (w div 1024)) \<noteq> ?t" using I(7)[OF r(1) q(1) True pr] by blast
        then show ?thesis
          using read_other_page[OF so I(4)[OF r(1) True] _ _ r(2)] T False by auto
      qed
      then show ?thesis using True pd[OF r(1)] by (simp add: lookup_def Let_def)
    qed
  qed
qed

subsection \<open>Mapping\<close>

text \<open>
  \<open>pt_step d s fl t fl'\<close>: between \<open>s\<close> and \<open>t\<close> only the page tables of \<open>d\<close> changed, and pages moved from the
  front of the free list to the page tables.
\<close>

definition pt_step :: "uint \<Rightarrow> 'z mach_scheme \<Rightarrow> uint list \<Rightarrow> 'z mach_scheme \<Rightarrow> uint list \<Rightarrow> bool" where
  "pt_step d s fl t fl' \<longleftrightarrow>
     mem_frame s t \<and> pt_inv t fl' d \<and> tables (mem s) d \<subseteq> tables (mem t) d \<and>
     same_outside (insert d (tables (mem t) d)) (mem s) (mem t) \<and>
     (\<exists>us. fl = us @ fl' \<and> tables (mem t) d = tables (mem s) d \<union> set us)"

lemma pt_step_refl: "pt_inv s fl d \<Longrightarrow> pt_step d s fl s fl"
  by (simp add: pt_step_def)

lemma pt_step_trans: "pt_step d s fl t fl' \<Longrightarrow> pt_step d t fl' u fl'' \<Longrightarrow> pt_step d s fl u fl''"
proof -
  assume a: "pt_step d s fl t fl'" and b: "pt_step d t fl' u fl''"
  obtain us vs where f: "fl = us @ fl'" "tables (mem t) d = tables (mem s) d \<union> set us"
    "fl' = vs @ fl''" "tables (mem u) d = tables (mem t) d \<union> set vs"
    using a b by (auto simp: pt_step_def)
  have "same_outside (insert d (tables (mem u) d)) (mem s) (mem u)"
    by (rule same_outside_trans[where P = "insert d (tables (mem t) d)" and Q = "insert d (tables (mem u) d)" and m' = "mem t"])
      (use a b f in \<open>auto simp: pt_step_def\<close>)
  moreover have "fl = (us @ vs) @ fl''" "tables (mem u) d = tables (mem s) d \<union> set (us @ vs)" using f by auto
  moreover have "mem_frame s u" "pt_inv u fl'' d"
    using a b mem_frame_trans[of s t u] by (simp_all add: pt_step_def)
  ultimately show ?thesis unfolding pt_step_def by blast
qed

lemma walkpgdir_spec:
  assumes inv: "pt_inv s fl d"
  shows "\<exists>a t fl'. walkpgdir d va True s = Ret a t \<and> pt_step d s fl t fl' \<and>
    (\<forall>v<1048576. lookup (mem t) d v = lookup (mem s) d v) \<and>
    (a = 0 \<and> fl' = [] \<or> pte_at (mem t) d (vpn va) = Some a \<and> a \<noteq> 0)"
proof (cases "pte_at (mem s) d (vpn va)")
  case (Some a)
  then have "walkpgdir d va True s = Ret a s"
    by (auto simp: walkpgdir_def pde_addr_entry PTX_entry pte_at_def pde_def present_def frame_def Let_def split: if_splits)
  then show ?thesis
    using Some pt_step_refl[OF inv] pte_at_nonzero[OF inv Some vpn_less]
    by (intro exI[of _ a] exI[of _ s] exI[of _ fl]) simp
next
  case None
  have q: "vpn va div 1024 < 1024" using vpn_less[of va] by (simp add: div_less_iff_less_mult)
  have absent: "\<not> present (pde (mem s) d (vpn va div 1024))" using None by (auto simp: pte_at_def split: if_splits)
  show ?thesis
  proof (cases fl)
    case Nil
    then have "walkpgdir d va True s = Ret 0 s"
      using kalloc_Nil[of s] pt_invD(1)[OF inv] absent
      by (simp add: walkpgdir_def pde_addr_entry pde_def[symmetric] present_def[symmetric] kbind_def)
    then show ?thesis using Nil pt_step_refl[OF inv] by (intro exI[of _ 0] exI[of _ s] exI[of _ "[]"]) simp
  next
    case (Cons p fl')
    note inv' = inv[unfolded Cons]
    let ?t = "s\<lparr>freelist := read32 (mem s) p, mem := add_table d p (vpn va div 1024) (mem s)\<rparr>"
    note run = walkpgdir_alloc_run[OF inv' None] and A = add_table_inv[OF inv' q absent] and R = add_table_reads[OF inv' q]
    have "mem_frame s ?t" unfolding mem_frame_def by (cases s) simp
    then have "pt_step d s fl ?t fl'"
      unfolding pt_step_def Cons using A(1,3) same_outside_mono[OF R(4)] by (auto intro!: exI[of _ "[p]"])
    moreover have p: "page_ok (kend s) p" using pt_invD(8)[OF inv'] by simp
    have "pte_at (mem ?t) d (vpn va) = Some (entry p (vpn va mod 1024))"
      using R(1)[OF q] present_or(2)[of "V2P p" "PTE_W OR PTE_U"] frame_or[OF p table_flags]
      by (simp add: pte_at_def or.assoc)
    moreover have "entry p (vpn va mod 1024) \<noteq> 0" using pte_at_nonzero[OF A(1)] calculation(2) vpn_less by simp
    ultimately show ?thesis using run A(2)
      by (intro exI[of _ "entry p (vpn va mod 1024)"] exI[of _ ?t] exI[of _ fl']) simp
  qed
qed

text \<open>\<open>mapped_from v0 k pa perm f\<close>: \<open>f\<close> with the \<open>k\<close> pages from \<open>v0\<close> mapped to consecutive frames from \<open>pa\<close>.\<close>

definition mapped_from :: "nat \<Rightarrow> nat \<Rightarrow> uint \<Rightarrow> uint \<Rightarrow> (nat \<Rightarrow> uint option) \<Rightarrow> nat \<Rightarrow> uint option" where
  "mapped_from v0 k pa perm f v =
     (if v0 \<le> v \<and> v < v0 + k then Some ((pa + 4096 * of_nat (v - v0)) OR perm OR PTE_P) else f v)"

lemma map_one:
  assumes inv: "pt_inv s fl d" and free: "lookup (mem s) d (vpn a) = None"
  shows "\<exists>t fl'. pt_step d s fl t fl' \<and>
    (\<exists>pte u. walkpgdir d a True s = Ret pte u \<and>
      (if pte = 0 then fl' = [] \<and> t = u \<and> (\<forall>v<1048576. lookup (mem t) d v = lookup (mem s) d v)
       else \<not> present (read32 (mem u) pte) \<and> t = u\<lparr>mem := write32 (mem u) pte (pa OR perm OR PTE_P)\<rparr> \<and>
         (\<forall>v<1048576. lookup (mem t) d v = mapped_from (vpn a) 1 pa perm (lookup (mem s) d) v)))"
proof -
  obtain pte u fl' where w: "walkpgdir d a True s = Ret pte u" "pt_step d s fl u fl'"
    "\<forall>v<1048576. lookup (mem u) d v = lookup (mem s) d v" "pte = 0 \<and> fl' = [] \<or> pte_at (mem u) d (vpn a) = Some pte \<and> pte \<noteq> 0"
    using walkpgdir_spec[OF inv] by blast
  show ?thesis
  proof (cases "pte = 0")
    case True
    then show ?thesis using w by (intro exI[of _ u] exI[of _ fl']) auto
  next
    case False
    then have pa: "pte_at (mem u) d (vpn a) = Some pte" using w(4) by simp
    have invu: "pt_inv u fl' d" using w(2) by (simp add: pt_step_def)
    let ?t = "u\<lparr>mem := write32 (mem u) pte (pa OR perm OR PTE_P)\<rparr>"
    note S = store_pte[OF invu vpn_less pa]
    have "mem_frame u ?t" unfolding mem_frame_def by (cases u) simp
    then have "pt_step d u fl' ?t fl'"
      unfolding pt_step_def using S(1,4) by (auto intro!: exI[of _ "[]"] same_outside_mono[OF S(5)])
    then have "pt_step d s fl ?t fl'" by (rule pt_step_trans[OF w(2)])
    moreover have "lookup (mem u) d (vpn a) = None" using w(3) free vpn_less by simp
    then have "\<not> present (read32 (mem u) pte)" using pa by (simp add: lookup_pte split: if_splits)
    moreover have "lookup (mem ?t) d v = mapped_from (vpn a) 1 pa perm (lookup (mem s) d) v" if "v < 1048576" for v
      using S(2)[OF that] w(3) that present_or(1)[of "pa OR perm"] by (auto simp: mapped_from_def or.assoc)
    ultimately show ?thesis using w(1) False by (intro exI[of _ ?t] exI[of _ fl'] conjI exI[of _ pte] exI[of _ u]) auto
  qed
qed

lemma vpn_next: "vpn a + 1 < 1048576 \<Longrightarrow> vpn (a + PGSIZE) = vpn a + 1"
proof -
  assume "vpn a + 1 < 1048576"
  moreover have "unat a = unat a div 4096 * 4096 + unat a mod 4096" "unat a mod 4096 < 4096" by simp_all
  ultimately have "unat a + 4096 < 4294967296" unfolding vpn_def by linarith
  then have "unat (a + PGSIZE) = unat a + 4096" by (simp add: unat_add_mod PGSIZE_def)
  then show ?thesis by (simp add: vpn_def)
qed

lemma mapped_from_0 [simp]: "mapped_from v0 0 pa perm f = f"
  by (rule ext) (auto simp: mapped_from_def)

lemma mapped_from_Suc:
  "mapped_from (Suc v0) k (pa + 4096) perm (mapped_from v0 1 pa perm f) v = mapped_from v0 (Suc k) pa perm f v"
proof (cases "Suc v0 \<le> v")
  case True
  then obtain j where "v = Suc v0 + j" using le_Suc_ex by blast
  then show ?thesis by (simp add: mapped_from_def algebra_simps)
next
  case False
  then show ?thesis by (auto simp: mapped_from_def)
qed

lemma mapped_from_cong:
  "(\<And>v. v < 1048576 \<Longrightarrow> f v = g v) \<Longrightarrow> v < 1048576 \<Longrightarrow> mapped_from v0 k pa perm f v = mapped_from v0 k pa perm g v"
  by (simp add: mapped_from_def)

lemma mappages_loop_spec:
  assumes "pt_inv s fl d" and "vpn a + n < 1048576" and "\<forall>v. vpn a \<le> v \<and> v \<le> vpn a + n \<longrightarrow> lookup (mem s) d v = None"
  shows "\<exists>k t fl'. pt_step d s fl t fl' \<and> k \<le> Suc n \<and> (k < Suc n \<longrightarrow> fl' = []) \<and>
    (\<forall>v<1048576. lookup (mem t) d v = mapped_from (vpn a) k pa perm (lookup (mem s) d) v) \<and>
    mappages_loop n d a pa perm s = Ret (if k = Suc n then 0 else - 1) t"
  using assms
proof (induction n arbitrary: s fl a pa)
  case 0
  have "lookup (mem s) d (vpn a) = None" using "0.prems"(3) by simp
  then obtain t fl' pte u where st: "pt_step d s fl t fl'" and w: "walkpgdir d a True s = Ret pte u"
    and c: "if pte = 0 then fl' = [] \<and> t = u \<and> (\<forall>v<1048576. lookup (mem t) d v = lookup (mem s) d v)
       else \<not> present (read32 (mem u) pte) \<and> t = u\<lparr>mem := write32 (mem u) pte (pa OR perm OR PTE_P)\<rparr> \<and>
         (\<forall>v<1048576. lookup (mem t) d v = mapped_from (vpn a) 1 pa perm (lookup (mem s) d) v)"
    using map_one[OF "0.prems"(1), of a pa perm] by blast
  show ?case
  proof (cases "pte = 0")
    case True
    then show ?thesis using st w c
      by (intro exI[of _ 0] exI[of _ t] exI[of _ fl']) (auto simp: kbind_def)
  next
    case False
    then show ?thesis using st w c
      by (intro exI[of _ 1] exI[of _ t] exI[of _ fl']) (auto simp: kbind_def present_def)
  qed
next
  case (Suc n)
  have "lookup (mem s) d (vpn a) = None" using Suc.prems(3) by simp
  then obtain t fl' pte u where st: "pt_step d s fl t fl'" and w: "walkpgdir d a True s = Ret pte u"
    and c: "if pte = 0 then fl' = [] \<and> t = u \<and> (\<forall>v<1048576. lookup (mem t) d v = lookup (mem s) d v)
       else \<not> present (read32 (mem u) pte) \<and> t = u\<lparr>mem := write32 (mem u) pte (pa OR perm OR PTE_P)\<rparr> \<and>
         (\<forall>v<1048576. lookup (mem t) d v = mapped_from (vpn a) 1 pa perm (lookup (mem s) d) v)"
    using map_one[OF Suc.prems(1), of a pa perm] by blast
  show ?case
  proof (cases "pte = 0")
    case True
    then show ?thesis using st w c
      by (intro exI[of _ 0] exI[of _ t] exI[of _ fl']) (auto simp: kbind_def)
  next
    case False
    note c' = c[unfolded if_not_P[OF False]]
    have lk: "lookup (mem t) d v = mapped_from (vpn a) 1 pa perm (lookup (mem s) d) v" if "v < 1048576" for v
      using c' that by blast
    have inv: "pt_inv t fl' d" using st by (simp add: pt_step_def)
    have vn: "vpn (a + PGSIZE) = Suc (vpn a)" using vpn_next[of a] Suc.prems(2) by simp
    have free: "lookup (mem t) d v = None" if "vpn (a + PGSIZE) \<le> v \<and> v \<le> vpn (a + PGSIZE) + n" for v
      using lk[of v] that Suc.prems(2,3) unfolding vn by (simp add: mapped_from_def)
    obtain k u' fl'' where k: "pt_step d t fl' u' fl''" "k \<le> Suc n" "k < Suc n \<longrightarrow> fl'' = []"
      "\<forall>v<1048576. lookup (mem u') d v = mapped_from (vpn (a + PGSIZE)) k (pa + PGSIZE) perm (lookup (mem t) d) v"
      "mappages_loop n d (a + PGSIZE) (pa + PGSIZE) perm t = Ret (if k = Suc n then 0 else - 1) u'"
      using Suc.IH[of t fl' "a + PGSIZE" "pa + PGSIZE"] inv free Suc.prems(2) vn by auto
    have "lookup (mem u') d v = mapped_from (vpn a) (Suc k) pa perm (lookup (mem s) d) v" if v: "v < 1048576" for v
    proof -
      have "lookup (mem u') d v = mapped_from (Suc (vpn a)) k (pa + 4096) perm (lookup (mem t) d) v"
        using k(4) v unfolding vn by (simp add: PGSIZE_def)
      also have "\<dots> = mapped_from (Suc (vpn a)) k (pa + 4096) perm (mapped_from (vpn a) 1 pa perm (lookup (mem s) d)) v"
        by (rule mapped_from_cong[OF lk v])
      finally show ?thesis by (simp only: mapped_from_Suc)
    qed
    moreover have "mappages_loop (Suc n) d a pa perm s = Ret (if Suc k = Suc (Suc n) then 0 else - 1) u'"
      using w c' k(5) False by (simp add: kbind_def present_def)
    ultimately show ?thesis
      using pt_step_trans[OF st k(1)] k(2,3) by (intro exI[of _ "Suc k"] exI[of _ u'] exI[of _ fl'']) simp
  qed
qed

definition last_vpn :: "uint \<Rightarrow> uint \<Rightarrow> nat" where
  "last_vpn va sz = (unat va + unat sz - 1) div 4096"

lemma mappages_spec:
  assumes inv: "pt_inv s fl d" and sz: "0 < unat sz" "unat va + unat sz \<le> 2 ^ 32"
    and free: "\<forall>v. vpn va \<le> v \<and> v \<le> last_vpn va sz \<longrightarrow> lookup (mem s) d v = None"
  shows "\<exists>k t fl'. pt_step d s fl t fl' \<and> k \<le> Suc (last_vpn va sz - vpn va) \<and>
    (k < Suc (last_vpn va sz - vpn va) \<longrightarrow> fl' = []) \<and>
    (\<forall>v<1048576. lookup (mem t) d v = mapped_from (vpn va) k pa perm (lookup (mem s) d) v) \<and>
    mappages d va sz pa perm s = Ret (if k = Suc (last_vpn va sz - vpn va) then 0 else - 1) t"
proof -
  let ?a = "PGROUNDDOWN va" and ?l = "PGROUNDDOWN (va + sz - 1)"
  have lt: "unat va + (unat sz - 1) < 2 ^ 32" using sz by linarith
  have "sz \<noteq> 0" using sz(1) by auto
  have "unat (va + (sz - 1)) = unat va + (unat sz - 1)"
    unfolding unat_add_mod unat_minus_one[OF \<open>sz \<noteq> 0\<close>] by (rule mod_less[OF lt])
  moreover have "va + (sz - 1) = va + sz - 1" by simp
  ultimately have u: "unat (va + sz - 1) = unat va + unat sz - 1" using sz(1) by simp
  have l: "unat ?l = last_vpn va sz * 4096" unfolding unat_PGROUNDDOWN u last_vpn_def ..
  have a: "unat ?a = vpn va * 4096" by (simp add: unat_PGROUNDDOWN vpn_def)
  have le: "vpn va \<le> last_vpn va sz" unfolding vpn_def last_vpn_def by (rule div_le_mono) (use sz(1) in simp)
  then have "?a \<le> ?l" unfolding word_le_nat_alt a l by simp
  then have "unat (?l - ?a) div 4096 = last_vpn va sz - vpn va"
    unfolding unat_sub[OF \<open>?a \<le> ?l\<close>] a l by (simp add: diff_mult_distrib[symmetric])
  moreover have va: "vpn ?a = vpn va" unfolding vpn_def[of ?a] a by simp
  moreover have "last_vpn va sz < 1048576" unfolding last_vpn_def using sz by (simp add: div_less_iff_less_mult)
  ultimately show ?thesis
    using mappages_loop_spec[OF inv, of ?a "last_vpn va sz - vpn va" pa perm] free le
    by (simp add: mappages_def Let_def)
qed

subsection \<open>User pages\<close>

text \<open>
  The pages below \<^verbatim>\<open>KERNBASE\<close>, page numbers below \<open>524288\<close>, belong to the process: no two of them share a frame, and
  no frame is on the free list or holds page tables. The kernel's image ends above \<^verbatim>\<open>KERNBASE\<close>.
\<close>

definition user_frames :: "memory \<Rightarrow> uint \<Rightarrow> uint set" where
  "user_frames m d = {frame e | v e. v < 524288 \<and> lookup m d v = Some e}"

definition user_inv :: "'z mach_scheme \<Rightarrow> uint list \<Rightarrow> uint \<Rightarrow> bool" where
  "user_inv s fl d \<longleftrightarrow>
     pt_inv s fl d \<and> KERNBASE < kend s \<and>
     (\<forall>f \<in> user_frames (mem s) d. page_ok (kend s) f \<and> f \<noteq> d \<and> f \<notin> tables (mem s) d \<and> f \<notin> set fl) \<and>
     (\<forall>v<524288. \<forall>w<524288. \<forall>e f. lookup (mem s) d v = Some e \<longrightarrow> lookup (mem s) d w = Some f \<longrightarrow>
        frame e = frame f \<longrightarrow> v = w)"

lemma lookup_outside:
  assumes inv: "pt_inv s fl d" and so: "same_outside P (mem s) m"
    and P: "\<forall>p \<in> P. page_ok (kend s) p \<and> p \<noteq> d \<and> p \<notin> tables (mem s) d"
  shows "i < 1024 \<Longrightarrow> pde m d i = pde (mem s) d i" and "tables m d = tables (mem s) d"
    and "v < 1048576 \<Longrightarrow> lookup m d v = lookup (mem s) d v" and "v < 1048576 \<Longrightarrow> pte_at m d v = pte_at (mem s) d v"
proof -
  note I = pt_invD[OF inv]
  have pd: "pde m d i = pde (mem s) d i" if "i < 1024" for i
    unfolding pde_def by (rule read_other_page[OF so I(2) _ _ that]) (use P in auto)
  show "i < 1024 \<Longrightarrow> pde m d i = pde (mem s) d i" by (rule pd)
  show "tables m d = tables (mem s) d" unfolding tables_def using pd by (metis (no_types, lifting))
  assume v: "v < 1048576"
  have q: "v div 1024 < 1024" "v mod 1024 < 1024" using v by (simp_all add: div_less_iff_less_mult)
  show "pte_at m d v = pte_at (mem s) d v" using pd[OF q(1)] by (simp add: pte_at_def)
  show "lookup m d v = lookup (mem s) d v"
  proof (cases "present (pde (mem s) d (v div 1024))")
    case True
    then have "frame (pde (mem s) d (v div 1024)) \<in> tables (mem s) d" using q(1) by (auto simp: tables_def)
    then have "read32 m (entry (frame (pde (mem s) d (v div 1024))) (v mod 1024)) =
        read32 (mem s) (entry (frame (pde (mem s) d (v div 1024))) (v mod 1024))"
      using read_other_page[OF so I(4)[OF q(1) True] _ _ q(2)] P by auto
    then show ?thesis using True pd[OF q(1)] by (simp add: lookup_def)
  next
    case False
    then show ?thesis using pd[OF q(1)] by (simp add: lookup_def)
  qed
qed

lemma user_invD:
  assumes "user_inv s fl d"
  shows "pt_inv s fl d" "KERNBASE < kend s"
    "f \<in> user_frames (mem s) d \<Longrightarrow> page_ok (kend s) f \<and> f \<noteq> d \<and> f \<notin> tables (mem s) d \<and> f \<notin> set fl"
    "v < 524288 \<Longrightarrow> w < 524288 \<Longrightarrow> lookup (mem s) d v = Some e \<Longrightarrow> lookup (mem s) d w = Some f' \<Longrightarrow> frame e = frame f' \<Longrightarrow> v = w"
  using assms unfolding user_inv_def by blast+

lemma user_framesI: "v < 524288 \<Longrightarrow> lookup m d v = Some e \<Longrightarrow> frame e \<in> user_frames m d"
  by (auto simp: user_frames_def)

text \<open>Unmapping the page \<open>v\<close> and freeing its frame.\<close>

definition unmap :: "uint \<Rightarrow> uint \<Rightarrow> 'z mach_scheme \<Rightarrow> 'z mach_scheme" where
  "unmap a f s = s\<lparr>mem := write32 (kfree_mem (mem s) f (freelist s)) a 0, freelist := f\<rparr>"

lemma unmap_one:
  assumes inv: "user_inv s fl d" and v: "v < 524288" and e: "lookup (mem s) d v = Some e" and a: "pte_at (mem s) d v = Some a"
  shows "user_inv (unmap a (frame e) s) (frame e # fl) d"
    and "w < 1048576 \<Longrightarrow> lookup (mem (unmap a (frame e) s)) d w = (if w = v then None else lookup (mem s) d w)"
    and "tables (mem (unmap a (frame e) s)) d = tables (mem s) d"
    and "kbind (kfree (frame e)) (\<lambda>_. kbind (kmod (\<lambda>s. s\<lparr>mem := write32 (mem s) a 0\<rparr>)) (\<lambda>_. kret x)) s = Ret x (unmap a (frame e) s)"
    and "user_frames (mem (unmap a (frame e) s)) d = user_frames (mem s) d - {frame e}"
    and "g \<in> user_frames (mem s) d \<Longrightarrow> g \<noteq> frame e \<Longrightarrow> in_page g y \<Longrightarrow> mem (unmap a (frame e) s) y = mem s y"
proof -
  note U = user_invD[OF inv]
  note I = pt_invD[OF U(1)]
  let ?f = "frame e"
  have f: "page_ok (kend s) ?f" "?f \<noteq> d" "?f \<notin> tables (mem s) d" "?f \<notin> set fl"
    using U(3)[OF user_framesI[OF v e]] by auto
  let ?m = "kfree_mem (mem s) ?f (freelist s)"
  let ?k = "s\<lparr>mem := ?m, freelist := ?f\<rparr>"
  have so: "same_outside {?f} (mem s) ?m" by (simp add: same_outside_def kfree_mem_outside)
  note L = lookup_outside[OF U(1) so]
  have P: "\<forall>p \<in> {?f}. page_ok (kend s) p \<and> p \<noteq> d \<and> p \<notin> tables (mem s) d" using f by simp
  have pd: "pde ?m d i = pde (mem s) d i" if "i < 1024" for i using L(1)[OF P that] .
  have "kmem_inv ?k (?f # fl)" by (rule kfree_inv[OF I(1) f(1,4)])
  moreover have "frame (pde (mem s) d i) \<noteq> ?f" if "i < 1024" "present (pde (mem s) d i)" for i
    using f(3) that by (auto simp: tables_def)
  ultimately have inv1: "pt_inv ?k (?f # fl) d"
    using I f pd by (auto simp: pt_inv_def)
  have a1: "pte_at (mem ?k) d v = Some a" using L(4)[OF P] v a by simp
  have v': "v < 1048576" using v by simp
  have t: "unmap a ?f s = ?k\<lparr>mem := write32 (mem ?k) a 0\<rparr>" by (simp add: unmap_def)
  have np: "\<not> present 0" by (simp add: present_def)
  show lk: "lookup (mem (unmap a ?f s)) d w = (if w = v then None else lookup (mem s) d w)" if "w < 1048576" for w
    using store_pte(2)[OF inv1 v' a1 that, of 0] L(3)[OF P that] np by (simp add: t)
  show tb: "tables (mem (unmap a ?f s)) d = tables (mem s) d"
    using store_pte(4)[OF inv1 v' a1, of 0] L(2)[OF P] by (simp add: t)
  have so2: "same_outside (insert ?f (tables (mem s) d)) (mem s) (mem (unmap a ?f s))"
    by (rule same_outside_trans[OF so, of "tables (mem s) d"])
      (use store_pte(5)[OF inv1 v' a1, of 0] L(2)[OF P] in \<open>auto simp: t\<close>)
  show "mem (unmap a ?f s) y = mem s y" if g: "g \<in> user_frames (mem s) d" "g \<noteq> ?f" "in_page g y"
  proof -
    have "\<not> in_page q y" if "q \<in> insert ?f (tables (mem s) d)" for q
    proof (rule in_page_disjoint[OF _ _ _ g(3)])
      show "page_ok (kend s) g" "page_ok (kend s) q" using U(3)[OF g(1)] tables_ok(1)[OF U(1)] f(1) that by auto
      show "g \<noteq> q" using g U(3)[OF g(1)] that by auto
    qed
    then show ?thesis using so2 by (simp add: same_outside_def)
  qed
  show fr: "user_frames (mem (unmap a ?f s)) d = user_frames (mem s) d - {?f}"
  proof (intro equalityI subsetI)
    fix g
    assume "g \<in> user_frames (mem (unmap a ?f s)) d"
    then obtain w e' where w: "w < 524288" "lookup (mem (unmap a ?f s)) d w = Some e'" "g = frame e'"
      unfolding user_frames_def by blast
    then have "w \<noteq> v" "lookup (mem s) d w = Some e'" using lk[of w] by (auto split: if_splits)
    then show "g \<in> user_frames (mem s) d - {?f}"
      using U(4)[OF w(1) v _ e] user_framesI[OF w(1)] unfolding w(3) by blast
  next
    fix g
    assume g: "g \<in> user_frames (mem s) d - {?f}"
    then obtain w e' where w: "w < 524288" "lookup (mem s) d w = Some e'" "g = frame e'"
      unfolding user_frames_def by blast
    then have "w \<noteq> v" using e g by auto
    then have "lookup (mem (unmap a ?f s)) d w = Some e'" using lk[of w] w by simp
    then show "g \<in> user_frames (mem (unmap a ?f s)) d" unfolding w(3) by (rule user_framesI[OF w(1)])
  qed
  have "kend (unmap a ?f s) = kend s" by (simp add: unmap_def)
  moreover have "pt_inv (unmap a ?f s) (?f # fl) d" unfolding t by (rule store_pte(1)[OF inv1 v' a1])
  ultimately show "user_inv (unmap a ?f s) (?f # fl) d"
    unfolding user_inv_def using U(2,3,4) fr tb lk by (auto split: if_splits)
  show "kbind (kfree ?f) (\<lambda>_. kbind (kmod (\<lambda>s. s\<lparr>mem := write32 (mem s) a 0\<rparr>)) (\<lambda>_. kret x)) s = Ret x (unmap a ?f s)"
    by (simp add: kbind_def kfree_run[OF f(1)] unmap_def)
qed

lemma next_table_vpn:
  assumes "unat a < 2147483648"
  shows "unat (PGADDR (PDX a + 1) 0 0 - PGSIZE + PGSIZE) = (vpn a div 1024 + 1) * 4194304"
proof -
  have d: "vpn a div 1024 = unat a div 4194304" by (simp add: vpn_def div_mult2_eq[symmetric])
  have lt: "unat a div 4194304 < 512" using assms by (simp add: div_less_iff_less_mult)
  then have "unat (PDX a + 1) = unat a div 4194304 + 1" by (simp add: unat_add_mod unat_PDX)
  then have "unat (push_bit 22 (PDX a + 1)) = (unat a div 4194304 + 1) * 4194304"
    using lt unfolding unat_push22 by simp
  then show ?thesis unfolding d by (simp add: PGADDR_def)
qed

text \<open>\<open>cleared v0 v1 d s fl t fl'\<close>: the user pages from \<open>v0\<close> up to \<open>v1\<close> are gone and their frames are free.\<close>

definition cleared :: "nat \<Rightarrow> nat \<Rightarrow> uint \<Rightarrow> 'z mach_scheme \<Rightarrow> uint list \<Rightarrow> 'z mach_scheme \<Rightarrow> uint list \<Rightarrow> bool" where
  "cleared v0 v1 d s fl t fl' \<longleftrightarrow>
     user_inv t fl' d \<and> mem_frame s t \<and> tables (mem t) d = tables (mem s) d \<and>
     set fl' \<union> user_frames (mem t) d = set fl \<union> user_frames (mem s) d \<and> set fl \<subseteq> set fl' \<and>
     user_frames (mem t) d \<subseteq> user_frames (mem s) d \<and>
     (\<forall>f \<in> user_frames (mem t) d. \<forall>x. in_page f x \<longrightarrow> mem t x = mem s x) \<and>
     (\<forall>v<1048576. lookup (mem t) d v = (if v0 \<le> v \<and> v < v1 then None else lookup (mem s) d v))"

lemma cleared_trans:
  assumes "cleared v0 v1 d s fl t fl'" and "cleared v1 v2 d t fl' u fl''" and "v0 \<le> v1" and "v1 \<le> v2"
  shows "cleared v0 v2 d s fl u fl''"
proof -
  have "mem_frame s u" using assms(1,2) mem_frame_trans by (auto simp: cleared_def)
  moreover have "lookup (mem u) d v = (if v0 \<le> v \<and> v < v2 then None else lookup (mem s) d v)" if "v < 1048576" for v
    using assms that by (auto simp: cleared_def)
  moreover have "\<forall>f \<in> user_frames (mem u) d. \<forall>x. in_page f x \<longrightarrow> mem u x = mem s x"
    using assms(1,2) unfolding cleared_def by (metis subsetD)
  ultimately show ?thesis using assms(1,2) by (auto simp: cleared_def)
qed

lemma cleared_none:
  assumes "user_inv s fl d" and "\<And>v. v0 \<le> v \<Longrightarrow> v < v1 \<Longrightarrow> lookup (mem s) d v = None"
  shows "cleared v0 v1 d s fl s fl"
  using assms by (simp add: cleared_def)

lemma dealloc_step_spec:
  assumes inv: "user_inv s fl d" and a: "unat a < 2147483648" "unat a mod 4096 = 0"
  shows "\<exists>a' t fl'. deallocuvm_step d a s = Ret a' t \<and> a < a' \<and> unat a' mod 4096 = 0 \<and> vpn a < vpn a' \<and>
    (\<forall>v. vpn a < v \<and> v < vpn a' \<longrightarrow> lookup (mem s) d v = None) \<and> cleared (vpn a) (vpn a') d s fl t fl'"
proof -
  note U = user_invD[OF inv]
  note I = pt_invD[OF U(1)]
  have v: "vpn a < 524288" using a(1) by (simp add: vpn_def div_less_iff_less_mult)
  have n: "vpn (a + PGSIZE) = Suc (vpn a)" "a < a + PGSIZE" "unat (a + PGSIZE) mod 4096 = 0"
    using vpn_next[of a] v a by (simp_all add: word_less_nat_alt PGSIZE_def unat_add_mod)
  show ?thesis
  proof (cases "pte_at (mem s) d (vpn a)")
    case None
    let ?a = "PGADDR (PDX a + 1) 0 0 - PGSIZE + PGSIZE"
    have u: "unat ?a = (vpn a div 1024 + 1) * 4194304" by (rule next_table_vpn[OF a(1)])
    then have vn: "vpn ?a = (vpn a div 1024 + 1) * 1024" unfolding vpn_def[of ?a] by simp
    have none: "lookup (mem s) d v = None" if "vpn a \<le> v" "v < vpn ?a" for v
    proof -
      have "v div 1024 = vpn a div 1024" using that unfolding vn by (metis Suc_eq_plus1 div_le_mono le_antisym less_Suc_eq_le less_mult_imp_div_less)
      then show ?thesis using None by (auto simp: lookup_def pte_at_def split: if_splits)
    qed
    then have "cleared (vpn a) (vpn ?a) d s fl s fl" by (rule cleared_none[OF inv])
    moreover have "\<forall>v. vpn a < v \<and> v < vpn ?a \<longrightarrow> lookup (mem s) d v = None" using none by simp
    moreover have "vpn a < vpn ?a" unfolding vn by (metis Suc_eq_plus1 dividend_less_div_times mult.commute mult_Suc_right add.commute zero_less_numeral)
    moreover have "unat ?a mod 4096 = 0" unfolding u by (simp add: mod_eq_0_iff_dvd)
    moreover have "deallocuvm_step d a s = Ret ?a s"
      using None by (simp add: deallocuvm_step_def kbind_def walkpgdir_run)
    ultimately show ?thesis using next_table[OF a(1)] by (intro exI[of _ ?a] exI[of _ s] exI[of _ fl] conjI)
  next
    case (Some pte)
    have nz: "pte \<noteq> 0" by (rule pte_at_nonzero[OF U(1) Some]) (use v in simp)
    show ?thesis
    proof (cases "lookup (mem s) d (vpn a)")
      case None
      then have np: "\<not> present (read32 (mem s) pte)" using Some by (simp add: lookup_pte split: if_splits)
      then have "deallocuvm_step d a s = Ret (a + PGSIZE) s"
        using Some nz by (simp add: deallocuvm_step_def kbind_def walkpgdir_run present_def)
      moreover have "cleared (vpn a) (vpn (a + PGSIZE)) d s fl s fl"
        by (rule cleared_none[OF inv]) (use None n(1) in \<open>auto simp: less_Suc_eq\<close>)
      ultimately show ?thesis using n by (intro exI[of _ "a + PGSIZE"] exI[of _ s] exI[of _ fl] conjI) auto
    next
      case (Some e)
      have pe: "present (read32 (mem s) pte)" "read32 (mem s) pte = e"
        using Some \<open>pte_at (mem s) d (vpn a) = Some pte\<close> by (auto simp: lookup_pte split: if_splits)
      note M = unmap_one[OF inv v Some \<open>pte_at (mem s) d (vpn a) = Some pte\<close>]
      have f: "page_ok (kend s) (frame e)" "frame e \<in> user_frames (mem s) d"
        using U(3)[OF user_framesI[OF v Some]] user_framesI[OF v Some] by auto
      have "PTE_ADDR e \<noteq> 0"
      proof
        assume "PTE_ADDR e = 0"
        then have "frame e = KERNBASE" by (simp add: frame_def P2V_def)
        then show False using f(1) U(2) by (simp add: page_ok_def)
      qed
      then have "deallocuvm_step d a s = Ret (a + PGSIZE) (unmap pte (frame e) s)"
        using \<open>pte_at (mem s) d (vpn a) = Some pte\<close> nz pe M(4)[of "a + PGSIZE"]
        by (simp add: deallocuvm_step_def walkpgdir_run present_def frame_def kbind_def)
      moreover have "mem_frame s (unmap pte (frame e) s)" unfolding mem_frame_def unmap_def by (cases s) simp
      then have "cleared (vpn a) (vpn (a + PGSIZE)) d s fl (unmap pte (frame e) s) (frame e # fl)"
        unfolding cleared_def n(1) using M(1,2,3,5,6) f(2) by (auto simp: less_Suc_eq)
      ultimately show ?thesis
        using n by (intro exI[of _ "a + PGSIZE"] exI[of _ "unmap pte (frame e) s"] exI[of _ "frame e # fl"] conjI) auto
    qed
  qed
qed

lemma cleared_shrink:
  assumes "cleared v0 v1 d s fl t fl'" and "m \<le> v1" and "\<And>v. m \<le> v \<Longrightarrow> v < v1 \<Longrightarrow> lookup (mem s) d v = None"
  shows "cleared v0 m d s fl t fl'"
proof -
  have "lookup (mem t) d v = (if v0 \<le> v \<and> v < m then None else lookup (mem s) d v)" if "v < 1048576" for v
    using assms that by (cases "v < m") (auto simp: cleared_def)
  then show ?thesis using assms(1) by (simp add: cleared_def)
qed

definition pages_up :: "uint \<Rightarrow> nat" where
  "pages_up sz = (unat sz + 4095) div 4096"

lemma below_pages_up: "unat a mod 4096 = 0 \<Longrightarrow> a < sz \<longleftrightarrow> vpn a < pages_up sz"
proof -
  assume "unat a mod 4096 = 0"
  then have "unat a = vpn a * 4096" unfolding vpn_def using div_mult_mod_eq[of "unat a" 4096] by simp
  then show ?thesis unfolding word_less_nat_alt pages_up_def by (auto simp: less_eq_div_iff_mult_less_eq Suc_le_eq[symmetric])
qed

lemma deallocuvm_loop_spec:
  assumes "user_inv s fl d" and "unat a mod 4096 = 0" and "oldsz \<le> KERNBASE"
  shows "\<exists>t fl'. deallocuvm_loop d a oldsz s = Ret () t \<and> cleared (vpn a) (pages_up oldsz) d s fl t fl'"
  using assms
proof (induction d a oldsz s arbitrary: fl rule: deallocuvm_loop.induct)
  case (1 d a oldsz s)
  show ?case
  proof (cases "a < oldsz")
    case False
    then have "\<not> vpn a < pages_up oldsz" using below_pages_up[OF 1(3)] by simp
    then show ?thesis
      using False cleared_none[OF 1(2), of "vpn a" "pages_up oldsz"]
      by (intro exI[of _ s] exI[of _ fl]) (simp add: deallocuvm_loop.simps[of d a])
  next
    case True
    have lt: "unat a < 2147483648" using True 1(4) by (simp add: word_less_nat_alt word_le_nat_alt KERNBASE_def)
    obtain a' t fl' where st: "deallocuvm_step d a s = Ret a' t" "a < a'" "unat a' mod 4096 = 0" "vpn a < vpn a'"
      "\<forall>v. vpn a < v \<and> v < vpn a' \<longrightarrow> lookup (mem s) d v = None" "cleared (vpn a) (vpn a') d s fl t fl'"
      using dealloc_step_spec[OF 1(2) lt 1(3)] by (elim exE conjE)
    have inv: "user_inv t fl' d" using st(6) by (simp add: cleared_def)
    obtain u fl'' where u: "deallocuvm_loop d a' oldsz t = Ret () u" "cleared (vpn a') (pages_up oldsz) d t fl' u fl''"
      using 1(1)[OF True st(1,2) inv st(3) 1(4)] by blast
    have run: "deallocuvm_loop d a oldsz s = Ret () u"
      using True st(1,2) u(1) by (simp add: deallocuvm_loop.simps[of d a])
    have va: "vpn a < pages_up oldsz" using below_pages_up[OF 1(3)] True by simp
    show ?thesis
    proof (cases "vpn a' \<le> pages_up oldsz")
      case True
      then show ?thesis using run cleared_trans[OF st(6) u(2)] st(4) by auto
    next
      case False
      then have "\<not> a' < oldsz" using below_pages_up[OF st(3)] by simp
      then have "u = t" using u(1) by (simp add: deallocuvm_loop.simps[of d a'])
      moreover have "cleared (vpn a) (pages_up oldsz) d s fl t fl'"
        by (rule cleared_shrink[OF st(6)]) (use False st(5) va in auto)
      ultimately show ?thesis using run by blast
    qed
  qed
qed

lemma deallocuvm_spec:
  assumes "user_inv s fl d" and "oldsz \<le> KERNBASE" and "newsz < oldsz"
  shows "\<exists>t fl'. deallocuvm d oldsz newsz s = Ret newsz t \<and> cleared (pages_up newsz) (pages_up oldsz) d s fl t fl'"
proof -
  have "unat newsz \<le> 2 ^ 32 - 4096" using assms(2,3) by (simp add: word_less_nat_alt word_le_nat_alt KERNBASE_def)
  then have u: "unat (PGROUNDUP newsz) = pages_up newsz * 4096" using unat_PGROUNDUP by (simp add: pages_up_def)
  then have "vpn (PGROUNDUP newsz) = pages_up newsz" "unat (PGROUNDUP newsz) mod 4096 = 0" by (simp_all add: vpn_def)
  then show ?thesis
    using deallocuvm_loop_spec[OF assms(1) _ assms(2), of "PGROUNDUP newsz"] assms(3)
    by (auto simp: deallocuvm_def kbind_def)
qed

subsection \<open>Freeing an address space\<close>

definition tables_below :: "memory \<Rightarrow> uint \<Rightarrow> nat \<Rightarrow> uint set" where
  "tables_below m d k = {frame (pde m d i) | i. i < k \<and> present (pde m d i)}"

lemma tables_below_Suc:
  "tables_below m d (Suc k) = (if present (pde m d k) then insert (frame (pde m d k)) (tables_below m d k) else tables_below m d k)"
  by (auto simp: tables_below_def less_Suc_eq)

lemma free_tables:
  assumes inv: "pt_inv s fl d"
  shows "ok (kfor [0..<1024] (\<lambda>i. kbind (kget (\<lambda>s. read32 (mem s) (d + 4 * of_nat i))) (\<lambda>e.
      kwhen (e AND PTE_P \<noteq> 0) (kfree (P2V (PTE_ADDR e)))))) s
    (\<lambda>_ t. mem_frame s t \<and> (\<exists>fl'. kmem_inv t fl' \<and> set fl' = set fl \<union> tables (mem s) d))"
proof -
  note I = pt_invD[OF inv]
  let ?J = "\<lambda>k t. mem_frame s t \<and> (\<forall>i<1024. pde (mem t) d i = pde (mem s) d i) \<and>
    (\<exists>fl'. kmem_inv t fl' \<and> set fl' = set fl \<union> tables_below (mem s) d k)"
  have "ok (kfor [0..<1024] (\<lambda>i. kbind (kget (\<lambda>s. read32 (mem s) (d + 4 * of_nat i))) (\<lambda>e.
      kwhen (e AND PTE_P \<noteq> 0) (kfree (P2V (PTE_ADDR e)))))) s (\<lambda>_. ?J (length [0..<1024]))"
  proof (rule ok_kfor)
    show "?J 0 s" using I(1) by (auto simp: tables_below_def)
    fix k t
    assume "k < length [0..<1024]" and J: "?J k t"
    then have k: "k < 1024" by simp
    obtain fl' where fl': "kmem_inv t fl'" "set fl' = set fl \<union> tables_below (mem s) d k" using J by blast
    have e: "read32 (mem t) (d + 4 * of_nat k) = pde (mem s) d k" using J k by (simp add: pde_def entry_def)
    have kend: "kend t = kend s" using J unfolding mem_frame_def by (cases s) (metis mach.select_convs(4) mach.update_convs(1,2))
    let ?f = "frame (pde (mem s) d k)" and ?u = "t\<lparr>mem := kfree_mem (mem t) (frame (pde (mem s) d k)) (freelist t), freelist := frame (pde (mem s) d k)\<rparr>"
    show "ok (kbind (kget (\<lambda>s. read32 (mem s) (d + 4 * of_nat ([0..<1024] ! k)))) (\<lambda>e.
      kwhen (e AND PTE_P \<noteq> 0) (kfree (P2V (PTE_ADDR e))))) t (\<lambda>_. ?J (Suc k))"
    proof (cases "present (pde (mem s) d k)")
      case False
      then show ?thesis using J e k by (simp add: ok_def tables_below_Suc present_def)
    next
      case True
      note T = I(4)[OF k True] I(5)[OF k True] I(6)[OF k True]
      have nin: "?f \<notin> set fl'"
      proof
        assume "?f \<in> set fl'"
        then obtain i where i: "i < k" "present (pde (mem s) d i)" "?f = frame (pde (mem s) d i)"
          using T(3) unfolding fl'(2) tables_below_def by blast
        then show False using I(7)[of k i] True k by simp
      qed
      have run: "kfree ?f t = Ret () ?u" by (rule kfree_run) (use T(1) kend in simp)
      have "kmem_inv ?u (?f # fl')" by (rule kfree_inv[OF fl'(1) _ nin]) (use T(1) kend in simp)
      moreover have "mem_frame s ?u" using J unfolding mem_frame_def by (cases s; cases t) simp
      moreover have so: "same_outside {?f} (mem t) (mem ?u)" by (simp add: same_outside_def kfree_mem_outside)
      have "pde (mem ?u) d i = pde (mem s) d i" if "i < 1024" for i
        using read_other_page[OF so I(2) _ _ that] T J that by (auto simp: pde_def)
      ultimately have "?J (Suc k) ?u"
        using fl'(2) True by (auto simp: tables_below_Suc intro!: exI[of _ "?f # fl'"])
      then show ?thesis using run True e k by (simp add: ok_def kbind_def present_def frame_def)
    qed
  qed
  then show ?thesis by (rule ok_mono) (auto simp: tables_below_def tables_def)
qed

lemma freevm_spec:
  assumes inv: "user_inv s fl d"
  shows "\<exists>t fl'. freevm d s = Ret () t \<and> mem_frame s t \<and> kmem_inv t fl' \<and>
    set fl' = set fl \<union> user_frames (mem s) d \<union> tables (mem s) d \<union> {d}"
proof -
  obtain t fl1 where t: "deallocuvm d KERNBASE 0 s = Ret 0 t" "cleared (pages_up 0) (pages_up KERNBASE) d s fl t fl1"
    using deallocuvm_spec[OF inv, of KERNBASE 0] by (auto simp: KERNBASE_def)
  then have all: "lookup (mem t) d v = None" if "v < 524288" for v
    using that by (simp add: cleared_def pages_up_def KERNBASE_def)
  then have "user_frames (mem t) d = {}" by (auto simp: user_frames_def)
  then have fl1: "set fl1 = set fl \<union> user_frames (mem s) d" and tb: "tables (mem t) d = tables (mem s) d"
    and st: "mem_frame s t" and tinv: "user_inv t fl1 d"
    using t(2) by (auto simp: cleared_def)
  note T = user_invD(1)[OF tinv]
  obtain u fl2 where u: "kfor [0..<1024] (\<lambda>i. kbind (kget (\<lambda>s. read32 (mem s) (d + 4 * of_nat i))) (\<lambda>e.
      kwhen (e AND PTE_P \<noteq> 0) (kfree (P2V (PTE_ADDR e))))) t = Ret () u"
    "mem_frame t u" "kmem_inv u fl2" "set fl2 = set fl1 \<union> tables (mem t) d"
    using free_tables[OF T] by (auto simp: ok_def)
  have kend: "kend u = kend t" using u(2) unfolding mem_frame_def by (cases t) (metis mach.select_convs(4) mach.update_convs(1,2))
  have d: "page_ok (kend u) d" "d \<notin> set fl2" "d \<noteq> 0"
    using pt_invD(2,3)[OF T] tables_ok(2)[OF T] page_ok_nonzero u(4) kend by auto
  have "kfree d u = Ret () (u\<lparr>mem := kfree_mem (mem u) d (freelist u), freelist := d\<rparr>)" by (rule kfree_run[OF d(1)])
  moreover have "kmem_inv (u\<lparr>mem := kfree_mem (mem u) d (freelist u), freelist := d\<rparr>) (d # fl2)"
    by (rule kfree_inv[OF u(3) d(1,2)])
  moreover have "mem_frame s (u\<lparr>mem := kfree_mem (mem u) d (freelist u), freelist := d\<rparr>)"
    using mem_frame_trans[OF st u(2)] unfolding mem_frame_def by (cases s; cases u) simp
  ultimately show ?thesis
    using t(1) u(1,4) fl1 tb d(3) by (intro exI conjI) (auto simp: freevm_def kbind_def)
qed

subsection \<open>Growing an address space\<close>

definition zero_page :: "memory \<Rightarrow> uint \<Rightarrow> bool" where
  "zero_page m p \<longleftrightarrow> (\<forall>x. in_page p x \<longrightarrow> m x = 0)"

lemma mem_frame_kend: "mem_frame s t \<Longrightarrow> kend t = kend s"
  unfolding mem_frame_def by (cases s) (metis mach.select_convs(4) mach.update_convs(1,2))

lemma frames_none:
  "(\<And>v. v < 1048576 \<Longrightarrow> lookup m' d v = lookup m d v) \<Longrightarrow> user_frames m' d = user_frames m d"
proof -
  assume "\<And>v. v < 1048576 \<Longrightarrow> lookup m' d v = lookup m d v"
  then have "lookup m' d v = lookup m d v" if "v < 524288" for v using that by simp
  then show ?thesis unfolding user_frames_def by (metis (no_types, lifting))
qed

text \<open>
  \<open>extra\<close> is a page that is neither free nor used yet. After a \<open>pt_step\<close> that mapped nothing the invariant
  holds again, and after one that mapped a page to \<open>p\<close> it holds with \<open>p\<close> as a new frame.
\<close>

definition spare :: "uint \<Rightarrow> 'z mach_scheme \<Rightarrow> uint list \<Rightarrow> uint \<Rightarrow> bool" where
  "spare p s fl d \<longleftrightarrow> page_ok (kend s) p \<and> p \<noteq> d \<and> p \<notin> set fl \<and> p \<notin> tables (mem s) d \<and> p \<notin> user_frames (mem s) d"

lemma pt_step_pages:
  assumes "pt_step d s fl t fl'"
  shows "set fl' \<subseteq> set fl" "tables (mem t) d \<subseteq> tables (mem s) d \<union> set fl"
    "set fl' \<union> tables (mem t) d = set fl \<union> tables (mem s) d" "kend t = kend s"
  using assms mem_frame_kend[of s t] by (auto simp: pt_step_def)

lemma user_inv_pt_step:
  assumes inv: "user_inv s fl d" and st: "pt_step d s fl t fl'"
    and lk: "\<And>v. v < 1048576 \<Longrightarrow> lookup (mem t) d v = lookup (mem s) d v"
  shows "user_inv t fl' d"
proof -
  note P = pt_step_pages[OF st] and U = user_invD[OF inv]
  have fr: "user_frames (mem t) d = user_frames (mem s) d" by (rule frames_none[OF lk])
  have "pt_inv t fl' d" using st by (simp add: pt_step_def)
  moreover have "page_ok (kend t) f \<and> f \<noteq> d \<and> f \<notin> tables (mem t) d \<and> f \<notin> set fl'" if "f \<in> user_frames (mem t) d" for f
    using U(3)[of f] that P unfolding fr by auto
  moreover have "v = w" if "v < 524288" "w < 524288" "lookup (mem t) d v = Some e" "lookup (mem t) d w = Some f" "frame e = frame f" for v w e f
  proof -
    have "lookup (mem s) d v = Some e" "lookup (mem s) d w = Some f" using lk[of v] lk[of w] that by simp_all
    then show ?thesis by (rule U(4)[OF that(1,2) _ _ that(5)])
  qed
  ultimately show ?thesis unfolding user_inv_def using U(2) P(4) by auto
qed

lemma user_inv_map:
  assumes inv: "user_inv s fl d" and sp: "spare p s fl d" and st: "pt_step d s fl t fl'"
    and v0: "v0 < 524288" "lookup (mem s) d v0 = None" and e: "frame e = p"
    and lk: "\<And>v. v < 1048576 \<Longrightarrow> lookup (mem t) d v = (if v = v0 then Some e else lookup (mem s) d v)"
  shows "user_inv t fl' d" and "user_frames (mem t) d = insert p (user_frames (mem s) d)"
proof -
  note P = pt_step_pages[OF st] and U = user_invD[OF inv]
  have lt: "v < 1048576" if "v < 524288" for v :: nat using that by simp
  show fr: "user_frames (mem t) d = insert p (user_frames (mem s) d)"
  proof (intro equalityI subsetI)
    fix f
    assume "f \<in> user_frames (mem t) d"
    then obtain v x where x: "v < 524288" "lookup (mem t) d v = Some x" "f = frame x" unfolding user_frames_def by blast
    then show "f \<in> insert p (user_frames (mem s) d)"
      using lk[OF lt[OF x(1)]] e user_framesI[OF x(1), of "mem s" d x] by (auto split: if_splits)
  next
    fix f
    assume f: "f \<in> insert p (user_frames (mem s) d)"
    show "f \<in> user_frames (mem t) d"
    proof (cases "f = p")
      case True
      then show ?thesis using user_framesI[OF v0(1), of "mem t" d e] lk[OF lt[OF v0(1)]] e by simp
    next
      case False
      then obtain v x where x: "v < 524288" "lookup (mem s) d v = Some x" "f = frame x" using f unfolding user_frames_def by blast
      then have "v \<noteq> v0" using v0(2) by auto
      then show ?thesis using user_framesI[OF x(1), of "mem t" d x] lk[OF lt[OF x(1)]] x by simp
    qed
  qed
  have "page_ok (kend t) f \<and> f \<noteq> d \<and> f \<notin> tables (mem t) d \<and> f \<notin> set fl'" if "f \<in> user_frames (mem t) d" for f
    using U(3)[of f] sp that P unfolding fr spare_def by auto
  moreover have "v = w" if vw: "v < 524288" "w < 524288" "lookup (mem t) d v = Some x" "lookup (mem t) d w = Some y" "frame x = frame y" for v w x y
  proof (cases "v = v0 \<or> w = v0")
    case True
    have "p \<notin> user_frames (mem s) d" using sp by (simp add: spare_def)
    then show ?thesis
      using True vw lk[OF lt[OF vw(1)]] lk[OF lt[OF vw(2)]] e user_framesI[OF vw(1), of "mem s" d x] user_framesI[OF vw(2), of "mem s" d y]
      by (auto split: if_splits)
  next
    case False
    then have "lookup (mem s) d v = Some x" "lookup (mem s) d w = Some y"
      using vw lk[OF lt[OF vw(1)]] lk[OF lt[OF vw(2)]] by simp_all
    then show ?thesis by (rule U(4)[OF vw(1,2) _ _ vw(5)])
  qed
  moreover have "pt_inv t fl' d" using st by (simp add: pt_step_def)
  ultimately show "user_inv t fl' d" unfolding user_inv_def using U(2) P(4) by auto
qed

lemma take_page:
  assumes inv: "user_inv s (p # fl) d"
  defines "t \<equiv> s\<lparr>freelist := read32 (mem s) p, mem := fill (mem s) p 0 4096\<rparr>"
  shows "user_inv t fl d" and "spare p t fl d" and "zero_page (mem t) p" and "same_outside {p} (mem s) (mem t)"
    and "v < 1048576 \<Longrightarrow> lookup (mem t) d v = lookup (mem s) d v" and "tables (mem t) d = tables (mem s) d"
    and "user_frames (mem t) d = user_frames (mem s) d" and "mem_frame s t" and "kalloc s = Ret p (s\<lparr>freelist := read32 (mem s) p\<rparr>)"
    and "p \<noteq> 0"
proof -
  note U = user_invD[OF inv]
  note I = pt_invD[OF U(1)]
  have p: "page_ok (kend s) p" "p \<noteq> d" "p \<notin> set fl" "p \<notin> tables (mem s) d" "p \<notin> user_frames (mem s) d"
    using I(1,3,8) tables_ok(3)[OF U(1)] U(3) by (auto simp: kmem_inv_def)
  show so: "same_outside {p} (mem s) (mem t)" by (simp add: t_def same_outside_def fill_outside)
  note L = lookup_outside[OF U(1) so]
  have P: "\<forall>q \<in> {p}. page_ok (kend s) q \<and> q \<noteq> d \<and> q \<notin> tables (mem s) d" using p by simp
  show lk: "lookup (mem t) d v = lookup (mem s) d v" if "v < 1048576" for v by (rule L(3)[OF P that])
  show tb: "tables (mem t) d = tables (mem s) d" by (rule L(2)[OF P])
  show fr: "user_frames (mem t) d = user_frames (mem s) d" by (rule frames_none[OF lk])
  show "mem_frame s t" unfolding mem_frame_def t_def by (cases s) simp
  show "zero_page (mem t) p" by (simp add: zero_page_def t_def fill_def in_page_def)
  show "p \<noteq> 0" using p(1) page_ok_nonzero by blast
  show "kalloc s = Ret p (s\<lparr>freelist := read32 (mem s) p\<rparr>)" by (rule kalloc_Cons(1)[OF I(1)])
  have "kmem_inv (s\<lparr>freelist := read32 (mem s) p\<rparr>) fl" by (rule kalloc_Cons(2)[OF I(1)])
  then have "kmem_inv t fl" by (rule kmem_inv_outside[where P = "{p}"]) (use so p in \<open>simp_all add: t_def\<close>)
  moreover have ke: "kend t = kend s" by (simp add: t_def)
  moreover have "pde (mem t) d i = pde (mem s) d i" if "i < 1024" for i by (rule L(1)[OF P that])
  ultimately have "pt_inv t fl d" unfolding pt_inv_def using I by auto
  moreover have "v = w" if "v < 524288" "w < 524288" "lookup (mem t) d v = Some e" "lookup (mem t) d w = Some f" "frame e = frame f" for v w e f
  proof -
    have "lookup (mem s) d v = Some e" "lookup (mem s) d w = Some f" using lk[of v] lk[of w] that by simp_all
    then show ?thesis by (rule U(4)[OF that(1,2) _ _ that(5)])
  qed
  ultimately show "user_inv t fl d" unfolding user_inv_def fr tb ke using U(2,3) by auto
  show "spare p t fl d" unfolding spare_def fr tb ke using p by simp
qed

lemma map_page:
  assumes inv: "user_inv s fl d" and sp: "spare p s fl d" and a: "unat a mod 4096 = 0" "vpn a < 524288"
    and free: "lookup (mem s) d (vpn a) = None" and perm: "perm AND NOT 0xFFF = 0"
  shows "\<exists>t fl'. pt_step d s fl t fl' \<and>
    (mappages d a PGSIZE (V2P p) perm s = Ret 0 t \<and> user_inv t fl' d \<and> user_frames (mem t) d = insert p (user_frames (mem s) d) \<and>
       (\<forall>v<1048576. lookup (mem t) d v = (if v = vpn a then Some (V2P p OR perm OR PTE_P) else lookup (mem s) d v)) \<or>
     mappages d a PGSIZE (V2P p) perm s = Ret (- 1) t \<and> fl' = [] \<and> user_inv t fl' d \<and> spare p t fl' d \<and>
       (\<forall>v<1048576. lookup (mem t) d v = lookup (mem s) d v))"
proof -
  have ua: "unat a = vpn a * 4096" unfolding vpn_def using a(1) div_mult_mod_eq[of "unat a" 4096] by simp
  have l: "last_vpn a PGSIZE = vpn a" by (simp add: last_vpn_def PGSIZE_def ua)
  have fr: "\<forall>v. vpn a \<le> v \<and> v \<le> last_vpn a PGSIZE \<longrightarrow> lookup (mem s) d v = None"
    unfolding l using free by (metis le_antisym)
  have sz: "0 < unat PGSIZE" "unat a + unat PGSIZE \<le> 2 ^ 32" using a(2) by (simp_all add: PGSIZE_def ua)
  obtain k t fl' where k: "pt_step d s fl t fl'" "k \<le> 1" "k < 1 \<longrightarrow> fl' = []"
    "\<forall>v<1048576. lookup (mem t) d v = mapped_from (vpn a) k (V2P p) perm (lookup (mem s) d) v"
    "mappages d a PGSIZE (V2P p) perm s = Ret (if k = 1 then 0 else - 1) t"
    using mappages_spec[OF user_invD(1)[OF inv] sz fr, of "V2P p" perm] unfolding l by auto
  show ?thesis
  proof (cases "k = 1")
    case True
    let ?e = "V2P p OR perm OR PTE_P"
    have lk: "lookup (mem t) d v = (if v = vpn a then Some ?e else lookup (mem s) d v)" if "v < 1048576" for v
      using k(4) that True by (auto simp: mapped_from_def)
    have "(perm OR PTE_P) AND NOT 0xFFF = 0" using perm by (simp add: bit.conj_disj_distrib2 PTE_P_def)
    then have "frame ?e = p" using frame_or[of "kend s" p "perm OR PTE_P"] sp by (simp add: spare_def)
    note M = user_inv_map[OF inv sp k(1) a(2) free this lk]
    show ?thesis using k(1,5) True M lk by (intro exI[of _ t] exI[of _ fl']) auto
  next
    case False
    then have "k = 0" using k(2) by simp
    then have lk: "lookup (mem t) d v = lookup (mem s) d v" if "v < 1048576" for v using k(4) that by simp
    have "user_inv t fl' d" by (rule user_inv_pt_step[OF inv k(1) lk])
    moreover have "spare p t fl' d" using sp pt_step_pages[OF k(1)] frames_none[OF lk] by (auto simp: spare_def)
    ultimately show ?thesis using k False lk by (intro exI[of _ t] exI[of _ fl']) auto
  qed
qed

text \<open>
  \<open>grown v0 v1 d s fl t fl'\<close>: the pages from \<open>v0\<close> up to \<open>v1\<close> are now mapped, writable for the user, to pages of
  the free list that hold zeros; all else is as it was.
\<close>

definition pages_of :: "'z mach_scheme \<Rightarrow> uint list \<Rightarrow> uint \<Rightarrow> uint set" where
  "pages_of s fl d = set fl \<union> tables (mem s) d \<union> user_frames (mem s) d"

definition frames_kept :: "uint \<Rightarrow> memory \<Rightarrow> memory \<Rightarrow> bool" where
  "frames_kept d m m' \<longleftrightarrow> (\<forall>f \<in> user_frames m d. \<forall>x. in_page f x \<longrightarrow> m' x = m x)"

definition grown :: "nat \<Rightarrow> nat \<Rightarrow> uint \<Rightarrow> 'z mach_scheme \<Rightarrow> uint list \<Rightarrow> 'z mach_scheme \<Rightarrow> uint list \<Rightarrow> bool" where
  "grown v0 v1 d s fl t fl' \<longleftrightarrow>
     user_inv t fl' d \<and> mem_frame s t \<and> pages_of t fl' d = pages_of s fl d \<and> frames_kept d (mem s) (mem t) \<and> set fl' \<subseteq> set fl \<and>
     user_frames (mem s) d \<subseteq> user_frames (mem t) d \<and>
     (\<forall>v<1048576. if v0 \<le> v \<and> v < v1
        then \<exists>p \<in> set fl. lookup (mem t) d v = Some (V2P p OR (PTE_W OR PTE_U) OR PTE_P) \<and> zero_page (mem t) p
        else lookup (mem t) d v = lookup (mem s) d v)"

lemma frames_kept_outside:
  assumes inv: "user_inv s fl d" and so: "same_outside P (mem s) m"
    and P: "\<forall>p \<in> P. page_ok (kend s) p \<and> p \<notin> user_frames (mem s) d"
  shows "frames_kept d (mem s) m"
  unfolding frames_kept_def
proof (intro ballI allI impI)
  fix f x
  assume f: "f \<in> user_frames (mem s) d" and x: "in_page f x"
  have "\<not> in_page p x" if "p \<in> P" for p
    using in_page_disjoint[of "kend s" f p x] user_invD(3)[OF inv f] P that x f by metis
  then show "m x = mem s x" using so by (simp add: same_outside_def)
qed

lemma grow_one:
  assumes inv: "user_inv s (p # fl) d" and a: "unat a mod 4096 = 0" "vpn a < 524288" and free: "lookup (mem s) d (vpn a) = None"
  defines "t \<equiv> s\<lparr>freelist := read32 (mem s) p, mem := fill (mem s) p 0 4096\<rparr>"
  shows "\<exists>u fl'. mappages d a PGSIZE (V2P p) (PTE_W OR PTE_U) t = Ret 0 u \<and> grown (vpn a) (Suc (vpn a)) d s (p # fl) u fl' \<or>
    mappages d a PGSIZE (V2P p) (PTE_W OR PTE_U) t = Ret (- 1) u \<and> user_inv u fl' d \<and> spare p u fl' d \<and> mem_frame s u \<and>
      insert p (pages_of u fl' d) = pages_of s (p # fl) d \<and> frames_kept d (mem s) (mem u) \<and>
      user_frames (mem u) d = user_frames (mem s) d \<and> (\<forall>v<1048576. lookup (mem u) d v = lookup (mem s) d v)"
proof -
  note T = take_page[OF inv, folded t_def]
  note U = user_invD[OF inv]
  have fl: "(PTE_W OR PTE_U) AND NOT 0xFFF = 0" by (simp add: PTE_W_def PTE_U_def)
  have ft: "lookup (mem t) d (vpn a) = None" using T(5) free a(2) by simp
  obtain u fl' where u: "pt_step d t fl u fl'"
    "mappages d a PGSIZE (V2P p) (PTE_W OR PTE_U) t = Ret 0 u \<and> user_inv u fl' d \<and> user_frames (mem u) d = insert p (user_frames (mem t) d) \<and>
       (\<forall>v<1048576. lookup (mem u) d v = (if v = vpn a then Some (V2P p OR (PTE_W OR PTE_U) OR PTE_P) else lookup (mem t) d v)) \<or>
     mappages d a PGSIZE (V2P p) (PTE_W OR PTE_U) t = Ret (- 1) u \<and> fl' = [] \<and> user_inv u fl' d \<and> spare p u fl' d \<and>
       (\<forall>v<1048576. lookup (mem u) d v = lookup (mem t) d v)"
    using map_page[OF T(1,2) a ft fl] by blast
  note P = pt_step_pages[OF u(1)]
  have so: "same_outside (insert d (tables (mem u) d)) (mem t) (mem u)" and fr: "mem_frame s u"
    using u(1) mem_frame_trans[OF T(8)] by (auto simp: pt_step_def)
  have ps: "page_ok (kend s) q" if "q \<in> insert p (insert d (tables (mem u) d))" for q
    using that P(2) T(6) pt_invD(2,8)[OF U(1)] tables_ok(1)[OF U(1)] by auto
  have nf: "q \<notin> user_frames (mem s) d" if "q \<in> insert p (insert d (tables (mem u) d))" for q
    using that P(2) T(6) U(3)[of q] by auto
  have "same_outside (insert p (insert d (tables (mem u) d))) (mem s) (mem u)"
    by (rule same_outside_trans[OF T(4) so]) auto
  then have kept: "frames_kept d (mem s) (mem u)" by (rule frames_kept_outside[OF inv]) (use ps nf in blast)
  from u(2) show ?thesis
  proof (elim disjE conjE)
    assume m: "mappages d a PGSIZE (V2P p) (PTE_W OR PTE_U) t = Ret 0 u" "user_inv u fl' d"
      "user_frames (mem u) d = insert p (user_frames (mem t) d)"
      "\<forall>v<1048576. lookup (mem u) d v = (if v = vpn a then Some (V2P p OR (PTE_W OR PTE_U) OR PTE_P) else lookup (mem t) d v)"
    have "zero_page (mem u) p"
      unfolding zero_page_def
    proof (intro allI impI)
      fix x
      assume x: "in_page p x"
      have "\<not> in_page q x" if "q \<in> insert d (tables (mem u) d)" for q
      proof (rule in_page_disjoint[OF _ _ _ x])
        show "page_ok (kend s) p" "page_ok (kend s) q" using ps that by auto
        show "p \<noteq> q" using that P(2) T(2) by (auto simp: spare_def)
      qed
      then show "mem u x = 0" using so T(3) x by (auto simp: same_outside_def zero_page_def)
    qed
    then have "grown (vpn a) (Suc (vpn a)) d s (p # fl) u fl'"
      unfolding grown_def pages_of_def using m fr kept P(1,3) T(5,6,7) by (auto simp: less_Suc_eq)
    then show ?thesis using m(1) by blast
  next
    assume m: "mappages d a PGSIZE (V2P p) (PTE_W OR PTE_U) t = Ret (- 1) u" "user_inv u fl' d" "spare p u fl' d"
      "\<forall>v<1048576. lookup (mem u) d v = lookup (mem t) d v"
    have uf: "user_frames (mem u) d = user_frames (mem s) d" using frames_none[of "mem u" d "mem t"] m(4) T(7) by simp
    then have "insert p (pages_of u fl' d) = pages_of s (p # fl) d"
      unfolding pages_of_def using P(3) T(6) by auto
    then show ?thesis using m fr kept uf T(5) by auto
  qed
qed

lemma grown_trans:
  assumes g: "grown v0 v1 d s fl t fl'" and h: "grown v1 v2 d t fl' u fl''" and le: "v0 \<le> v1" "v1 \<le> v2" "v1 \<le> 524288"
    and inv: "user_inv s fl d"
  shows "grown v0 v2 d s fl u fl''"
proof -
  have fr: "mem_frame s u" using g h mem_frame_trans by (auto simp: grown_def)
  have kept: "frames_kept d (mem s) (mem u)"
    using g h unfolding grown_def frames_kept_def by (metis subsetD)
  have "if v0 \<le> v \<and> v < v2 then \<exists>p \<in> set fl. lookup (mem u) d v = Some (V2P p OR (PTE_W OR PTE_U) OR PTE_P) \<and> zero_page (mem u) p
      else lookup (mem u) d v = lookup (mem s) d v" if v: "v < 1048576" for v
  proof (cases "v0 \<le> v \<and> v < v1")
    case True
    then obtain p where p: "p \<in> set fl" "lookup (mem t) d v = Some (V2P p OR (PTE_W OR PTE_U) OR PTE_P)" "zero_page (mem t) p"
      using g v unfolding grown_def by metis
    have "frame (V2P p OR (PTE_W OR PTE_U OR PTE_P)) = p"
      by (rule frame_or[OF pt_invD(8)[OF user_invD(1)[OF inv] p(1)]]) (simp add: PTE_W_def PTE_U_def PTE_P_def)
    then have "p \<in> user_frames (mem t) d" using user_framesI[of v "mem t" d] p(2) True le(3) by (simp add: or.assoc)
    then have "zero_page (mem u) p" using h p(3) by (auto simp: grown_def frames_kept_def zero_page_def)
    moreover have "lookup (mem u) d v = lookup (mem t) d v" using h v True unfolding grown_def by (metis leD)
    ultimately show ?thesis using p True le(2) by auto
  next
    case False
    then have t: "lookup (mem t) d v = lookup (mem s) d v" using g v unfolding grown_def by metis
    show ?thesis
    proof (cases "v1 \<le> v \<and> v < v2")
      case True
      then obtain p where "p \<in> set fl'" "lookup (mem u) d v = Some (V2P p OR (PTE_W OR PTE_U) OR PTE_P)" "zero_page (mem u) p"
        using h v unfolding grown_def by metis
      then show ?thesis using True le(1) g by (auto simp: grown_def)
    next
      case F: False
      then have "lookup (mem u) d v = lookup (mem s) d v" using h v t unfolding grown_def by metis
      then show ?thesis using F False by auto
    qed
  qed
  then show ?thesis using g h fr kept unfolding grown_def by blast
qed

definition restored :: "uint \<Rightarrow> 'z mach_scheme \<Rightarrow> uint list \<Rightarrow> 'z mach_scheme \<Rightarrow> uint list \<Rightarrow> bool" where
  "restored d s fl t fl' \<longleftrightarrow>
     user_inv t fl' d \<and> mem_frame s t \<and> pages_of t fl' d = pages_of s fl d \<and> frames_kept d (mem s) (mem t) \<and>
     (\<forall>v<1048576. lookup (mem t) d v = lookup (mem s) d v)"

lemma restored_dealloc:
  assumes inv: "user_inv s fl d"
    and t: "user_inv t fl' d" "mem_frame s t" "frames_kept d (mem s) (mem t)"
      "\<forall>v<1048576. \<not> (v0 \<le> v \<and> v < v1) \<longrightarrow> lookup (mem t) d v = lookup (mem s) d v"
    and none: "\<forall>v. v0 \<le> v \<and> v < v1 \<longrightarrow> lookup (mem s) d v = None"
    and c: "cleared v0 v1 d t fl' u fl''"
  shows "user_inv u fl'' d \<and> mem_frame s u \<and> pages_of u fl'' d = pages_of t fl' d \<and> frames_kept d (mem s) (mem u) \<and>
     (\<forall>v<1048576. lookup (mem u) d v = lookup (mem s) d v)"
proof -
  have lk: "\<forall>v<1048576. lookup (mem u) d v = lookup (mem s) d v" using c t(4) none by (simp add: cleared_def)
  then have uf: "user_frames (mem u) d = user_frames (mem s) d" using frames_none[of "mem u" d "mem s"] by simp
  have "frames_kept d (mem s) (mem u)"
    using c t(3) uf by (auto simp: frames_kept_def cleared_def)
  moreover have "pages_of u fl'' d = pages_of t fl' d" using c by (auto simp: pages_of_def cleared_def)
  moreover have "mem_frame s u" using c t(2) mem_frame_trans by (auto simp: cleared_def)
  ultimately show ?thesis using lk c by (simp add: cleared_def)
qed

lemma free_spare:
  assumes inv: "user_inv s fl d" and sp: "spare p s fl d"
  shows "\<exists>t. kfree p s = Ret () t \<and> user_inv t (p # fl) d \<and> mem_frame s t \<and> frames_kept d (mem s) (mem t) \<and>
    pages_of t (p # fl) d = insert p (pages_of s fl d) \<and> (\<forall>v<1048576. lookup (mem t) d v = lookup (mem s) d v)"
proof -
  note U = user_invD[OF inv]
  note I = pt_invD[OF U(1)]
  have p: "page_ok (kend s) p" "p \<noteq> d" "p \<notin> set fl" "p \<notin> tables (mem s) d" "p \<notin> user_frames (mem s) d"
    using sp by (simp_all add: spare_def)
  let ?t = "s\<lparr>mem := kfree_mem (mem s) p (freelist s), freelist := p\<rparr>"
  have so: "same_outside {p} (mem s) (mem ?t)" by (simp add: same_outside_def kfree_mem_outside)
  note L = lookup_outside[OF U(1) so]
  have P: "\<forall>q \<in> {p}. page_ok (kend s) q \<and> q \<noteq> d \<and> q \<notin> tables (mem s) d" using p by simp
  have lk: "lookup (mem ?t) d v = lookup (mem s) d v" if "v < 1048576" for v by (rule L(3)[OF P that])
  have tb: "tables (mem ?t) d = tables (mem s) d" by (rule L(2)[OF P])
  have fr: "user_frames (mem ?t) d = user_frames (mem s) d" by (rule frames_none[OF lk])
  have pd: "pde (mem ?t) d i = pde (mem s) d i" if "i < 1024" for i by (rule L(1)[OF P that])
  have np: "frame (pde (mem s) d i) \<noteq> p" if "i < 1024" "present (pde (mem s) d i)" for i
    using p(4) that by (auto simp: tables_def)
  have "kmem_inv ?t (p # fl)" by (rule kfree_inv[OF I(1) p(1,3)])
  then have "pt_inv ?t (p # fl) d" unfolding pt_inv_def using I pd p(2) np by auto
  moreover have "v = w" if "v < 524288" "w < 524288" "lookup (mem ?t) d v = Some e" "lookup (mem ?t) d w = Some f" "frame e = frame f" for v w e f
  proof -
    have "lookup (mem s) d v = Some e" "lookup (mem s) d w = Some f" using lk[of v] lk[of w] that by simp_all
    then show ?thesis by (rule U(4)[OF that(1,2) _ _ that(5)])
  qed
  ultimately have "user_inv ?t (p # fl) d" unfolding user_inv_def fr tb using U(2,3) p(5) by auto
  moreover have "mem_frame s ?t" unfolding mem_frame_def by (cases s) simp
  moreover have "frames_kept d (mem s) (mem ?t)" by (rule frames_kept_outside[OF inv so]) (use p in simp)
  moreover have "pages_of ?t (p # fl) d = insert p (pages_of s fl d)" unfolding pages_of_def fr tb by simp
  ultimately show ?thesis using kfree_run[OF p(1)] lk by (intro exI[of _ ?t]) simp
qed

lemma allocuvm_loop_spec:
  assumes inv0: "user_inv s0 fl0 d" and sz: "newsz < KERNBASE" "oldsz < newsz"
    and none: "\<forall>v. pages_up oldsz \<le> v \<and> v < pages_up newsz \<longrightarrow> lookup (mem s0) d v = None"
    and g: "grown (pages_up oldsz) (vpn a) d s0 fl0 s fl" and a: "unat a mod 4096 = 0"
      "pages_up oldsz \<le> vpn a" "vpn a + n = pages_up newsz"
  shows "\<exists>t fl'. allocuvm_loop (map (\<lambda>i. a + of_nat (4096 * i)) [0..<n]) d oldsz newsz s = Ret newsz t \<and>
      grown (pages_up oldsz) (pages_up newsz) d s0 fl0 t fl' \<or>
    allocuvm_loop (map (\<lambda>i. a + of_nat (4096 * i)) [0..<n]) d oldsz newsz s = Ret 0 t \<and> restored d s0 fl0 t fl'"
  using g a
proof (induction n arbitrary: a s fl)
  case 0
  then show ?case by (intro exI[of _ s] exI[of _ fl]) simp
next
  case (Suc n)
  let ?P = "pages_up oldsz" and ?Q = "pages_up newsz"
  have Q: "?Q \<le> 524288" using sz(1) by (simp add: pages_up_def KERNBASE_def word_less_nat_alt)
  have inv: "user_inv s fl d" using Suc.prems(1) by (simp add: grown_def)
  have va: "vpn a < 524288" using Suc.prems(4) Q by simp
  have rest: "map (\<lambda>i. a + of_nat (4096 * i)) [0..<Suc n] = a # map (\<lambda>i. (a + PGSIZE) + of_nat (4096 * i)) [0..<n]"
    by (simp add: upt_conv_Cons map_Suc_upt[symmetric] PGSIZE_def algebra_simps del: upt_Suc)
  have gs: "mem_frame s0 s" "frames_kept d (mem s0) (mem s)" "pages_of s fl d = pages_of s0 fl0 d"
    "user_frames (mem s0) d \<subseteq> user_frames (mem s) d"
    using Suc.prems(1) by (simp_all add: grown_def)
  have ls: "lookup (mem s) d v = lookup (mem s0) d v" if "v < 1048576" "\<not> (?P \<le> v \<and> v < vpn a)" for v
    using Suc.prems(1) that unfolding grown_def by metis
  have lk: "\<forall>v<1048576. \<not> (?P \<le> v \<and> v < ?Q) \<longrightarrow> lookup (mem s) d v = lookup (mem s0) d v"
    using ls Suc.prems(4) by auto
  have free: "lookup (mem s) d (vpn a) = None" using ls[of "vpn a"] none va Suc.prems(3,4) by simp
  have nK: "newsz \<le> KERNBASE" using sz(1) by simp
  show ?case
  proof (cases fl)
    case Nil
    have k: "kalloc s = Ret 0 s" using kalloc_Nil pt_invD(1)[OF user_invD(1)[OF inv]] unfolding Nil by blast
    obtain u fl' where u: "deallocuvm d newsz oldsz s = Ret oldsz u" "cleared ?P ?Q d s fl u fl'"
      using deallocuvm_spec[OF inv nK sz(2)] by blast
    have "restored d s0 fl0 u fl'"
      using restored_dealloc[OF inv0 inv gs(1,2) lk none u(2)] gs(3) by (simp add: restored_def)
    then show ?thesis unfolding rest using k u(1) by (intro exI[of _ u] exI[of _ fl']) (simp add: kbind_def)
  next
    case (Cons p fl1)
    note inv' = inv[unfolded Cons]
    let ?t = "s\<lparr>freelist := read32 (mem s) p, mem := fill (mem s) p 0 4096\<rparr>"
    have k: "kalloc s = Ret p (s\<lparr>freelist := read32 (mem s) p\<rparr>)" "p \<noteq> 0" by (rule take_page(9)[OF inv'], rule take_page(10)[OF inv'])
    have ms: "memset m p 0 PGSIZE = fill m p 0 4096" for m by (simp add: memset_fill PGSIZE_def)
    obtain u fl' where u: "mappages d a PGSIZE (V2P p) (PTE_W OR PTE_U) ?t = Ret 0 u \<and> grown (vpn a) (Suc (vpn a)) d s fl u fl' \<or>
      mappages d a PGSIZE (V2P p) (PTE_W OR PTE_U) ?t = Ret (- 1) u \<and> user_inv u fl' d \<and> spare p u fl' d \<and> mem_frame s u \<and>
      insert p (pages_of u fl' d) = pages_of s fl d \<and> frames_kept d (mem s) (mem u) \<and>
      user_frames (mem u) d = user_frames (mem s) d \<and> (\<forall>v<1048576. lookup (mem u) d v = lookup (mem s) d v)"
      using grow_one[OF inv' Suc.prems(2) va free] unfolding Cons by blast
    from u show ?thesis
    proof (elim disjE conjE)
      assume m: "mappages d a PGSIZE (V2P p) (PTE_W OR PTE_U) ?t = Ret 0 u" "grown (vpn a) (Suc (vpn a)) d s fl u fl'"
      have vn: "vpn (a + PGSIZE) = Suc (vpn a)" using vpn_next[of a] va by simp
      have al: "unat (a + PGSIZE) mod 4096 = 0"
        using Suc.prems(2) va by (simp add: PGSIZE_def unat_add_mod mod_mod_cancel)
      have "grown ?P (vpn (a + PGSIZE)) d s0 fl0 u fl'"
        unfolding vn by (rule grown_trans[OF Suc.prems(1) m(2) Suc.prems(3) _ _ inv0]) (use va in simp_all)
      from Suc.IH[OF this al] have "\<exists>t fl''. allocuvm_loop (map (\<lambda>i. (a + PGSIZE) + of_nat (4096 * i)) [0..<n]) d oldsz newsz u = Ret newsz t \<and>
          grown ?P ?Q d s0 fl0 t fl'' \<or>
        allocuvm_loop (map (\<lambda>i. (a + PGSIZE) + of_nat (4096 * i)) [0..<n]) d oldsz newsz u = Ret 0 t \<and> restored d s0 fl0 t fl''"
        using Suc.prems(3,4) vn by simp
      then show ?thesis unfolding rest using k m(1) by (simp add: kbind_def ms)
    next
      assume m: "mappages d a PGSIZE (V2P p) (PTE_W OR PTE_U) ?t = Ret (- 1) u" "user_inv u fl' d" "spare p u fl' d" "mem_frame s u"
        "insert p (pages_of u fl' d) = pages_of s fl d" "frames_kept d (mem s) (mem u)" "user_frames (mem u) d = user_frames (mem s) d"
        "\<forall>v<1048576. lookup (mem u) d v = lookup (mem s) d v"
      have fu: "mem_frame s0 u" "frames_kept d (mem s0) (mem u)"
        using gs(1,2,4) m(4,6) mem_frame_trans[of s0 s u] by (auto simp: frames_kept_def)
      have lu: "\<forall>v<1048576. \<not> (?P \<le> v \<and> v < ?Q) \<longrightarrow> lookup (mem u) d v = lookup (mem s0) d v" using lk m(8) by simp
      obtain w fl2 where w: "deallocuvm d newsz oldsz u = Ret oldsz w" "cleared ?P ?Q d u fl' w fl2"
        using deallocuvm_spec[OF m(2) nK sz(2)] by blast
      note R = restored_dealloc[OF inv0 m(2) fu lu none w(2)]
      have c: "set fl2 \<union> user_frames (mem w) d = set fl' \<union> user_frames (mem u) d" "tables (mem w) d = tables (mem u) d" "kend w = kend u"
        using w(2) mem_frame_kend[of u w] by (simp_all add: cleared_def)
      have "p \<notin> set fl2 \<union> user_frames (mem w) d" unfolding c(1) using m(3) by (simp add: spare_def)
      then have sp: "spare p w fl2 d" using m(3) c(2,3) by (simp add: spare_def)
      obtain x where x: "kfree p w = Ret () x" "user_inv x (p # fl2) d" "mem_frame w x" "frames_kept d (mem w) (mem x)"
        "pages_of x (p # fl2) d = insert p (pages_of w fl2 d)" "\<forall>v<1048576. lookup (mem x) d v = lookup (mem w) d v"
        using free_spare[OF conjunct1[OF R] sp] by blast
      have uf: "user_frames (mem w) d = user_frames (mem s0) d" using frames_none[of "mem w" d "mem s0"] R by simp
      have "restored d s0 fl0 x (p # fl2)"
        unfolding restored_def using x R m(5) gs(3) uf mem_frame_trans[of s0 w x] by (auto simp: frames_kept_def)
      then show ?thesis
        unfolding rest using k m(1) w(1) x(1) by (intro exI[of _ x] exI[of _ "p # fl2"]) (simp add: kbind_def ms)
    qed
  qed
qed

lemma grown_refl: "user_inv s fl d \<Longrightarrow> grown v v d s fl s fl"
  by (auto simp: grown_def frames_kept_def)

lemma allocuvm_spec:
  assumes inv: "user_inv s fl d" and sz: "newsz < KERNBASE" "oldsz \<le> newsz"
    and none: "\<forall>v. pages_up oldsz \<le> v \<and> v < pages_up newsz \<longrightarrow> lookup (mem s) d v = None"
  shows "\<exists>t fl'. allocuvm d oldsz newsz s = Ret newsz t \<and> grown (pages_up oldsz) (pages_up newsz) d s fl t fl' \<or>
    allocuvm d oldsz newsz s = Ret 0 t \<and> restored d s fl t fl'"
proof -
  let ?a = "PGROUNDUP oldsz" and ?n = "pages_up newsz - pages_up oldsz"
  have lt: "unat newsz < 2147483648" "unat oldsz \<le> unat newsz" using sz by (simp_all add: word_less_nat_alt word_le_nat_alt KERNBASE_def)
  have u: "unat ?a = pages_up oldsz * 4096" using unat_PGROUNDUP[of oldsz] lt by (simp add: pages_up_def)
  have le: "pages_up oldsz \<le> pages_up newsz" unfolding pages_up_def by (rule div_le_mono) (use lt in simp)
  have v: "vpn ?a = pages_up oldsz" "unat ?a mod 4096 = 0" using u by (simp_all add: vpn_def)
  have "(unat newsz - unat ?a + 4095) div 4096 = ?n"
  proof (cases "unat ?a \<le> unat newsz")
    case True
    then obtain j where j: "unat newsz = pages_up oldsz * 4096 + j" unfolding u using le_iff_add by blast
    then have "pages_up newsz = pages_up oldsz + (j + 4095) div 4096" by (simp add: pages_up_def[of newsz])
    then show ?thesis unfolding u j by simp
  next
    case False
    then have "unat newsz < pages_up oldsz * 4096" using u by simp
    then have "pages_up newsz \<le> pages_up oldsz" by (simp add: pages_up_def)
    then show ?thesis using False le by simp
  qed
  then have r: "page_range ?a newsz = map (\<lambda>i. ?a + of_nat (4096 * i)) [0..<?n]" by (simp add: page_range_def)
  have run: "allocuvm d oldsz newsz s = allocuvm_loop (map (\<lambda>i. ?a + of_nat (4096 * i)) [0..<?n]) d oldsz newsz s"
  proof -
    have "\<not> KERNBASE \<le> newsz" "\<not> newsz < oldsz" using sz by (simp_all add: not_le not_less)
    then show ?thesis by (simp add: allocuvm_def r)
  qed
  show ?thesis
  proof (cases "oldsz = newsz")
    case True
    then show ?thesis using run grown_refl[OF inv, of "pages_up newsz"] by (intro exI[of _ s] exI[of _ fl]) simp
  next
    case False
    then have "oldsz < newsz" using sz(2) by simp
    then show ?thesis
      unfolding run
      by (intro allocuvm_loop_spec[OF inv sz(1) _ none]) (use grown_refl[OF inv] v le in simp_all)
  qed
qed

subsection \<open>Properties of the page tables\<close>

text \<open>A machine with an empty page directory and two free pages.\<close>

definition example_vm :: mach where
  "example_vm = \<lparr>mem = write32 (\<lambda>_. 0) 0x80401000 0x80402000, freelist = 0x80401000, use_lock = True,
     kend = 0x80110000, kdata = 0x80108000\<rparr>"

lemma example_vm_pages:
  "page_ok (kend example_vm) 0x80400000" "page_ok (kend example_vm) 0x80401000" "page_ok (kend example_vm) 0x80402000"
  by (simp_all add: example_vm_def page_ok_def PGSIZE_def V2P_def layout_defs)

lemma example_vm_read:
  "page_ok (kend example_vm) p \<Longrightarrow> p \<noteq> 0x80401000 \<Longrightarrow> i < 1024 \<Longrightarrow> read32 (mem example_vm) (entry p i) = 0"
proof -
  assume p: "page_ok (kend example_vm) p" "p \<noteq> 0x80401000" "i < 1024"
  have e: "entry 0x80401000 0 = (0x80401000 :: uint)" by (simp add: entry_def)
  have "same_outside {0x80401000} (\<lambda>_. 0) (mem example_vm)"
    using write32_in_page[OF example_vm_pages(2), of 0] by (simp add: same_outside_def example_vm_def e)
  then have "read32 (mem example_vm) (entry p i) = read32 (\<lambda>_. 0) (entry p i)"
    using read_other_page[OF _ p(1) _ _ p(3)] p(2) example_vm_pages(2) by simp
  then show ?thesis by (simp add: read32_def word_of_bytes_def)
qed

lemma example_vm_inv: "user_inv example_vm [0x80401000, 0x80402000] 0x80400000"
proof -
  have pd: "pde (mem example_vm) 0x80400000 i = 0" if "i < 1024" for i
    unfolding pde_def by (rule example_vm_read[OF example_vm_pages(1) _ that]) simp
  have np: "\<not> present 0" by (simp add: present_def)
  have lk: "lookup (mem example_vm) 0x80400000 v = None" if "v < 524288" for v
    using pd[of "v div 1024"] that np by (simp add: lookup_def div_less_iff_less_mult)
  have "read32 (mem example_vm) 0x80402000 = 0"
    using example_vm_read[OF example_vm_pages(3), of 0] by (simp add: entry_def)
  then have "kmem_inv example_vm [0x80401000, 0x80402000]"
    using example_vm_pages by (simp add: kmem_inv_def) (simp add: example_vm_def)
  then have "pt_inv example_vm [0x80401000, 0x80402000] 0x80400000"
    using example_vm_pages pd np by (simp add: pt_inv_def)
  moreover have "user_frames (mem example_vm) 0x80400000 = {}" using lk by (auto simp: user_frames_def)
  moreover have "KERNBASE < kend example_vm" by (simp add: example_vm_def KERNBASE_def word_less_def)
  ultimately show ?thesis using lk by (simp add: user_inv_def)
qed



text \<open>
  C13. \<^verbatim>\<open>allocuvm\<close> grows an address space completely or not at all. If it returns \<open>newsz\<close>, each new page is mapped,
  writable by the user, to a page that was free and holds zeros. If it returns 0, because memory ran out,
  every translation is as before. In both cases the other pages keep their frames and contents, and no
  page of memory is lost: the free pages, the page tables and the frames are together the same set.
\<close>

theorem allocuvm_all_or_nothing:
  assumes "user_inv s fl d" and "newsz < KERNBASE" and "oldsz \<le> newsz"
    and "\<forall>v. pages_up oldsz \<le> v \<and> v < pages_up newsz \<longrightarrow> lookup (mem s) d v = None"
  shows "\<exists>t fl'. user_inv t fl' d \<and> pages_of t fl' d = pages_of s fl d \<and> frames_kept d (mem s) (mem t) \<and>
    (allocuvm d oldsz newsz s = Ret newsz t \<and>
       (\<forall>v<1048576. if pages_up oldsz \<le> v \<and> v < pages_up newsz
          then \<exists>p \<in> set fl. lookup (mem t) d v = Some (V2P p OR (PTE_W OR PTE_U) OR PTE_P) \<and> zero_page (mem t) p
          else lookup (mem t) d v = lookup (mem s) d v) \<or>
     allocuvm d oldsz newsz s = Ret 0 t \<and> (\<forall>v<1048576. lookup (mem t) d v = lookup (mem s) d v))"
proof -
  obtain t fl' where "allocuvm d oldsz newsz s = Ret newsz t \<and> grown (pages_up oldsz) (pages_up newsz) d s fl t fl' \<or>
    allocuvm d oldsz newsz s = Ret 0 t \<and> restored d s fl t fl'"
    using allocuvm_spec[OF assms] by blast
  then show ?thesis unfolding grown_def restored_def by blast
qed

theorem allocuvm_all_or_nothing_witness:
  "\<exists>t. allocuvm 0x80400000 0 4096 example_vm = Ret 4096 t \<and> (\<exists>p. lookup (mem t) 0x80400000 0 = Some (V2P p OR (PTE_W OR PTE_U) OR PTE_P)) \<or>
    allocuvm 0x80400000 0 4096 example_vm = Ret 0 t \<and> lookup (mem t) 0x80400000 0 = None"
proof -
  have "\<not> present 0" by (simp add: present_def)
  then have z: "lookup (mem example_vm) 0x80400000 0 = None"
    using example_vm_read[OF example_vm_pages(1), of 0] by (simp add: lookup_def pde_def)
  have u: "pages_up 0 = 0" "pages_up 4096 = 1" by (simp_all add: pages_up_def)
  have "\<forall>v. pages_up 0 \<le> v \<and> v < pages_up 4096 \<longrightarrow> lookup (mem example_vm) 0x80400000 v = None"
    unfolding u using z by simp
  then obtain t where t: "allocuvm 0x80400000 0 4096 example_vm = Ret 4096 t \<and>
       (\<forall>v<1048576. if 0 \<le> v \<and> v < 1
          then \<exists>p \<in> set [0x80401000, 0x80402000]. lookup (mem t) 0x80400000 v = Some (V2P p OR (PTE_W OR PTE_U) OR PTE_P) \<and> zero_page (mem t) p
          else lookup (mem t) 0x80400000 v = lookup (mem example_vm) 0x80400000 v) \<or>
     allocuvm 0x80400000 0 4096 example_vm = Ret 0 t \<and> (\<forall>v<1048576. lookup (mem t) 0x80400000 v = lookup (mem example_vm) 0x80400000 v)"
    using allocuvm_all_or_nothing[OF example_vm_inv, of 4096 0] unfolding u by (auto simp: KERNBASE_def word_less_def)
  then show ?thesis
  proof (elim disjE conjE)
    assume a: "allocuvm 0x80400000 0 4096 example_vm = Ret 4096 t"
      "\<forall>v<1048576. if 0 \<le> v \<and> v < 1
          then \<exists>p \<in> set [0x80401000, 0x80402000]. lookup (mem t) 0x80400000 v = Some (V2P p OR (PTE_W OR PTE_U) OR PTE_P) \<and> zero_page (mem t) p
          else lookup (mem t) 0x80400000 v = lookup (mem example_vm) 0x80400000 v"
    from a(2) have "\<exists>p \<in> set [0x80401000, 0x80402000]. lookup (mem t) 0x80400000 0 = Some (V2P p OR (PTE_W OR PTE_U) OR PTE_P) \<and> zero_page (mem t) p"
      by (rule allE[where x = 0]) simp
    then show ?thesis using a(1) by blast
  next
    assume "allocuvm 0x80400000 0 4096 example_vm = Ret 0 t" "\<forall>v<1048576. lookup (mem t) 0x80400000 v = lookup (mem example_vm) 0x80400000 v"
    then show ?thesis using z by auto
  qed
qed

text \<open>
  C15. Freeing an address space ends and gives everything back. \<^verbatim>\<open>deallocuvm\<close> returns the new size, removes the
  user pages between the two sizes and no others, and puts their frames on the free list; \<^verbatim>\<open>freevm\<close>
  returns, and the free list then has all frames of user pages, all page tables and the directory in
  addition to what it had.
\<close>

theorem address_space_freed:
  assumes "user_inv s fl d"
  shows "(newsz < oldsz \<and> oldsz \<le> KERNBASE \<longrightarrow> (\<exists>t fl'. deallocuvm d oldsz newsz s = Ret newsz t \<and> user_inv t fl' d \<and>
      pages_of t fl' d = pages_of s fl d \<and>
      (\<forall>v<1048576. lookup (mem t) d v = (if pages_up newsz \<le> v \<and> v < pages_up oldsz then None else lookup (mem s) d v)))) \<and>
    (\<exists>t fl'. freevm d s = Ret () t \<and> kmem_inv t fl' \<and> set fl' = insert d (pages_of s fl d))"
proof (intro conjI impI)
  assume "newsz < oldsz \<and> oldsz \<le> KERNBASE"
  then obtain t fl' where "deallocuvm d oldsz newsz s = Ret newsz t" "cleared (pages_up newsz) (pages_up oldsz) d s fl t fl'"
    using deallocuvm_spec[OF assms, of oldsz newsz] by blast
  then show "\<exists>t fl'. deallocuvm d oldsz newsz s = Ret newsz t \<and> user_inv t fl' d \<and> pages_of t fl' d = pages_of s fl d \<and>
      (\<forall>v<1048576. lookup (mem t) d v = (if pages_up newsz \<le> v \<and> v < pages_up oldsz then None else lookup (mem s) d v))"
    by (intro exI[of _ t] exI[of _ fl']) (auto simp: cleared_def pages_of_def)
next
  obtain t fl' where "freevm d s = Ret () t" "kmem_inv t fl'"
    "set fl' = set fl \<union> user_frames (mem s) d \<union> tables (mem s) d \<union> {d}"
    using freevm_spec[OF assms] by blast
  then show "\<exists>t fl'. freevm d s = Ret () t \<and> kmem_inv t fl' \<and> set fl' = insert d (pages_of s fl d)"
    by (intro exI[of _ t] exI[of _ fl']) (auto simp: pages_of_def)
qed

theorem address_space_freed_witness:
  "\<exists>t fl'. freevm 0x80400000 example_vm = Ret () t \<and> kmem_inv t fl' \<and> 0x80400000 \<in> set fl' \<and> 0x80401000 \<in> set fl'"
proof -
  obtain t fl' where "freevm 0x80400000 example_vm = Ret () t" "kmem_inv t fl'"
    "set fl' = insert 0x80400000 (pages_of example_vm [0x80401000, 0x80402000] 0x80400000)"
    using conjunct2[OF address_space_freed[OF example_vm_inv]] by blast
  then show ?thesis by (intro exI[of _ t] exI[of _ fl']) (simp add: pages_of_def)
qed

end
