(* ===== verification/Xv6_Pages.thy ===== *)
theory Xv6_Pages
  imports Xv6_Kalloc
begin

text \<open>
  Properties of the physical page allocator (\<^verbatim>\<open>kalloc.c\<close>) and of the memory and string primitives
  (\<^verbatim>\<open>string.c\<close>).
\<close>

definition example_mach :: mach where
  "example_mach = \<lparr>mem = (\<lambda>_. 0), freelist = 0, use_lock = True, kend = 0x80110000, kdata = 0x80108000\<rparr>"

text \<open>
  C19. Pages are neither lost nor handed out twice. A client that holds the pages \<open>held\<close> and calls \<^verbatim>\<open>kalloc\<close> and
  \<^verbatim>\<open>kfree\<close> in any order, freeing only pages it holds, never makes them panic; at every end the pages it
  holds and the pages on the free list are distinct, and together the same as at the start.
\<close>

theorem pages_conserved:
  assumes "kmem_inv s fl" and "distinct (held @ fl)" and "\<forall>v \<in> set held. page_ok (kend s) v"
  shows "\<exists>held' t fl'. page_run kalloc kfree ops held s = Some (held', t) \<and> kmem_inv t fl' \<and>
    mset (held' @ fl') = mset (held @ fl) \<and> distinct (held' @ fl')"
proof -
  obtain held' t fl' where "page_run kalloc kfree ops held s = Some (held', t)" "kmem_inv t fl'"
    "mset (held' @ fl') = mset (held @ fl)"
    using kmem.page_run_conserves[OF assms, of ops] by blast
  moreover from this(3) have "distinct (held' @ fl')" using assms(2) by (metis mset_eq_imp_distinct_iff)
  ultimately show ?thesis by blast
qed

theorem pages_conserved_witness:
  "\<exists>held' t fl'. page_run kalloc kfree [Free_page 0, Alloc_page] [0x80401000] example_mach = Some (held', t) \<and>
    kmem_inv t fl' \<and> mset (held' @ fl') = {# 0x80401000 #}"
proof -
  have "kmem_inv example_mach []" by (simp add: example_mach_def kmem_inv_def)
  moreover have "\<forall>v \<in> set [0x80401000]. page_ok (kend example_mach) v"
    by (simp add: example_mach_def page_ok_def PGSIZE_def V2P_def layout_defs)
  ultimately show ?thesis
    using pages_conserved[of example_mach "[]" "[0x80401000]" "[Free_page 0, Alloc_page]"] by auto
qed

text \<open>
  C26. \<^verbatim>\<open>kinit1\<close> fills the free list. Called with an empty free list on a range of physical memory that starts at
  the end of the kernel, it returns, and the free list has exactly the whole pages of the range, each
  once, the last page first.
\<close>

theorem kinit1_frees_range:
  assumes "freelist s = 0" and "kend s \<le> vstart" and "KERNBASE \<le> vstart" and "vstart \<le> P2V PHYSTOP" and "vend \<le> P2V PHYSTOP"
  shows "ok (kinit1 vstart vend) s (\<lambda>_ t. kmem_inv t (rev (pages_between (PGROUNDUP vstart) vend)))"
proof -
  let ?p = "PGROUNDUP vstart"
  have r: "2147483648 \<le> unat vstart" "unat vstart \<le> 2382364672" "unat vend \<le> 2382364672"
    using assms by (simp_all add: word_le_nat_alt P2V_def layout_defs)
  then have u: "unat ?p = (unat vstart + 4095) div 4096 * 4096" by (intro unat_PGROUNDUP) simp
  have "(unat vstart + 4095) div 4096 \<le> (2382364672 + 4095) div 4096" using r by (intro div_le_mono) simp
  then have p: "unat vstart \<le> unat ?p" "unat ?p \<le> 2382364672" "unat ?p mod 4096 = 0"
    unfolding u by (linarith, simp_all)
  have "kmem_inv (s\<lparr>use_lock := False\<rparr>) []" using assms(1) by (simp add: kmem_inv_def)
  then have "ok (freerange_loop ?p vend) (s\<lparr>use_lock := False\<rparr>) (\<lambda>_ t. kmem_inv t (rev (pages_between ?p vend) @ []))"
    by (rule freerange_loop_frees) (use assms(2) r p in \<open>auto simp: word_le_nat_alt\<close>)
  then show ?thesis by (simp add: kinit1_def freerange_def ok_bind_iff)
qed

theorem kinit1_frees_range_witness:
  "ok (kinit1 0x80110001 0x80113000) example_mach (\<lambda>_ t. kmem_inv t [0x80112000, 0x80111000])"
proof -
  have "ok (kinit1 0x80110001 0x80113000) example_mach
      (\<lambda>_ t. kmem_inv t (rev (pages_between (PGROUNDUP 0x80110001) 0x80113000)))"
    by (rule kinit1_frees_range) (simp_all add: example_mach_def P2V_def layout_defs word_le_def)
  moreover have "PGROUNDUP 0x80110001 = 0x80111000" by (simp add: PGROUNDUP_def PGSIZE_def)
  moreover have "rev (pages_between 0x80111000 0x80113000) = [0x80112000, 0x80111000 :: uint]"
    by (simp add: pages_between_def upt_rec)
  ultimately show ?thesis by simp
qed

text \<open>
  C24. \<^verbatim>\<open>memmove\<close> is a simultaneous copy, whether or not the two areas overlap: afterwards the \<open>n\<close> bytes at \<open>dst\<close>
  are what the \<open>n\<close> bytes at \<open>src\<close> were before, and all other bytes are unchanged. The areas must not wrap
  around the end of the address space.
\<close>

theorem memmove_simultaneous:
  assumes "unat src + unat n < 2 ^ 32" and "unat dst + unat n \<le> 2 ^ 32"
  shows "memmove m dst src n x = (if unat (x - dst) < unat n then m (src + (x - dst)) else m x)"
  unfolding memmove_copy[OF assms] copy_def ..

theorem memmove_simultaneous_witness:
  "memmove (\<lambda>x. ucast x) 0x1001 0x1000 3 0x1003 = (0x02 :: uchar)"
  using memmove_simultaneous[of "0x1000" 3 "0x1001" "\<lambda>x. ucast x" "0x1003"] by simp

text \<open>
  C25. \<^verbatim>\<open>safestrcpy\<close> with a positive size \<open>n\<close> leaves a string that is terminated within the \<open>n\<close> bytes and is the source
  cut to \<open>n - 1\<close> characters, and writes no byte beyond the \<open>n\<close>; \<^verbatim>\<open>strncpy\<close> writes exactly \<open>n\<close> bytes, the source and
  then zeros, and leaves no terminator when the source is \<open>n\<close> or more characters long.
\<close>

theorem string_copies_bounded:
  assumes "0 < n"
  shows "(\<exists>k < nat n. safestrcpy s t n k = 0) \<and> cstr (safestrcpy s t n) (nat n) = cstr t (nat n - 1) \<and>
    (\<forall>l. n \<le> int l \<longrightarrow> safestrcpy s t n l = s l \<and> strncpy s t n l = s l) \<and>
    (\<forall>l. int l < n \<longrightarrow> strncpy s t n l = (if \<exists>j<l. t j = 0 then 0 else t l))"
proof -
  note S = safestrcpy_terminates[OF assms, where s = s and t = t]
  have "\<exists>k < nat n. safestrcpy s t n k = 0"
  proof (rule ccontr)
    assume "\<not> ?thesis"
    then have "cstr (safestrcpy s t n) (nat n) = map (safestrcpy s t n) [0..<nat n]" by (intro cstr_at) auto
    then have "length (cstr (safestrcpy s t n) (nat n)) = nat n" by simp
    moreover have "length (cstr t (nat n - 1)) \<le> nat n - 1"
      unfolding cstr_def using length_takeWhile_le[of _ "map t [0..<nat n - 1]"] by simp
    ultimately show False using S(1) assms by simp
  qed
  then show ?thesis using S strncpy_spec[of s t n] by auto
qed

theorem string_copies_bounded_witness:
  "cstr (safestrcpy (\<lambda>_. 9) (\<lambda>i. if i < 5 then 65 else 0) 4) 4 = [65, 65, 65]"
proof -
  have "cstr (safestrcpy (\<lambda>_. 9) (\<lambda>i. if i < 5 then 65 else 0) 4) (nat 4) = cstr (\<lambda>i. if i < 5 then 65 else 0) (nat 4 - 1)"
    using string_copies_bounded[of 4 "\<lambda>_. 9" "\<lambda>i. if i < 5 then 65 else 0"] by simp
  then show ?thesis by (simp add: cstr_def upt_rec)
qed

end
