(* ===== verification/Xv6_Ide.thy ===== *)
theory Xv6_Ide
  imports Xv6_Cache
begin

text \<open>
  The disk driver (\<^verbatim>\<open>ide.c\<close>). Its state is the queue of requests, linked through \<^verbatim>\<open>qnext\<close>, on top of the state of
  the buffer cache. The drive is the task-file interface that the driver uses: registers written with
  \<^verbatim>\<open>outb\<close>, a data register, and a status register, whose successive readings are the sequence \<open>status\<close>. The
  sectors of drive 1 are the blocks of \<open>disk\<close> (a block is one sector), those of drive 0 are \<open>disk0\<close>.

  The theorems show that the driver gives each request the effect of the synchronous disk in memory of
  \<^verbatim>\<open>memide.c\<close>, in the order of the requests, whatever the other processes do in between; so the theorems
  about the buffer cache and the log, which are about the disk in memory, carry over to it.
\<close>

subsection \<open>The drive\<close>

definition SECTOR_SIZE :: nat where "SECTOR_SIZE = 512"
definition IDE_BSY :: uchar where "IDE_BSY = 0x80"
definition IDE_DRDY :: uchar where "IDE_DRDY = 0x40"
definition IDE_DF :: uchar where "IDE_DF = 0x20"
definition IDE_ERR :: uchar where "IDE_ERR = 0x01"
definition IDE_CMD_READ :: uchar where "IDE_CMD_READ = 0x20"
definition IDE_CMD_WRITE :: uchar where "IDE_CMD_WRITE = 0x30"
definition IDE_CMD_RDMUL :: uchar where "IDE_CMD_RDMUL = 0xC4"
definition IDE_CMD_WRMUL :: uchar where "IDE_CMD_WRMUL = 0xC5"

lemmas ide_consts = SECTOR_SIZE_def IDE_BSY_def IDE_DRDY_def IDE_DF_def IDE_ERR_def IDE_CMD_READ_def IDE_CMD_WRITE_def
  IDE_CMD_RDMUL_def IDE_CMD_WRMUL_def

record ata =
  at_regs :: "nat \<Rightarrow> uchar"
  at_data :: "uchar list"

record idestate = bstate +
  idequeue :: "nat option"
  qnext :: "nat \<Rightarrow> nat option"
  havedisk1 :: bool
  ata :: ata
  status :: "nat \<Rightarrow> uchar"
  readings :: nat
  disk0 :: "uint \<Rightarrow> uchar list"

definition outb :: "nat \<Rightarrow> uchar \<Rightarrow> (unit, 'z idestate_scheme) kernel" where
  "outb port v = kmod (\<lambda>s. s\<lparr>ata := (ata s)\<lparr>at_regs := (at_regs (ata s))(port := v)\<rparr>\<rparr>)"

definition outsl :: "uchar list \<Rightarrow> (unit, 'z idestate_scheme) kernel" where
  "outsl d = kmod (\<lambda>s. s\<lparr>ata := (ata s)\<lparr>at_data := d\<rparr>\<rparr>)"

definition insl :: "(uchar list, 'z idestate_scheme) kernel" where
  "insl = kget (\<lambda>s. at_data (ata s))"

definition inb_status :: "(uchar, 'z idestate_scheme) kernel" where
  "inb_status = kbind (kget (\<lambda>s. status s (readings s))) (\<lambda>r.
     kbind (kmod (\<lambda>s. s\<lparr>readings := Suc (readings s)\<rparr>)) (\<lambda>_. kret r))"

text \<open>The sector that the registers address, and what the drive has done when it raises its interrupt.\<close>

definition lba :: "ata \<Rightarrow> uint" where
  "lba a = ucast (at_regs a 0x1F3) OR push_bit 8 (ucast (at_regs a 0x1F4)) OR push_bit 16 (ucast (at_regs a 0x1F5)) OR
     push_bit 24 (ucast (at_regs a 0x1F6 AND 0x0F))"

definition drive1 :: "ata \<Rightarrow> bool" where
  "drive1 a \<longleftrightarrow> bit (at_regs a 0x1F6) 4"

definition ata_complete :: "'z idestate_scheme \<Rightarrow> 'z idestate_scheme" where
  "ata_complete s =
     (let a = ata s; b = lba a in
      if at_regs a 0x1F7 = IDE_CMD_WRITE then
        (if drive1 a then s\<lparr>disk := (disk s)(b := at_data a), dwrites := dwrites s @ [(b, at_data a)]\<rparr>
         else s\<lparr>disk0 := (disk0 s)(b := at_data a)\<rparr>)
      else if at_regs a 0x1F7 = IDE_CMD_READ then
        s\<lparr>ata := a\<lparr>at_data := (if drive1 a then disk s b else disk0 s b)\<rparr>\<rparr>
      else s)"

subsection \<open>The driver\<close>

text \<open>\<^verbatim>\<open>idewait\<close> polls until the drive is ready; without a value the loop does not end.\<close>

definition ide_ready :: "uchar \<Rightarrow> bool" where
  "ide_ready r \<longleftrightarrow> r AND (IDE_BSY OR IDE_DRDY) = IDE_DRDY"

partial_function (option) idewait_loop :: "(nat \<Rightarrow> uchar) \<Rightarrow> nat \<Rightarrow> nat option" where
  "idewait_loop st k = (if ide_ready (st k) then Some k else idewait_loop st (Suc k))"

definition idewait :: "bool \<Rightarrow> (int, 'z idestate_scheme) kernel" where
  "idewait checkerr s =
     (case idewait_loop (status s) (readings s) of
        None \<Rightarrow> kundef ''idewait'' s
      | Some k \<Rightarrow> Ret (if checkerr \<and> status s k AND (IDE_DF OR IDE_ERR) \<noteq> 0 then - 1 else 0) (s\<lparr>readings := Suc k\<rparr>))"

fun ideinit_loop :: "nat \<Rightarrow> (unit, 'z idestate_scheme) kernel" where
  "ideinit_loop 0 = kret ()"
| "ideinit_loop (Suc n) =
     kbind inb_status (\<lambda>r. if r \<noteq> 0 then kmod (\<lambda>s. s\<lparr>havedisk1 := True\<rparr>) else ideinit_loop n)"

definition ideinit :: "(unit, 'z idestate_scheme) kernel" where
  "ideinit =
     kbind (idewait False) (\<lambda>_.
     kbind (outb 0x1F6 (0xE0 OR push_bit 4 1)) (\<lambda>_.
     kbind (ideinit_loop 1000) (\<lambda>_.
     outb 0x1F6 (0xE0 OR push_bit 4 0))))"

definition idestart :: "nat option \<Rightarrow> (unit, 'z idestate_scheme) kernel" where
  "idestart p =
     (case p of None \<Rightarrow> kpanic ''idestart'' | Some i \<Rightarrow>
      kbind (kget (\<lambda>s. buf_at s i)) (\<lambda>b.
      if of_nat FSSIZE \<le> b_blockno b then kpanic ''incorrect blockno''
      else
        (let sector_per_block = BSIZE div SECTOR_SIZE;
             sector = b_blockno b * of_nat sector_per_block;
             read_cmd = (if sector_per_block = 1 then IDE_CMD_READ else IDE_CMD_RDMUL);
             write_cmd = (if sector_per_block = 1 then IDE_CMD_WRITE else IDE_CMD_WRMUL) in
         if 7 < sector_per_block then kpanic ''idestart''
         else
           kbind (idewait False) (\<lambda>_.
           kbind (outb 0x3F6 0) (\<lambda>_.
           kbind (outb 0x1F2 (of_nat sector_per_block)) (\<lambda>_.
           kbind (outb 0x1F3 (ucast (sector AND 0xFF))) (\<lambda>_.
           kbind (outb 0x1F4 (ucast (drop_bit 8 sector AND 0xFF))) (\<lambda>_.
           kbind (outb 0x1F5 (ucast (drop_bit 16 sector AND 0xFF))) (\<lambda>_.
           kbind (outb 0x1F6 (ucast (0xE0 OR push_bit 4 (b_dev b AND 1) OR (drop_bit 24 sector AND 0x0F)))) (\<lambda>_.
           if b_dirty b then kbind (outb 0x1F7 write_cmd) (\<lambda>_. outsl (b_data b))
           else outb 0x1F7 read_cmd))))))))))"

definition ideintr :: "(unit, 'z idestate_scheme) kernel" where
  "ideintr s =
     (case idequeue s of None \<Rightarrow> Ret () s | Some i \<Rightarrow>
      kbind (kmod (\<lambda>s. s\<lparr>idequeue := qnext s i\<rparr>)) (\<lambda>_.
      kbind (kget (\<lambda>s. b_dirty (buf_at s i))) (\<lambda>d.
      kbind (if d then kret (- 1) else idewait True) (\<lambda>r.
      kbind (kwhen (0 \<le> r) (kbind insl (\<lambda>d. kmod (upd_buf i (\<lambda>b. b\<lparr>b_data := d\<rparr>))))) (\<lambda>_.
      kbind (kmod (upd_buf i (\<lambda>b. b\<lparr>b_dirty := False, b_valid := True\<rparr>))) (\<lambda>_.
      kbind (wakeup (Chan_buf i)) (\<lambda>_.
      kbind (kget idequeue) (\<lambda>q.
      kwhen (q \<noteq> None) (idestart q)))))))) s)"

text \<open>The walk along \<^verbatim>\<open>qnext\<close> to the end of the queue, and the loop in which \<^verbatim>\<open>iderw\<close> waits for its request.\<close>

partial_function (option) queue_last :: "(nat \<Rightarrow> nat option) \<Rightarrow> nat \<Rightarrow> nat option" where
  "queue_last q b = (case q b of None \<Rightarrow> Some b | Some c \<Rightarrow> queue_last q c)"

definition ide_append :: "nat \<Rightarrow> (unit, 'z idestate_scheme) kernel" where
  "ide_append i =
     kbind (kmod (\<lambda>s. s\<lparr>qnext := (qnext s)(i := None)\<rparr>)) (\<lambda>_ s.
     case idequeue s of
       None \<Rightarrow> Ret () (s\<lparr>idequeue := Some i\<rparr>)
     | Some b \<Rightarrow>
         (case queue_last (qnext s) b of
            None \<Rightarrow> kundef ''idequeue'' s
          | Some l \<Rightarrow> Ret () (s\<lparr>qnext := (qnext s)(l := Some i)\<rparr>)))"

definition ide_rw_wait :: "nat \<Rightarrow> (unit, 'z idestate_scheme) kernel" where
  "ide_rw_wait i s = (if b_valid (buf_at s i) \<and> \<not> b_dirty (buf_at s i) then Ret () s else Sleep (Chan_buf i) s)"

definition ide_rw :: "nat \<Rightarrow> (unit, 'z idestate_scheme) kernel" where
  "ide_rw i =
     kbind (holding_buf i) (\<lambda>h.
     if \<not> h then kpanic ''iderw: buf not locked''
     else kbind (kget (\<lambda>s. buf_at s i)) (\<lambda>b.
     if b_valid b \<and> \<not> b_dirty b then kpanic ''iderw: nothing to do''
     else kbind (kget havedisk1) (\<lambda>h1.
     if b_dev b \<noteq> 0 \<and> \<not> h1 then kpanic ''iderw: ide disk 1 not present''
     else kbind (ide_append i) (\<lambda>_.
          kbind (kget idequeue) (\<lambda>q.
          kbind (kwhen (q = Some i) (idestart (Some i))) (\<lambda>_.
          ide_rw_wait i))))))"

subsection \<open>The queue and the drive\<close>

definition drive_good :: "(nat \<Rightarrow> uchar) \<Rightarrow> bool" where
  "drive_good st \<longleftrightarrow> (\<forall>k. \<exists>j\<ge>k. ide_ready (st j)) \<and> (\<forall>k. ide_ready (st k) \<longrightarrow> st k AND (IDE_DF OR IDE_ERR) = 0)"

lemma idewait_loop_ready:
  assumes "ide_ready (st j)" and "k \<le> j"
  shows "\<exists>i. idewait_loop st k = Some i \<and> ide_ready (st i)"
  using assms(2)
proof (induction k rule: inc_induct)
  case base
  then show ?case using assms(1) by (subst idewait_loop.simps) auto
next
  case (step k)
  then show ?case by (subst idewait_loop.simps) auto
qed

lemma idewait_good:
  assumes "drive_good (status s)"
  shows "\<exists>k. idewait c s = Ret 0 (s\<lparr>readings := k\<rparr>)"
proof -
  obtain j where "ide_ready (status s j)" "readings s \<le> j" using assms by (auto simp: drive_good_def)
  then obtain i where "idewait_loop (status s) (readings s) = Some i" "ide_ready (status s i)"
    using idewait_loop_ready by blast
  then show ?thesis using assms by (auto simp: idewait_def drive_good_def)
qed

fun qchain :: "(nat \<Rightarrow> nat option) \<Rightarrow> nat option \<Rightarrow> nat list \<Rightarrow> bool" where
  "qchain q p [] \<longleftrightarrow> p = None"
| "qchain q p (b # bs) \<longleftrightarrow> p = Some b \<and> qchain q (q b) bs"

lemma qchain_fun: "qchain q p bs \<Longrightarrow> qchain q p cs \<Longrightarrow> bs = cs"
proof (induction bs arbitrary: p cs)
  case Nil
  then show ?case by (cases cs) auto
next
  case (Cons b bs)
  then show ?case by (cases cs) auto
qed

lemma qchain_cong: "(\<And>b. b \<in> set bs \<Longrightarrow> q' b = q b) \<Longrightarrow> qchain q' p bs = qchain q p bs"
  by (induction bs arbitrary: p) auto

lemma queue_last_chain: "qchain q (Some b) (b # bs) \<Longrightarrow> queue_last q b = Some (last (b # bs))"
proof (induction bs arbitrary: b)
  case Nil
  then show ?case by (subst queue_last.simps) simp
next
  case (Cons c bs)
  then show ?case by (subst queue_last.simps) simp
qed

lemma qchain_snoc:
  "qchain q p bs \<Longrightarrow> bs \<noteq> [] \<Longrightarrow> distinct bs \<Longrightarrow> i \<notin> set bs \<Longrightarrow> q i = None \<Longrightarrow> qchain (q(last bs := Some i)) p (bs @ [i])"
proof (induction bs arbitrary: p)
  case (Cons b bs)
  show ?case
  proof (cases "bs = []")
    case False
    then have "b \<noteq> last bs" using Cons.prems by auto
    then show ?thesis using Cons False by simp
  qed (use Cons in auto)
qed simp

lemma ide_append_run:
  assumes "qchain (qnext s) (idequeue s) bs" and "distinct bs" and "i \<notin> set bs"
  shows "\<exists>q n. ide_append i s = Ret () (s\<lparr>qnext := n, idequeue := q\<rparr>) \<and> qchain n q (bs @ [i])"
proof -
  let ?n = "(qnext s)(i := None)"
  have c: "qchain ?n (idequeue s) bs" using assms by (subst qchain_cong[where q = "qnext s"]) auto
  show ?thesis
  proof (cases bs)
    case Nil
    then show ?thesis using assms(1)
      by (intro exI[of _ "Some i"] exI[of _ ?n]) (simp add: ide_append_def)
  next
    case (Cons b r)
    then have l: "idequeue s = Some b" "queue_last ?n b = Some (last bs)" using c queue_last_chain[of ?n b r] by auto
    have "qchain (?n(last bs := Some i)) (idequeue s) (bs @ [i])" by (rule qchain_snoc) (use c Cons assms in auto)
    then show ?thesis using l
      by (intro exI[of _ "idequeue s"] exI[of _ "?n(last bs := Some i)"]) (simp add: ide_append_def)
  qed
qed

lemma lba_sector:
  fixes n :: uint and d :: uint
  assumes "n < 1000"
  shows "ucast (ucast (n AND 0xFF) :: uchar) OR push_bit 8 (ucast (ucast (drop_bit 8 n AND 0xFF) :: uchar)) OR
      push_bit 16 (ucast (ucast (drop_bit 16 n AND 0xFF) :: uchar)) OR
      push_bit 24 (ucast ((ucast (0xE0 OR push_bit 4 (d AND 1) OR (drop_bit 24 n AND 0x0F)) :: uchar) AND 0x0F)) = n"
proof -
  have "n < 2 ^ 10" using assms by (simp add: word_less_def)
  then have "take_bit 10 n = n" unfolding take_bit_eq_mask by (rule less_mask_eq)
  then have lo: "m < 10" if "bit n m" for m using that by (metis bit_take_bit_iff)
  have c: "0xFF = (mask 8 :: uint)" "0x0F = (mask 4 :: uint)" "0x0F = (mask 4 :: uchar)" "0xE0 = (push_bit 5 (mask 3) :: uint)"
    by (simp_all add: mask_eq_exp_minus_1 push_bit_eq_mult)
  have hi: "\<not> bit n m" if "10 \<le> m" for m using lo[of m] that by linarith
  show ?thesis unfolding c
  proof (rule bit_word_eqI)
    fix m
    assume "m < LENGTH(32)"
    consider "m < 8" | "8 \<le> m" "m < 10" | "10 \<le> m" by linarith
    then show "bit (ucast (ucast (n AND mask 8) :: uchar) OR push_bit 8 (ucast (ucast (drop_bit 8 n AND mask 8) :: uchar)) OR
        push_bit 16 (ucast (ucast (drop_bit 16 n AND mask 8) :: uchar)) OR
        push_bit 24 (ucast ((ucast (push_bit 5 (mask 3) OR push_bit 4 (d AND 1) OR (drop_bit 24 n AND mask 4)) :: uchar) AND mask 4)) :: uint) m = bit n m"
      by cases (simp_all add: bit_simps hi, linarith+)
  qed
qed

lemma drive_bit:
  "bit (ucast (0xE0 OR push_bit 4 (d AND 1) OR (drop_bit 24 n AND 0x0F)) :: uchar) 4 = bit (d :: uint) 0"
proof -
  have c: "0x0F = (mask 4 :: uint)" "0xE0 = (push_bit 5 (mask 3) :: uint)" "1 = (mask 1 :: uint)"
    by (simp_all add: mask_eq_exp_minus_1 push_bit_eq_mult)
  show ?thesis unfolding c by (auto simp: bit_simps)
qed

definition programmed :: "ata \<Rightarrow> buf \<Rightarrow> bool" where
  "programmed a b \<longleftrightarrow> lba a = b_blockno b \<and> drive1 a = bit (b_dev b) 0 \<and>
     (if b_dirty b then at_regs a 0x1F7 = IDE_CMD_WRITE \<and> at_data a = b_data b else at_regs a 0x1F7 = IDE_CMD_READ)"

lemma idestart_run:
  assumes "drive_good (status s)" and "b_blockno (buf_at s i) < of_nat FSSIZE"
  shows "\<exists>a k. idestart (Some i) s = Ret () (s\<lparr>ata := a, readings := k\<rparr>) \<and> programmed a (buf_at s i)"
proof -
  obtain k where k: "idewait False s = Ret 0 (s\<lparr>readings := k\<rparr>)" using idewait_good[OF assms(1)] by blast
  let ?b = "buf_at s i"
  let ?r = "(at_regs (ata s))(0x3F6 := 0, 0x1F2 := 1, 0x1F3 := ucast (b_blockno ?b AND 0xFF),
    0x1F4 := ucast (drop_bit 8 (b_blockno ?b) AND 0xFF), 0x1F5 := ucast (drop_bit 16 (b_blockno ?b) AND 0xFF),
    0x1F6 := ucast (0xE0 OR push_bit 4 (b_dev ?b AND 1) OR (drop_bit 24 (b_blockno ?b) AND 0x0F)),
    0x1F7 := if b_dirty ?b then IDE_CMD_WRITE else IDE_CMD_READ)"
  let ?a = "\<lparr>at_regs = ?r, at_data = if b_dirty ?b then b_data ?b else at_data (ata s)\<rparr>"
  have n: "BSIZE div SECTOR_SIZE = 1" by (simp add: BSIZE_def SECTOR_SIZE_def)
  have "idestart (Some i) s = Ret () (s\<lparr>ata := ?a, readings := k\<rparr>)"
    using assms(2) by (simp add: idestart_def n Let_def not_le kbind_Ret[of "idewait False", OF k] outb_def outsl_def)
  moreover have "lba ?a = b_blockno ?b" unfolding lba_def using lba_sector[of "b_blockno ?b" "b_dev ?b"] assms(2) by (simp add: FSSIZE_def)
  moreover have "drive1 ?a = bit (b_dev ?b) 0" using drive_bit[of "b_dev ?b" "b_blockno ?b"] by (simp add: drive1_def)
  ultimately show ?thesis by (intro exI[of _ ?a] exI[of _ k]) (simp add: programmed_def)
qed

subsection \<open>The driver as a disk in memory\<close>

text \<open>
  What the cache and the disk hold, and the effect on it of a transfer by \<^verbatim>\<open>iderw\<close> of \<^verbatim>\<open>memide.c\<close>
  (\<open>iderw_transfer\<close>). A run of the driver is a sequence of events: a process queues a request and sleeps, the
  drive completes a command and interrupts, or other code runs that leaves the driver, the disk and the
  queued buffers alone. A buffer is queued by the process that holds its lock, which stays in \<^verbatim>\<open>iderw\<close> until
  the request is done; so no buffer is queued twice.
\<close>

type_synonym blocks = "buf list \<times> (uint \<Rightarrow> uchar list) \<times> (uint \<times> uchar list) list"

definition blocks_of :: "'z bstate_scheme \<Rightarrow> blocks" where
  "blocks_of s = (bufs s, disk s, dwrites s)"

fun transfer :: "nat \<Rightarrow> blocks \<Rightarrow> blocks" where
  "transfer i (bs, d, w) =
     (let b = bs ! i in
      if b_dirty b
      then (bs[i := b\<lparr>b_dirty := False, b_valid := True\<rparr>], d(b_blockno b := b_data b), w @ [(b_blockno b, b_data b)])
      else (bs[i := b\<lparr>b_data := d (b_blockno b), b_valid := True\<rparr>], d, w))"

lemma holding_buf_keeps: "holding_buf i s = Ret h t \<Longrightarrow> t = s"
  by (auto simp: holding_buf_def holdingsleep_def curproc_def myproc_def kbind_def split: option.splits)

lemma holding_buf_awake: "holding_buf i s \<noteq> Sleep c t"
  by (auto simp: holding_buf_def holdingsleep_def curproc_def myproc_def kbind_def split: option.splits)

lemma iderw_transfer: "iderw i s = Ret () t \<Longrightarrow> blocks_of t = transfer i (blocks_of s)"
  by (auto simp: iderw_def kbind_def upd_buf_def blocks_of_def Let_def dest!: holding_buf_keeps split: outcome.splits if_splits)

definition request_ok :: "'z idestate_scheme \<Rightarrow> nat \<Rightarrow> bool" where
  "request_ok s i \<longleftrightarrow> i < length (bufs s) \<and> \<not> (b_valid (buf_at s i) \<and> \<not> b_dirty (buf_at s i)) \<and>
     b_dev (buf_at s i) = 1 \<and> b_blockno (buf_at s i) < of_nat FSSIZE"

definition ide_inv :: "'z idestate_scheme \<Rightarrow> nat list \<Rightarrow> bool" where
  "ide_inv s q \<longleftrightarrow> qchain (qnext s) (idequeue s) q \<and> distinct q \<and> (\<forall>i \<in> set q. request_ok s i) \<and>
     havedisk1 s \<and> drive_good (status s) \<and> (q \<noteq> [] \<longrightarrow> programmed (ata s) (buf_at s (hd q)))"

definition undisturbed :: "'z idestate_scheme \<Rightarrow> 'z idestate_scheme \<Rightarrow> bool" where
  "undisturbed s t \<longleftrightarrow> idequeue t = idequeue s \<and> qnext t = qnext s \<and> havedisk1 t = havedisk1 s \<and> ata t = ata s \<and>
     status t = status s \<and> readings s \<le> readings t \<and> disk t = disk s \<and> dwrites t = dwrites s \<and> length (bufs t) = length (bufs s) \<and>
     (\<forall>q. qchain (qnext s) (idequeue s) q \<longrightarrow> (\<forall>i \<in> set q. buf_at t i = buf_at s i))"

datatype ide_event = Queued nat | Completed nat | Other "blocks \<Rightarrow> blocks"

inductive ide_run :: "'z idestate_scheme \<Rightarrow> ide_event list \<Rightarrow> 'z idestate_scheme \<Rightarrow> bool" for s where
  none: "ide_run s [] s"
| queued: "ide_run s es t \<Longrightarrow> request_ok t i \<Longrightarrow> \<forall>q. qchain (qnext t) (idequeue t) q \<longrightarrow> i \<notin> set q \<Longrightarrow>
    ide_rw i t = Sleep c u \<Longrightarrow> ide_run s (es @ [Queued i]) u"
| completed: "ide_run s es t \<Longrightarrow> idequeue t = Some i \<Longrightarrow> ideintr (ata_complete t) = Ret () u \<Longrightarrow>
    ide_run s (es @ [Completed i]) u"
| other: "ide_run s es t \<Longrightarrow> undisturbed t u \<Longrightarrow> blocks_of u = f (blocks_of t) \<Longrightarrow> ide_run s (es @ [Other f]) u"

fun requested :: "ide_event list \<Rightarrow> nat list" where
  "requested [] = []"
| "requested (Queued i # es) = i # requested es"
| "requested (_ # es) = requested es"

fun completions :: "ide_event list \<Rightarrow> nat list" where
  "completions [] = []"
| "completions (Completed i # es) = i # completions es"
| "completions (_ # es) = completions es"

text \<open>The same events on the disk in memory.\<close>

fun mem_event :: "ide_event \<Rightarrow> blocks \<Rightarrow> blocks" where
  "mem_event (Queued i) = id"
| "mem_event (Completed i) = transfer i"
| "mem_event (Other f) = f"

lemma requested_append [simp]: "requested (es @ fs) = requested es @ requested fs"
  by (induction es rule: requested.induct) auto

lemma completions_append [simp]: "completions (es @ fs) = completions es @ completions fs"
  by (induction es rule: completions.induct) auto

lemma ide_rw_queues:
  assumes "ide_inv s q" and "request_ok s i" and "i \<notin> set q" and "ide_rw i s = Sleep c t"
  shows "ide_inv t (q @ [i]) \<and> blocks_of t = blocks_of s \<and> c = Chan_buf i"
proof -
  have inv: "qchain (qnext s) (idequeue s) q" "distinct q" "\<forall>i \<in> set q. request_ok s i" "havedisk1 s" "drive_good (status s)"
    "q \<noteq> [] \<longrightarrow> programmed (ata s) (buf_at s (hd q))"
    using assms(1) by (simp_all add: ide_inv_def)
  obtain p n where a: "ide_append i s = Ret () (s\<lparr>qnext := n, idequeue := p\<rparr>)" "qchain n p (q @ [i])"
    using ide_append_run[OF inv(1,2) assms(3)] by blast
  let ?s = "s\<lparr>qnext := n, idequeue := p\<rparr>"
  have nw: "\<not> (b_valid (buf_at s i) \<and> \<not> b_dirty (buf_at s i))" using assms(2) by (simp add: request_ok_def)
  have run: "kbind (kwhen (p = Some i) (idestart (Some i))) (\<lambda>_. ide_rw_wait i) ?s = Sleep c t"
    using assms(4) nw inv(4) a(1)
    by (auto simp: ide_rw_def kbind_def holding_buf_awake dest!: holding_buf_keeps split: outcome.splits if_splits)
  show ?thesis
  proof (cases q)
    case Nil
    then have p: "p = Some i" using a(2) by simp
    obtain b k where "idestart (Some i) ?s = Ret () (?s\<lparr>ata := b, readings := k\<rparr>)" "programmed b (buf_at s i)"
      using idestart_run[of ?s i] inv(5) assms(2) by (auto simp: request_ok_def)
    then have "t = ?s\<lparr>ata := b, readings := k\<rparr>" "c = Chan_buf i" "programmed b (buf_at s i)"
      using run p nw by (auto simp: kbind_def ide_rw_wait_def split: if_splits)
    then show ?thesis using Nil assms(2) inv a(2) by (simp add: ide_inv_def blocks_of_def request_ok_def)
  next
    case (Cons h r)
    then have "p \<noteq> Some i" using a(2) assms(3) by auto
    then have "t = ?s" "c = Chan_buf i" using run nw by (auto simp: ide_rw_wait_def)
    then show ?thesis using Cons assms(2,3) inv a(2) by (simp add: ide_inv_def blocks_of_def request_ok_def)
  qed
qed

lemma ide_rw_sleeps:
  assumes "ide_inv s q" and "request_ok s i" and "i \<notin> set q" and "holding_buf i s = Ret True s"
  shows "\<exists>t. ide_rw i s = Sleep (Chan_buf i) t"
proof -
  obtain p n where a: "ide_append i s = Ret () (s\<lparr>qnext := n, idequeue := p\<rparr>)"
    using ide_append_run[of s q i] assms by (auto simp: ide_inv_def)
  let ?s = "s\<lparr>qnext := n, idequeue := p\<rparr>"
  obtain b k where "idestart (Some i) ?s = Ret () (?s\<lparr>ata := b, readings := k\<rparr>)"
    using idestart_run[of ?s i] assms by (auto simp: ide_inv_def request_ok_def)
  then show ?thesis using a assms
    by (auto simp: ide_rw_def kbind_def ide_inv_def request_ok_def ide_rw_wait_def kwhen_def)
qed

lemma start_next:
  assumes "qchain (qnext s) (idequeue s) q" and "distinct q" and "\<forall>i \<in> set q. request_ok s i" and "havedisk1 s" and "drive_good (status s)"
  shows "\<exists>t. kwhen (idequeue s \<noteq> None) (idestart (idequeue s)) s = Ret () t \<and> ide_inv t q \<and> blocks_of t = blocks_of s \<and> ptable t = ptable s"
proof (cases q)
  case Nil
  then show ?thesis using assms by (simp add: ide_inv_def)
next
  case (Cons i r)
  then obtain a k where "idestart (Some i) s = Ret () (s\<lparr>ata := a, readings := k\<rparr>)" "programmed a (buf_at s i)" "idequeue s = Some i"
    using idestart_run[OF assms(5), of i] assms(1,3) by (auto simp: request_ok_def)
  then show ?thesis using assms Cons
    by (intro exI[of _ "s\<lparr>ata := a, readings := k\<rparr>"]) (simp add: ide_inv_def blocks_of_def request_ok_def)
qed

lemma request_ok_other: "j \<noteq> i \<Longrightarrow> request_ok s j \<Longrightarrow> bufs t = (bufs s)[i := b] \<Longrightarrow> request_ok t j"
  by (simp add: request_ok_def)

lemma clean_buf: "\<not> b_dirty b \<Longrightarrow> b\<lparr>b_data := d, b_dirty := False, b_valid := True\<rparr> = b\<lparr>b_data := d, b_valid := True\<rparr>"
  by (cases b) simp

lemma ideintr_completes:
  assumes "ide_inv s (i # q)"
  shows "\<exists>t. ideintr (ata_complete s) = Ret () t \<and> ide_inv t q \<and> blocks_of t = transfer i (blocks_of s) \<and>
    ptable t = ptable (wakeup1 (Some (Chan_buf i)) s)"
proof -
  have inv: "qchain (qnext s) (qnext s i) q" "idequeue s = Some i" "distinct q" "i \<notin> set q" "\<forall>j \<in> set q. request_ok s j" "request_ok s i"
    "havedisk1 s" "drive_good (status s)" "programmed (ata s) (buf_at s i)"
    using assms by (simp_all add: ide_inv_def)
  have pr: "lba (ata s) = b_blockno (buf_at s i)" "drive1 (ata s)"
    using inv(6,9) by (simp_all add: programmed_def request_ok_def)
  have il: "i < length (bufs s)" using inv(6) by (simp add: request_ok_def)
  let ?w = "\<lambda>s. wakeup1 (Some (Chan_buf i)) s"
  obtain u where u: "ideintr (ata_complete s) = kwhen (idequeue u \<noteq> None) (idestart (idequeue u)) u"
    "blocks_of u = transfer i (blocks_of s)" "idequeue u = qnext s i" "qnext u = qnext s" "havedisk1 u" "status u = status s"
    "ptable u = ptable (?w s)" "\<forall>j \<in> set q. request_ok u j"
  proof (cases "b_dirty (buf_at s i)")
    case True
    let ?u = "?w (upd_buf i (\<lambda>b. b\<lparr>b_dirty := False, b_valid := True\<rparr>) (s\<lparr>disk := (disk s)(b_blockno (buf_at s i) := b_data (buf_at s i)),
      dwrites := dwrites s @ [(b_blockno (buf_at s i), b_data (buf_at s i))], idequeue := qnext s i\<rparr>))"
    have c: "ata_complete s = s\<lparr>disk := (disk s)(b_blockno (buf_at s i) := b_data (buf_at s i)),
        dwrites := dwrites s @ [(b_blockno (buf_at s i), b_data (buf_at s i))]\<rparr>"
      using True inv(9) pr by (simp add: ata_complete_def programmed_def Let_def)
    show ?thesis
    proof (rule that[of ?u])
      show "ideintr (ata_complete s) = kwhen (idequeue ?u \<noteq> None) (idestart (idequeue ?u)) ?u"
        using True inv(2) by (simp add: c ideintr_def wakeup_def wakeup1_def upd_buf_def kbind_def)
      show "\<forall>j \<in> set q. request_ok ?u j"
      proof
        fix j
        assume "j \<in> set q"
        then have "j \<noteq> i" "request_ok s j" using inv(4,5) by auto
        then show "request_ok ?u j" by (rule request_ok_other) (simp add: wakeup1_def upd_buf_def)
      qed
    qed (use True inv(7) il in \<open>simp_all add: blocks_of_def Let_def upd_buf_def wakeup1_def\<close>)
  next
    case False
    let ?d = "disk s (b_blockno (buf_at s i))"
    have c: "ata_complete s = s\<lparr>ata := (ata s)\<lparr>at_data := ?d\<rparr>\<rparr>"
      using False inv(9) pr by (simp add: ata_complete_def programmed_def Let_def IDE_CMD_READ_def IDE_CMD_WRITE_def)
    let ?s = "s\<lparr>ata := (ata s)\<lparr>at_data := ?d\<rparr>, idequeue := qnext s i\<rparr>"
    obtain k where k: "idewait True ?s = Ret 0 (?s\<lparr>readings := k\<rparr>)" using idewait_good[of ?s True] inv(8) by auto
    let ?u = "?w (upd_buf i (\<lambda>b. b\<lparr>b_data := ?d, b_dirty := False, b_valid := True\<rparr>) (?s\<lparr>readings := k\<rparr>))"
    show ?thesis
    proof (rule that[of ?u])
      show "ideintr (ata_complete s) = kwhen (idequeue ?u \<noteq> None) (idestart (idequeue ?u)) ?u"
        using False inv(2) k il by (simp add: c ideintr_def wakeup_def wakeup1_def upd_buf_def kbind_def insl_def)
      show "\<forall>j \<in> set q. request_ok ?u j"
      proof
        fix j
        assume "j \<in> set q"
        then have "j \<noteq> i" "request_ok s j" using inv(4,5) by auto
        then show "request_ok ?u j" by (rule request_ok_other) (simp add: wakeup1_def upd_buf_def)
      qed
    qed (use False inv(7) il in \<open>simp_all add: clean_buf blocks_of_def Let_def upd_buf_def wakeup1_def\<close>)
  qed
  obtain t where "kwhen (idequeue u \<noteq> None) (idestart (idequeue u)) u = Ret () t" "ide_inv t q" "blocks_of t = blocks_of u" "ptable t = ptable u"
    using start_next[of u q] u(3-6,8) inv(1,3,8) by auto
  then show ?thesis using u by auto
qed

lemma undisturbed_inv:
  assumes "ide_inv s q" and "undisturbed s t"
  shows "ide_inv t q"
proof -
  have q: "qchain (qnext s) (idequeue s) q" using assms(1) by (simp add: ide_inv_def)
  then have "\<forall>i \<in> set q. buf_at t i = buf_at s i" "length (bufs t) = length (bufs s)"
    using assms(2) by (auto simp: undisturbed_def)
  then have "\<forall>i \<in> set q. request_ok t i" "q \<noteq> [] \<longrightarrow> buf_at t (hd q) = buf_at s (hd q)"
    using assms(1) by (auto simp: ide_inv_def request_ok_def)
  then show ?thesis using assms by (auto simp: ide_inv_def undisturbed_def)
qed

lemma ide_run_inv:
  assumes "ide_run s es t" and "ide_inv s q"
  shows "\<exists>r. ide_inv t r \<and> completions es @ r = q @ requested es \<and> blocks_of t = fold mem_event es (blocks_of s)"
  using assms(1)
proof induction
  case none
  then show ?case using assms(2) by auto
next
  case (queued es t i c u)
  then obtain r where r: "ide_inv t r" "completions es @ r = q @ requested es" "blocks_of t = fold mem_event es (blocks_of s)" by blast
  then have "i \<notin> set r" using queued.hyps(3) by (simp add: ide_inv_def)
  then show ?case using ide_rw_queues[OF r(1) queued.hyps(2) _ queued.hyps(4)] r by (intro exI[of _ "r @ [i]"]) simp
next
  case (completed es t i u)
  then obtain r where r: "ide_inv t r" "completions es @ r = q @ requested es" "blocks_of t = fold mem_event es (blocks_of s)" by blast
  then obtain r' where r': "r = i # r'" using completed.hyps(2) by (cases r) (auto simp: ide_inv_def)
  then have "ide_inv u r' \<and> blocks_of u = transfer i (blocks_of t)"
    using ideintr_completes[of t i r'] r(1) completed.hyps(3) by auto
  then show ?case using r r' by (intro exI[of _ r']) simp
next
  case (other es t u f)
  then show ?case using undisturbed_inv by fastforce
qed

text \<open>
  C28. The driver is a disk in memory with delayed completion. Along every run, in which processes queue
  requests, the drive interrupts, and other code runs, the requests complete in the order in which they
  were queued; the buffers, the disk and the history of its writes are at each moment what they are if
  every completed request is done at its completion, at once, the way \<^verbatim>\<open>iderw\<close> of the disk in memory does it.
  While a request is queued the next interrupt is handled without a panic and wakes the process that waits
  for the first of them. The drive is assumed to get ready and not to report an error.
\<close>

theorem ide_refines_memory_disk:
  assumes "ide_inv s []" and "ide_run s es t"
  shows "(\<exists>q. completions es @ q = requested es \<and> ide_inv t q) \<and> blocks_of t = fold mem_event es (blocks_of s) \<and>
    (iderw i v = Ret () w \<longrightarrow> blocks_of w = mem_event (Completed i) (blocks_of v)) \<and>
    (idequeue t = Some i \<longrightarrow> (\<exists>u. ideintr (ata_complete t) = Ret () u \<and> b_valid (buf_at u i) \<and> \<not> b_dirty (buf_at u i) \<and>
       ptable u = ptable (wakeup1 (Some (Chan_buf i)) t)))"
proof -
  obtain q where q: "ide_inv t q" "completions es @ q = requested es" "blocks_of t = fold mem_event es (blocks_of s)"
    using ide_run_inv[OF assms(2,1)] by auto
  have "\<exists>u. ideintr (ata_complete t) = Ret () u \<and> b_valid (buf_at u i) \<and> \<not> b_dirty (buf_at u i) \<and> ptable u = ptable (wakeup1 (Some (Chan_buf i)) t)"
    if h: "idequeue t = Some i"
  proof -
    obtain r where r: "q = i # r" using h q(1) by (cases q) (auto simp: ide_inv_def)
    then have "i < length (bufs t)" using q(1) by (simp add: ide_inv_def request_ok_def)
    moreover obtain u where "ideintr (ata_complete t) = Ret () u" "blocks_of u = transfer i (blocks_of t)"
      "ptable u = ptable (wakeup1 (Some (Chan_buf i)) t)"
      using ideintr_completes[of t i r] q(1) r by blast
    ultimately show ?thesis by (auto simp: blocks_of_def Let_def split: if_splits)
  qed
  then show ?thesis using q iderw_transfer[of i v w] by auto
qed

definition example_ide :: "(nat \<Rightarrow> uchar) \<Rightarrow> idestate" where
  "example_ide st = \<lparr>mem = (\<lambda>_. 0), freelist = 0, use_lock = True, kend = 0x80110000, kdata = 0x80108000,
     ptable = [zero_proc\<lparr>p_pid := 1, p_state := RUNNING\<rparr>], nextpid = 2,
     initproc = Some 0, ticks = 0, cpus = [\<lparr>c_apicid = 0, c_esp0 = 0, c_cr3 = 0, c_proc = Some 0\<rparr>],
     thiscpu = 0, kpgdir = 0, forkret_addr = 0, trapret_addr = 0,
     q_sz = replicate 5 0, q_front = replicate 5 0, q_rear = replicate 5 0,
     q_slots = replicate 5 (replicate NPROC None),
     bufs = [\<lparr>b_valid = False, b_dirty = False, b_dev = 1, b_blockno = 5, b_lock = \<lparr>sl_locked = True, sl_pid = 1\<rparr>,
       b_refcnt = 1, b_data = [7]\<rparr>],
     lru = [0], disk = (\<lambda>_. []), disksize = of_nat FSSIZE, dwrites = [],
     idequeue = None, qnext = (\<lambda>_. None), havedisk1 = True, ata = \<lparr>at_regs = (\<lambda>_. 0), at_data = []\<rparr>,
     status = st, readings = 0, disk0 = (\<lambda>_. [])\<rparr>"

theorem ide_refines_memory_disk_witness:
  "\<exists>t u. ide_run (example_ide (\<lambda>_. 0x40)) [Queued 0] t \<and> ideintr (ata_complete t) = Ret () u \<and> b_valid (buf_at u 0)"
proof -
  let ?s = "example_ide (\<lambda>_. 0x40)"
  have inv: "ide_inv ?s []"
    by (auto simp: example_ide_def ide_inv_def drive_good_def ide_ready_def ide_consts)
  have r: "request_ok ?s 0" by (simp add: example_ide_def request_ok_def FSSIZE_def word_less_def)
  have "holding_buf 0 ?s = Ret True ?s" by (simp add: example_ide_def holding_buf_def holdingsleep_def curproc_def myproc_def kbind_def)
  then obtain t where t: "ide_rw 0 ?s = Sleep (Chan_buf 0) t" using ide_rw_sleeps[OF inv r] by auto
  have "ide_run ?s ([] @ [Queued 0]) t"
    by (rule ide_run.queued[OF ide_run.none r _ t]) (auto simp: example_ide_def elim!: qchain.elims(2))
  then have run: "ide_run ?s [Queued 0] t" by simp
  have "idequeue t = Some 0" using ide_rw_queues[OF inv r _ t] by (simp add: ide_inv_def)
  then show ?thesis using ide_refines_memory_disk[OF inv run, of 0] run by blast
qed

text \<open>
  C29. A failed read is not reported. When the drive reports an error for a read, \<^verbatim>\<open>ideintr\<close> transfers no data but
  marks the buffer valid, so that \<^verbatim>\<open>iderw\<close> returns and \<^verbatim>\<open>bread\<close> hands out a buffer with the previous contents of
  its memory as if they were the block.
\<close>

theorem ide_read_error_is_silent:
  assumes "idequeue s = Some i" and "qnext s i = None" and "i < length (bufs s)" and "\<not> b_dirty (buf_at s i)"
    and "ide_ready (status s (readings s))" and "status s (readings s) AND (IDE_DF OR IDE_ERR) \<noteq> 0"
  shows "ok ideintr s (\<lambda>_ t. b_valid (buf_at t i) \<and> b_data (buf_at t i) = b_data (buf_at s i) \<and> ide_rw_wait i t = Ret () t)"
proof -
  have "idewait True (s\<lparr>idequeue := None\<rparr>) = Ret (- 1) (s\<lparr>idequeue := None, readings := Suc (readings s)\<rparr>)"
    using assms(5,6) by (simp add: idewait_def idewait_loop.simps)
  then show ?thesis using assms(1-4)
    by (simp add: ok_def ideintr_def kbind_def wakeup_def wakeup1_def upd_buf_def ide_rw_wait_def)
qed

theorem ide_read_error_is_silent_witness:
  "ok ideintr ((example_ide (\<lambda>_. 0x41))\<lparr>idequeue := Some 0\<rparr>) (\<lambda>_ t. b_valid (buf_at t 0) \<and> b_data (buf_at t 0) = [7])"
  by (rule ok_mono[OF ide_read_error_is_silent[where i = 0]]) (simp_all add: example_ide_def ide_ready_def ide_consts)

end
