(* ===== verification/Xv6_Line.thy ===== *)
theory Xv6_Line
  imports Xv6_Boot
begin

text \<open>
  The console as a line editor. The ring \<^verbatim>\<open>input.buf\<close> with its three counters stands for the characters that
  are finished lines (between \<^verbatim>\<open>r\<close> and \<^verbatim>\<open>w\<close>) and the line being edited (between \<^verbatim>\<open>w\<close> and \<^verbatim>\<open>e\<close>). The keyboard side
  (\<^verbatim>\<open>consoleintr\<close>) implements the editing keys on these two lists, and the reading side (\<^verbatim>\<open>consoleread\<close>) takes
  lines off the first. The screen's cursor stays on the screen, so that printing does not panic.
\<close>

subsection \<open>The screen\<close>

definition on_screen :: "'z istate_scheme \<Rightarrow> bool" where
  "on_screen s \<longleftrightarrow> 0 \<le> cga_pos s \<and> cga_pos s < 24 * 80 \<and> length (crt s) = 25 * 80"

definition printed :: "'z istate_scheme \<Rightarrow> 'z istate_scheme \<Rightarrow> bool" where
  "printed s t \<longleftrightarrow> t = s\<lparr>uart_out := uart_out t, cga_pos := cga_pos t, crt := crt t\<rparr>"

lemma printed_refl [simp]: "printed s s"
  by (simp add: printed_def)

lemma printed_trans: "printed s t \<Longrightarrow> printed t u \<Longrightarrow> printed s u"
  unfolding printed_def by (cases s; cases t; cases u) simp

lemma printedD:
  assumes "printed s t"
  shows "in_buf t = in_buf s" "in_r t = in_r s" "in_w t = in_w s" "in_e t = in_e s" "ptable t = ptable s" "mem t = mem s"
    "cpus t = cpus s" "thiscpu t = thiscpu s"
  using assms[unfolded printed_def, THEN arg_cong, of in_buf] assms[unfolded printed_def, THEN arg_cong, of in_r]
    assms[unfolded printed_def, THEN arg_cong, of in_w] assms[unfolded printed_def, THEN arg_cong, of in_e]
    assms[unfolded printed_def, THEN arg_cong, of ptable] assms[unfolded printed_def, THEN arg_cong, of mem]
    assms[unfolded printed_def, THEN arg_cong, of cpus] assms[unfolded printed_def, THEN arg_cong, of thiscpu]
  by simp_all

lemma cgaputc_ok:
  assumes "on_screen s"
  shows "\<exists>p c'. cgaputc c s = Ret () (s\<lparr>cga_pos := p, crt := c'\<rparr>) \<and> 0 \<le> p \<and> p < 24 * 80 \<and> length c' = 25 * 80"
proof -
  let ?p = "cga_pos s"
  have a: "0 \<le> ?p" "?p < 1920" "length (crt s) = 2000" using assms by (simp_all add: on_screen_def)
  then have "?p div 80 \<le> 23" by linarith
  moreover have "?p - ?p mod 80 = 80 * (?p div 80)" by (rule minus_mod_eq_mult_div)
  ultimately have m: "?p + (80 - ?p mod 80) \<le> 1920" "0 \<le> ?p + (80 - ?p mod 80)" using a(1) by linarith+
  obtain q scr where q: "(if c = 10 then (?p + (80 - ?p mod 80), crt s)
      else if c = BACKSPACE then (if ?p > 0 then ?p - 1 else ?p, crt s)
      else (?p + 1, (crt s)[nat ?p := (word_of_int c AND 0xff) OR 0x0700])) = (q, scr)"
    "0 \<le> q" "q \<le> 1920" "length scr = 2000"
  proof (cases "c = 10 \<or> c = BACKSPACE")
    case True
    then show ?thesis using that m a by (cases "c = 10"; cases "?p > 0") auto
  next
    case False
    then show ?thesis using that[of "?p + 1" "(crt s)[nat ?p := (word_of_int c AND 0xff) OR 0x0700]"] a by simp
  qed
  show ?thesis
  proof (cases "24 \<le> q div 80")
    case True
    then have "q = 1920" using q(3) by linarith
    then show ?thesis using q(4) unfolding cgaputc_def Let_def q(1) by (simp add: min_def) (intro exI conjI, rule refl, simp_all)
  next
    case False
    then have "q < 1920" by linarith
    then show ?thesis using q(2,4) False unfolding cgaputc_def Let_def q(1) by simp (intro exI conjI, rule refl, simp_all)
  qed
qed

lemma consputc_ok:
  assumes "on_screen s"
  shows "ok (consputc c) s (\<lambda>_ t. printed s t \<and> on_screen t)"
proof -
  have "\<exists>u. (if c = BACKSPACE then kfor [8, 32, 8] uartputc else uartputc (word_of_int c)) s = Ret () (s\<lparr>uart_out := u\<rparr>)"
    by (auto simp: uartputc_def kbind_def)
  then obtain u where u: "(if c = BACKSPACE then kfor [8, 32, 8] uartputc else uartputc (word_of_int c)) s = Ret () (s\<lparr>uart_out := u\<rparr>)"
    by blast
  have "on_screen (s\<lparr>uart_out := u\<rparr>)" using assms by (simp add: on_screen_def)
  then obtain p c' where "cgaputc c (s\<lparr>uart_out := u\<rparr>) = Ret () (s\<lparr>uart_out := u, cga_pos := p, crt := c'\<rparr>)" "0 \<le> p" "p < 24 * 80" "length c' = 25 * 80"
    using cgaputc_ok by fastforce
  then show ?thesis using u by (auto simp: ok_def consputc_def kbind_def printed_def on_screen_def)
qed

lemma print_ok:
  assumes "on_screen s"
  shows "ok (kfor cs (\<lambda>c. consputc (f c))) s (\<lambda>_ t. printed s t \<and> on_screen t)"
proof -
  have "ok (kfor cs (\<lambda>c. consputc (f c))) s (\<lambda>_ t. (\<lambda>k t. printed s t \<and> on_screen t) (length cs) t)"
    by (rule ok_kfor) (use assms consputc_ok in \<open>auto intro: ok_mono printed_trans\<close>)
  then show ?thesis by simp
qed

subsection \<open>The input ring\<close>

definition ring :: "'z istate_scheme \<Rightarrow> nat \<Rightarrow> uchar" where
  "ring s k = in_buf s ! ((unat (in_r s) + k) mod INPUT_BUF)"

definition n_line :: "'z istate_scheme \<Rightarrow> nat" where
  "n_line s = unat (in_e s - in_r s)"

definition n_done :: "'z istate_scheme \<Rightarrow> nat" where
  "n_done s = unat (in_w s - in_r s)"

definition finished :: "'z istate_scheme \<Rightarrow> uchar list" where
  "finished s = map (ring s) [0..<n_done s]"

definition editing :: "'z istate_scheme \<Rightarrow> uchar list" where
  "editing s = map (ring s) [n_done s..<n_line s]"

definition line_inv :: "'z istate_scheme \<Rightarrow> bool" where
  "line_inv s \<longleftrightarrow> length (in_buf s) = INPUT_BUF \<and> n_done s \<le> n_line s \<and> n_line s \<le> INPUT_BUF \<and> 10 \<notin> set (editing s) \<and> on_screen s"

lemma lengths [simp]: "length (finished s) = n_done s" "length (editing s) = n_line s - n_done s"
  by (simp_all add: finished_def editing_def)

lemma ring_position: "unat (x :: uint) mod 128 = (unat r + unat (x - r)) mod 128"
proof -
  have "x = r + (x - r)" by simp
  then have "unat x = (unat r + unat (x - r)) mod 2 ^ 32" by (metis unat_add_mod)
  then show ?thesis by (simp add: mod_mod_cancel)
qed

lemma unat_succ: "unat (a - b :: uint) < 128 \<Longrightarrow> unat (a + 1 - b) = Suc (unat (a - b))"
proof -
  assume "unat (a - b) < 128"
  then have "unat ((a - b) + 1) = Suc (unat (a - b))" by (simp add: unat_add_mod)
  moreover have "a + 1 - b = (a - b) + 1" by simp
  ultimately show ?thesis by (simp only:)
qed

lemma unat_pred: "a \<noteq> b \<Longrightarrow> unat (a - 1 - b :: uint) = unat (a - b) - 1"
proof -
  assume "a \<noteq> b"
  then have "unat ((a - b) - 1) = unat (a - b) - 1" by (intro unat_minus_one) simp
  moreover have "a - 1 - b = (a - b) - 1" by simp
  ultimately show ?thesis by (simp only:)
qed

lemma ring_lt: "(i::nat) < n \<Longrightarrow> n < 128 \<Longrightarrow> (a + i) mod 128 \<noteq> (a + n) mod 128"
  using mod_eq_dvd_iff_nat[of "a + i" "a + n" 128] dvd_imp_le[of 128 "n - i"] by auto

lemma line_ring_put:
  assumes "length b = 128" and "n < 128" and "i \<le> n"
  shows "b[(a + n) mod 128 := c] ! ((a + i) mod 128) = (if i = n then c else b ! ((a + i) mod 128))"
  using assms ring_lt[of i n a] by (auto simp: nth_list_update)

lemma printed_line:
  assumes "printed s t"
  shows "finished t = finished s" "editing t = editing s" "n_line t = n_line s" "n_done t = n_done s"
  using printedD[OF assms] by (simp_all add: finished_def editing_def n_line_def n_done_def ring_def[abs_def])

lemma done_counts:
  assumes "line_inv s"
  shows "in_e s \<noteq> in_w s \<longleftrightarrow> n_done s < n_line s" and "in_r s \<noteq> in_w s \<longleftrightarrow> 0 < n_done s"
proof -
  have "in_e s = in_w s \<longleftrightarrow> in_e s - in_r s = in_w s - in_r s" by simp
  also have "\<dots> \<longleftrightarrow> n_line s = n_done s" by (simp only: n_line_def n_done_def word_unat_eq_iff)
  finally show "in_e s \<noteq> in_w s \<longleftrightarrow> n_done s < n_line s" using assms by (auto simp: line_inv_def)
  show "in_r s \<noteq> in_w s \<longleftrightarrow> 0 < n_done s" by (auto simp: n_done_def unat_gt_0)
qed

lemma type_char:
  fixes c :: uchar
  assumes "line_inv s" and "n_line s < INPUT_BUF"
  defines "t \<equiv> s\<lparr>in_buf := (in_buf s)[unat (in_e s) mod INPUT_BUF := c], in_e := in_e s + 1\<rparr>"
  shows "finished t = finished s" and "editing t = editing s @ [c]" and "n_line t = Suc (n_line s)" and "n_done t = n_done s"
proof -
  have inv: "length (in_buf s) = 128" "n_done s \<le> n_line s" "n_line s < 128"
    using assms by (simp_all add: line_inv_def INPUT_BUF_def)
  show n: "n_line t = Suc (n_line s)" "n_done t = n_done s"
    using unat_succ[of "in_e s" "in_r s"] inv(3) by (simp_all add: t_def n_line_def n_done_def)
  have r: "ring t k = (if k = n_line s then c else ring s k)" if "k \<le> n_line s" for k
    using line_ring_put[OF inv(1,3) that] ring_position[of "in_e s" "in_r s"] by (simp add: t_def ring_def n_line_def INPUT_BUF_def)
  show "finished t = finished s" using r inv(2) by (auto simp: finished_def n)
  show "editing t = editing s @ [c]" using r inv(2) by (auto simp: editing_def n)
qed

lemma erase_char:
  assumes "line_inv s" and "in_e s \<noteq> in_w s"
  defines "t \<equiv> s\<lparr>in_e := in_e s - 1\<rparr>"
  shows "finished t = finished s" and "editing t = butlast (editing s)" and "n_line t = n_line s - 1" and "n_done t = n_done s"
    and "in_at s (in_e s - 1) = last (editing s)"
proof -
  have lt: "n_done s < n_line s" using done_counts(1)[OF assms(1)] assms(2) by simp
  then have ne: "in_e s \<noteq> in_r s" by (auto simp: n_line_def)
  show n: "n_line t = n_line s - 1" "n_done t = n_done s"
    using unat_pred[OF ne] by (simp_all add: t_def n_line_def n_done_def)
  have r: "ring t = ring s" by (simp add: t_def ring_def[abs_def])
  obtain m where m: "n_line s = Suc m" "n_done s \<le> m" using lt by (cases "n_line s") auto
  show "finished t = finished s" "editing t = butlast (editing s)" using m by (simp_all add: finished_def editing_def n r)
  have "unat (in_e s - 1) mod 128 = (unat (in_r s) + m) mod 128"
    using ring_position[of "in_e s - 1" "in_r s"] unat_pred[OF ne] m(1) by (simp add: n_line_def)
  then show "in_at s (in_e s - 1) = last (editing s)" using m by (simp add: in_at_def editing_def ring_def INPUT_BUF_def)
qed

lemma finish_line:
  assumes "n_done s \<le> n_line s"
  defines "t \<equiv> s\<lparr>in_w := in_e s\<rparr>"
  shows "finished t = finished s @ editing s" and "editing t = []" and "n_line t = n_line s" and "n_done t = n_line s"
proof -
  show n: "n_line t = n_line s" "n_done t = n_line s" by (simp_all add: t_def n_line_def n_done_def)
  have r: "ring t = ring s" by (simp add: t_def ring_def[abs_def])
  have "[0..<n_line s] = [0..<n_done s] @ [n_done s..<n_line s]"
    using assms by (metis le0 le_add_diff_inverse upt_add_eq_append)
  then show "finished t = finished s @ editing s" "editing t = []" by (simp_all add: finished_def editing_def n r)
qed

lemma take_char:
  assumes "line_inv s" and "in_r s \<noteq> in_w s"
  defines "t \<equiv> s\<lparr>in_r := in_r s + 1\<rparr>"
  shows "finished s = in_at s (in_r s) # finished t" and "editing t = editing s" and "line_inv t"
proof -
  obtain m where m: "n_done s = Suc m" using done_counts(2)[OF assms(1)] assms(2) by (cases "n_done s") auto
  then obtain k where k: "n_line s = Suc k" "m \<le> k" "k < 128" using assms(1) by (cases "n_line s") (auto simp: line_inv_def INPUT_BUF_def)
  have step: "unat (x - (r + 1)) = unat (x - r) - 1" if "x \<noteq> r" for x r :: uint
    using unat_pred[OF that] by (simp add: diff_diff_add diff_diff_eq add.commute)
  have "in_e s \<noteq> in_r s" using k(1) by (auto simp: n_line_def)
  then have n: "n_done t = m" "n_line t = k"
    using step[of "in_w s" "in_r s"] step[of "in_e s" "in_r s"] m k assms(2) by (auto simp: t_def n_done_def n_line_def)
  have r: "ring t i = ring s (Suc i)" for i
  proof -
    have "(unat (in_r s + 1) + i) mod 128 = ((unat (in_r s + 1)) mod 128 + i) mod 128" by (simp add: mod_add_left_eq)
    also have "unat (in_r s + 1) mod 128 = (unat (in_r s) + 1) mod 128" by (simp add: unat_add_mod mod_mod_cancel)
    finally have "(unat (in_r s + 1) + i) mod 128 = (unat (in_r s) + Suc i) mod 128" by (simp add: mod_simps)
    then show ?thesis by (simp add: t_def ring_def INPUT_BUF_def)
  qed
  show "finished s = in_at s (in_r s) # finished t"
  proof -
    have "map (ring s) [0..<Suc m] = ring s 0 # map (ring t) [0..<m]"
      by (simp add: upt_conv_Cons map_Suc_upt[symmetric] comp_def r del: upt_Suc)
    then show ?thesis unfolding finished_def m n by (simp add: in_at_def ring_def)
  qed
  show e: "editing t = editing s"
    unfolding editing_def m n k by (simp add: map_Suc_upt[symmetric] comp_def r del: upt_Suc)
  show "line_inv t" using assms(1) e n k by (simp add: line_inv_def on_screen_def t_def INPUT_BUF_def)
qed

lemma line_inv_printed: "line_inv s \<Longrightarrow> printed s t \<Longrightarrow> on_screen t \<Longrightarrow> line_inv t"
  using printed_line[of s t] printedD(1)[of s t] by (simp add: line_inv_def)

lemma erase_inv: "line_inv s \<Longrightarrow> in_e s \<noteq> in_w s \<Longrightarrow> line_inv (s\<lparr>in_e := in_e s - 1\<rparr>)"
  using erase_char[of s] done_counts(1)[of s]
  by (auto simp: line_inv_def on_screen_def dest: in_set_butlastD)

subsection \<open>Editing\<close>

text \<open>What a key does to the finished lines and the line being edited.\<close>

fun edit_key :: "int \<Rightarrow> uchar list \<times> uchar list \<Rightarrow> uchar list \<times> uchar list" where
  "edit_key c (w, e) =
     (if c = 16 then (w, e)
      else if c = 21 then (w, [])
      else if c = 8 \<or> c = 127 then (w, butlast e)
      else if c = 0 \<or> INPUT_BUF \<le> length w + length e then (w, e)
      else let k = word_of_int (if c = 13 then 10 else c) in
        if c = 10 \<or> c = 13 \<or> c = 4 \<or> Suc (length w + length e) = INPUT_BUF then (w @ e @ [k], []) else (w, e @ [k]))"

definition edited :: "'z istate_scheme \<Rightarrow> uchar list \<times> uchar list \<Rightarrow> 'z istate_scheme \<Rightarrow> bool" where
  "edited s we t \<longleftrightarrow> line_inv t \<and> (finished t, editing t) = we \<and> length (ptable t) = length (ptable s) \<and>
     (if finished t = finished s then ptable t = ptable s else \<forall>p \<in> set (ptable t). p_state p = SLEEPING \<longrightarrow> p_chan p \<noteq> Some Chan_input)"

lemma erase_ok:
  assumes "line_inv s" and "in_e s \<noteq> in_w s"
  shows "ok (consputc BACKSPACE) (s\<lparr>in_e := in_e s - 1\<rparr>) (\<lambda>_ t. line_inv t \<and> finished t = finished s \<and>
    editing t = butlast (editing s) \<and> ptable t = ptable s)"
proof -
  let ?s = "s\<lparr>in_e := in_e s - 1\<rparr>"
  have "on_screen ?s" using assms(1) by (simp add: line_inv_def on_screen_def)
  then obtain t where t: "consputc BACKSPACE ?s = Ret () t" "printed ?s t" "on_screen t" using consputc_ok by (auto simp: ok_def)
  have "line_inv t" by (rule line_inv_printed[OF erase_inv[OF assms] t(2,3)])
  moreover have "ptable t = ptable s" using printedD(5)[OF t(2)] by simp
  ultimately show ?thesis using t(1) printed_line(1,2)[OF t(2)] erase_char(1,2)[OF assms] by (simp add: ok_def)
qed

lemma kill_line_ok:
  "line_inv s \<Longrightarrow> ok kill_line s (\<lambda>_ t. line_inv t \<and> finished t = finished s \<and> editing t = [] \<and> ptable t = ptable s)"
proof (induction s rule: kill_line.induct)
  case (1 s)
  show ?case
  proof (cases "in_e s \<noteq> in_w s")
    case True
    then have ne: "editing s \<noteq> []" using done_counts(1)[OF 1(2)] by (simp flip: length_greater_0_conv)
    then have "in_at s (in_e s - 1) \<noteq> 10"
      using erase_char(5)[OF 1(2) True] 1(2) by (metis last_in_set line_inv_def)
    moreover obtain t where t: "consputc BACKSPACE (s\<lparr>in_e := in_e s - 1\<rparr>) = Ret () t" "line_inv t" "finished t = finished s" "ptable t = ptable s"
      using erase_ok[OF 1(2) True] by (auto simp: ok_def)
    ultimately have "ok kill_line t (\<lambda>_ u. line_inv u \<and> finished u = finished t \<and> editing u = [] \<and> ptable u = ptable t)"
      using 1(1) True by blast
    then show ?thesis using t True \<open>in_at s (in_e s - 1) \<noteq> 10\<close> by (simp add: ok_def kill_line.simps[of s])
  next
    case False
    then have "editing s = []" using done_counts(1)[OF 1(2)] by (simp flip: length_0_conv)
    then show ?thesis using False 1(2) by (simp add: ok_def kill_line.simps[of s])
  qed
qed

lemma typed_ok:
  assumes "line_inv s" and "n_line s < INPUT_BUF"
  shows "ok (kbind (kmod (\<lambda>s. s\<lparr>in_buf := (in_buf s)[unat (in_e s) mod INPUT_BUF := word_of_int c], in_e := in_e s + 1\<rparr>)) (\<lambda>_. consputc c)) s
    (\<lambda>_ t. finished t = finished s \<and> editing t = editing s @ [word_of_int c] \<and> n_line t = Suc (n_line s) \<and> n_done t = n_done s \<and>
      length (in_buf t) = INPUT_BUF \<and> on_screen t \<and> ptable t = ptable s \<and> in_r t = in_r s)"
proof -
  let ?s = "s\<lparr>in_buf := (in_buf s)[unat (in_e s) mod INPUT_BUF := word_of_int c], in_e := in_e s + 1\<rparr>"
  have "on_screen ?s" using assms(1) by (simp add: line_inv_def on_screen_def)
  then obtain t where t: "consputc c ?s = Ret () t" "printed ?s t" "on_screen t" using consputc_ok by (auto simp: ok_def)
  have "length (in_buf t) = INPUT_BUF" "ptable t = ptable s" "in_r t = in_r s"
    using printedD(1,2,5)[OF t(2)] assms(1) by (simp_all add: line_inv_def)
  moreover have "kbind (kmod (\<lambda>s. s\<lparr>in_buf := (in_buf s)[unat (in_e s) mod INPUT_BUF := word_of_int c], in_e := in_e s + 1\<rparr>)) (\<lambda>_. consputc c) s = Ret () t"
    using t(1) by simp
  ultimately show ?thesis
    using printed_line[OF t(2)] type_char[OF assms, of "word_of_int c"] t(3) by (simp add: ok_def)
qed

lemma uchar_10: "0 \<le> c \<Longrightarrow> c < 256 \<Longrightarrow> word_of_int c = (10 :: uchar) \<longleftrightarrow> c = 10"
  using word_of_int_eq_iff[of c 10, where 'a = 8] by (simp add: take_bit_int_eq_self)

lemma full_line: "in_e s = in_r s + of_nat INPUT_BUF \<longleftrightarrow> n_line s = INPUT_BUF"
proof -
  have "in_e s = in_r s + of_nat INPUT_BUF \<longleftrightarrow> in_e s - in_r s = of_nat INPUT_BUF" by (metis add.commute diff_add_cancel add_diff_cancel_right')
  then show ?thesis by (simp add: n_line_def INPUT_BUF_def word_unat_eq_iff)
qed

lemma wakeup_input: "\<forall>p \<in> set (ptable (wakeup1 (Some c) s)). p_state p = SLEEPING \<longrightarrow> p_chan p \<noteq> Some c"
  by (auto simp: wakeup1_def)

lemma enter_char:
  assumes inv: "line_inv s" and room: "n_line s < INPUT_BUF" and c: "c \<noteq> 0" "0 \<le> c" "c < 256" "c \<notin> {8, 13, 16, 21, 127}"
  shows "ok (kbind (kmod (\<lambda>s. s\<lparr>in_buf := (in_buf s)[unat (in_e s) mod INPUT_BUF := word_of_int c], in_e := in_e s + 1\<rparr>)) (\<lambda>_.
             kbind (consputc c) (\<lambda>_ s.
               if c = 10 \<or> c = 4 \<or> in_e s = in_r s + of_nat INPUT_BUF
               then kbind (kmod (\<lambda>s. s\<lparr>in_w := in_e s\<rparr>)) (\<lambda>_. kbind (wakeup Chan_input) (\<lambda>_. kret False)) s
               else Ret False s))) s
    (\<lambda>d t. edited s (edit_key c (finished s, editing s)) t \<and> \<not> d)"
proof -
  have dl: "n_done s \<le> n_line s" using inv by (simp add: line_inv_def)
  let ?put = "kbind (kmod (\<lambda>s. s\<lparr>in_buf := (in_buf s)[unat (in_e s) mod INPUT_BUF := word_of_int c], in_e := in_e s + 1\<rparr>)) (\<lambda>_. consputc c)"
  obtain t where t: "?put s = Ret () t" "finished t = finished s" "editing t = editing s @ [word_of_int c]"
      "n_line t = Suc (n_line s)" "n_done t = n_done s" "length (in_buf t) = INPUT_BUF" "on_screen t" "ptable t = ptable s"
    using typed_ok[OF inv room, of c] by (auto simp: ok_def)
  have run: "consputc c (s\<lparr>in_buf := (in_buf s)[unat (in_e s) mod INPUT_BUF := word_of_int c], in_e := in_e s + 1\<rparr>) = Ret () t"
    using t(1) by simp
  let ?go = "c = 10 \<or> c = 4 \<or> Suc (n_line s) = INPUT_BUF"
  have spec: "edit_key c (finished s, editing s) =
      (if ?go then (finished s @ editing s @ [word_of_int c], []) else (finished s, editing s @ [word_of_int c]))"
    using c room dl by auto
  show ?thesis
  proof (cases ?go)
    case True
    let ?t = "t\<lparr>in_w := in_e t\<rparr>" and ?u = "wakeup1 (Some Chan_input) (t\<lparr>in_w := in_e t\<rparr>)"
    have dt: "n_done t \<le> n_line t" using t(4,5) dl by simp
    have u: "finished ?u = finished ?t" "editing ?u = editing ?t" "n_line ?u = n_line ?t" "n_done ?u = n_done ?t" "in_buf ?u = in_buf t" "on_screen ?u = on_screen t"
      by (simp_all add: wakeup1_def finished_def editing_def n_line_def n_done_def ring_def[abs_def] on_screen_def)
    have "finished ?u = finished s @ editing s @ [word_of_int c]" "editing ?u = []"
      using finish_line(1,2)[OF dt] t(2,3) u(1,2) by simp_all
    moreover have "line_inv ?u" using finish_line(2-4)[OF dt] u t(4,6,7) room by (simp add: line_inv_def)
    moreover have "length (ptable ?u) = length (ptable s)" using t(8) by (simp add: wakeup1_def)
    ultimately have "edited s (edit_key c (finished s, editing s)) ?u"
      unfolding spec using True wakeup_input[of Chan_input ?t] by (simp add: edited_def)
    then show ?thesis using True run t(4) by (auto simp: ok_def kbind_def wakeup_def full_line)
  next
    case False
    have "line_inv t" using inv c t False room uchar_10[of c] dl by (auto simp: line_inv_def)
    then have "edited s (edit_key c (finished s, editing s)) t" unfolding spec using False t by (simp add: edited_def)
    then show ?thesis using False run t(4) by (auto simp: ok_def kbind_def full_line)
  qed
qed

lemma consoleintr1_edits:
  assumes "line_inv s" and "0 \<le> c" and "c < 256"
  shows "ok (consoleintr1 c) s (\<lambda>d t. edited s (edit_key c (finished s, editing s)) t \<and> d = (c = 16))"
proof -
  have dl: "n_done s \<le> n_line s" using assms(1) by (simp add: line_inv_def)
  have room: "in_e s - in_r s < of_nat INPUT_BUF \<longleftrightarrow> n_line s < INPUT_BUF"
    by (simp add: n_line_def INPUT_BUF_def word_less_nat_alt)
  consider "c = 16" | "c = 21" | "c = 8 \<or> c = 127" | "c \<noteq> 16" "c \<noteq> 21" "c \<noteq> 8" "c \<noteq> 127" "c = 0 \<or> INPUT_BUF \<le> n_line s"
    | "c \<noteq> 16" "c \<noteq> 21" "c \<noteq> 8" "c \<noteq> 127" "c \<noteq> 0" "n_line s < INPUT_BUF" by linarith
  then show ?thesis
  proof cases
    case 1
    then show ?thesis using assms(1) by (simp add: consoleintr1_def edited_def)
  next
    case 2
    obtain t where "kill_line s = Ret () t" "line_inv t" "finished t = finished s" "editing t = []" "ptable t = ptable s"
      using kill_line_ok[OF assms(1)] by (auto simp: ok_def)
    then show ?thesis using 2 by (simp add: consoleintr1_def ok_def kbind_def edited_def) blast
  next
    case 3
    show ?thesis
    proof (cases "in_e s = in_w s")
      case True
      then have "editing s = []" using done_counts(1)[OF assms(1)] by (simp flip: length_0_conv)
      then show ?thesis using 3 True assms(1) by (auto simp: consoleintr1_def ok_def edited_def)
    next
      case False
      obtain t where "consputc BACKSPACE (s\<lparr>in_e := in_e s - 1\<rparr>) = Ret () t" "line_inv t" "finished t = finished s"
          "editing t = butlast (editing s)" "ptable t = ptable s"
        using erase_ok[OF assms(1) False] by (auto simp: ok_def)
      then show ?thesis using 3 False by (auto simp: consoleintr1_def ok_def kbind_def edited_def)
    qed
  next
    case 4
    then show ?thesis using assms(1) dl room by (auto simp: consoleintr1_def ok_def edited_def)
  next
    case 5
    let ?c = "if c = 13 then 10 else c"
    have "edit_key c (finished s, editing s) = edit_key ?c (finished s, editing s)" by simp
    moreover have "ok (consoleintr1 c) s (\<lambda>d t. edited s (edit_key ?c (finished s, editing s)) t \<and> \<not> d)"
    proof -
      have p: "?c \<noteq> 0" "0 \<le> ?c" "?c < 256" "?c \<notin> {8, 13, 16, 21, 127}" using 5 assms(2,3) by auto
      note e = enter_char[OF assms(1) 5(6) p]
      have "kget (\<lambda>s. c \<noteq> 0 \<and> in_e s - in_r s < of_nat INPUT_BUF) s = Ret True s" using 5 room by simp
      then show ?thesis using 5(1-4) e unfolding consoleintr1_def Let_def ok_def by (simp only: kbind_Ret if_True if_False simp_thms)
    qed
    ultimately show ?thesis using 5 by simp
  qed
qed

lemma edit_key_grows: "\<exists>k. fst (edit_key c we) = fst we @ k"
  by (cases we) (auto simp: Let_def)

lemma fold_edit_grows: "\<exists>k. fst (fold edit_key cs we) = fst we @ k"
proof (induction cs arbitrary: we)
  case (Cons c cs)
  obtain k where "fst (edit_key c we) = fst we @ k" using edit_key_grows by blast
  then show ?case using Cons[of "edit_key c we"] by auto
qed simp

lemma consoleintr_edits:
  assumes "line_inv s" and "\<forall>c \<in> set cs. 0 \<le> c \<and> c < 256"
  shows "ok (consoleintr cs) s (\<lambda>d t. edited s (fold edit_key cs (finished s, editing s)) t \<and> d = (16 \<in> set cs))"
  using assms
proof (induction cs arbitrary: s)
  case Nil
  then show ?case by (simp add: edited_def)
next
  case (Cons c cs)
  let ?we = "edit_key c (finished s, editing s)"
  obtain t where t: "consoleintr1 c s = Ret (c = 16) t" "edited s ?we t"
    using consoleintr1_edits[of s c] Cons.prems by (auto simp: ok_def)
  then have inv: "line_inv t" and we: "(finished t, editing t) = ?we" by (simp_all add: edited_def)
  obtain u where u: "consoleintr cs t = Ret (16 \<in> set cs) u" "edited t (fold edit_key cs ?we) u"
    using Cons.IH[OF inv] Cons.prems(2) unfolding we by (auto simp: ok_def)
  have ft: "finished t = fst ?we" and fu: "finished u = fst (fold edit_key cs ?we)"
    using we u(2) by (simp_all add: edited_def prod_eq_iff del: edit_key.simps)
  obtain k where k: "finished t = finished s @ k" using edit_key_grows[of c "(finished s, editing s)"] ft by auto
  obtain l where l: "finished u = finished t @ l" using fold_edit_grows[of cs ?we] ft fu by auto
  have "edited s (fold edit_key cs ?we) u"
  proof (cases "finished t = finished s")
    case True
    then show ?thesis using t(2) u(2) unfolding edited_def by simp
  next
    case False
    then have "finished u \<noteq> finished s" using k l by auto
    then show ?thesis using False t(2) u(2) unfolding edited_def by (auto split: if_splits)
  qed
  then show ?case using t(1) u(1) by (auto simp: ok_def kbind_def simp del: edit_key.simps)
qed

subsection \<open>Reading\<close>

text \<open>
  What a read of \<open>n\<close> bytes takes from the finished lines: bytes up to and with the end of a line; an end-of-file
  mark ends the read, and stays for the next read if it is not the first; without a value the reader waits.
\<close>

fun read_line :: "nat \<Rightarrow> bool \<Rightarrow> uchar list \<Rightarrow> (uchar list \<times> uchar list) option" where
  "read_line 0 some w = Some ([], w)"
| "read_line (Suc n) some [] = None"
| "read_line (Suc n) some (c # w) =
     (if c = 4 then Some ([], if some then c # w else w)
      else if c = 10 then Some ([c], w)
      else map_option (\<lambda>(r, w). (c # r, w)) (read_line n True w))"

lemma consoleread_loop_reads:
  assumes "line_inv s" and "read_line n some (finished s) = Some (r, w)"
  shows "ok (consoleread_loop n some) s (\<lambda>x t. x = (False, r) \<and> finished t = w \<and> editing t = editing s \<and> line_inv t)"
  using assms
proof (induction n arbitrary: some s r)
  case 0
  then show ?case by simp
next
  case (Suc n)
  then have ne: "in_r s \<noteq> in_w s" using done_counts(2)[OF Suc.prems(1)] by (cases "finished s") (auto simp flip: lengths(1))
  note t = take_char[OF Suc.prems(1) ne]
  let ?t = "s\<lparr>in_r := in_r s + 1\<rparr>"
  show ?case
  proof (cases "in_at s (in_r s) = 4 \<or> in_at s (in_r s) = 10")
    case True
    then show ?thesis using Suc.prems t ne by (auto simp: ok_def Let_def split: if_splits)
  next
    case False
    then obtain r' where r: "read_line n True (finished ?t) = Some (r', w)" "r = in_at s (in_r s) # r'"
      using Suc.prems(2) t(1) by auto
    from Suc.IH[OF t(3) r(1)] obtain u where u: "consoleread_loop n True ?t = Ret (False, r') u" "finished u = w" "editing u = editing ?t" "line_inv u"
      by (auto simp: ok_def)
    have "consoleread_loop (Suc n) some s = Ret (False, r) u" using ne False r(2) u(1) by (simp add: Let_def kbind_def)
    then show ?thesis using u t(2) by (simp add: ok_def)
  qed
qed

text \<open>
  C30. The console is a line editor. For every sequence of characters from the keyboard, \<^verbatim>\<open>consoleintr\<close> returns,
  without a panic of the screen code, and has done to the finished lines and the line being edited what the
  keys mean: erase (backspace, delete), kill the line (\<open>^U\<close>), end it (return, \<open>^D\<close>, or a full buffer), or add a
  character; characters that do not fit are dropped. If it finished a line, no process is left sleeping on
  the input. A read then takes the bytes of the first finished line, as many as it asks for, in order.
\<close>

theorem console_line_editor:
  assumes "line_inv s" and "\<forall>c \<in> set cs. 0 \<le> c \<and> c < 256"
  shows "ok (consoleintr cs) s (\<lambda>d t. line_inv t \<and> (finished t, editing t) = fold edit_key cs (finished s, editing s) \<and>
    (finished t \<noteq> finished s \<longrightarrow> (\<forall>p \<in> set (ptable t). p_state p = SLEEPING \<longrightarrow> p_chan p \<noteq> Some Chan_input)) \<and>
    (\<forall>n r w. read_line n False (finished t) = Some (r, w) \<longrightarrow>
      ok (consoleread_loop n False) t (\<lambda>x u. x = (False, r) \<and> finished u = w \<and> editing u = editing t \<and> line_inv u)))"
  by (rule ok_mono[OF consoleintr_edits[OF assms]]) (auto simp: edited_def intro: consoleread_loop_reads)

theorem console_line_editor_witness:
  "ok (consoleintr [97, 8, 98, 13]) (example_kernel []) (\<lambda>d t. finished t = [98, 10] \<and> editing t = [] \<and>
     ok (consoleread_loop 10 False) t (\<lambda>x u. x = (False, [98, 10]) \<and> finished u = []))"
proof -
  have n: "n_done (example_kernel []) = 0" "n_line (example_kernel []) = 0"
    by (simp_all add: n_done_def n_line_def example_kernel_def)
  then have e: "finished (example_kernel []) = []" "editing (example_kernel []) = []" by (simp_all add: finished_def editing_def)
  have inv: "line_inv (example_kernel [])"
    using n by (simp add: line_inv_def editing_def) (simp add: example_kernel_def INPUT_BUF_def on_screen_def)
  have f: "fold edit_key [97, 8, 98, 13] ([], []) = ([98, 10], [])" by (simp add: INPUT_BUF_def)
  have "read_line (Suc (Suc n)) False [98, 10] = Some ([98, 10], [])" for n by simp
  from this[of 8] have r: "read_line 10 False [98, 10] = Some ([98, 10], [])" by simp
  have "\<forall>c \<in> set [97, 8, 98, 13]. 0 \<le> c \<and> c < (256 :: int)" by simp
  from console_line_editor[OF inv this, unfolded e f] show ?thesis
  proof (rule ok_mono)
    fix d t
    assume t: "line_inv t \<and> (finished t, editing t) = ([98, 10], []) \<and>
      (finished t \<noteq> [] \<longrightarrow> (\<forall>p \<in> set (ptable t). p_state p = SLEEPING \<longrightarrow> p_chan p \<noteq> Some Chan_input)) \<and>
      (\<forall>n r w. read_line n False (finished t) = Some (r, w) \<longrightarrow>
        ok (consoleread_loop n False) t (\<lambda>x u. x = (False, r) \<and> finished u = w \<and> editing u = editing t \<and> line_inv u))"
    then have "ok (consoleread_loop 10 False) t (\<lambda>x u. x = (False, [98, 10]) \<and> finished u = [] \<and> editing u = editing t \<and> line_inv u)"
      using r by auto
    then have "ok (consoleread_loop 10 False) t (\<lambda>x u. x = (False, [98, 10]) \<and> finished u = [])" by (rule ok_mono) simp
    then show "finished t = [98, 10] \<and> editing t = [] \<and>
      ok (consoleread_loop 10 False) t (\<lambda>x u. x = (False, [98, 10]) \<and> finished u = [])" using t by simp
  qed
qed

end
