(* ===== verification/Xv6_Args.thy ===== *)
theory Xv6_Args
  imports Xv6_Syscall Xv6_Line
begin

text \<open>
  What the kernel accepts from a process. \<open>ubyte s p va\<close> is the byte at address \<open>va\<close> of process \<open>p\<close>, through its page
  table. The functions that fetch arguments are given in full, on every branch: what they accept lies in the
  memory of the process, whatever the process left in its registers, on its stack and in its memory. A
  system call number outside the table gives \<open>-1\<close> and changes nothing else.
\<close>

definition ubyte :: "'z ptab_scheme \<Rightarrow> nat \<Rightarrow> uint \<Rightarrow> uchar option" where
  "ubyte s p va = map_option (mem s) (mmu (mem s) (p_pgdir (proc_at s p)) False va)"

definition ubytes :: "'z ptab_scheme \<Rightarrow> nat \<Rightarrow> uint \<Rightarrow> nat \<Rightarrow> uchar list" where
  "ubytes s p va n = map (\<lambda>k. the (ubyte s p (va + of_nat k))) [0..<n]"

definition usize :: "'z ptab_scheme \<Rightarrow> nat \<Rightarrow> nat" where
  "usize s p = unat (p_sz (proc_at s p))"

text \<open>Process \<open>p\<close> runs on this CPU, its memory ends below the kernel and is mapped.\<close>

definition uspace :: "'z ptab_scheme \<Rightarrow> nat \<Rightarrow> bool" where
  "uspace s p \<longleftrightarrow> c_proc (cpus s ! thiscpu s) = Some p \<and> p_sz (proc_at s p) \<le> KERNBASE \<and>
     (\<forall>va < p_sz (proc_at s p). ubyte s p va \<noteq> None)"

lemma uspace_curproc: "uspace s p \<Longrightarrow> curproc s = Ret p s"
  by (simp add: uspace_def curproc_def myproc_def kbind_def)

lemma uspace_sz: "uspace s p \<Longrightarrow> usize s p \<le> 2147483648"
  by (simp add: uspace_def usize_def KERNBASE_def word_le_nat_alt)

lemma uspace_byte:
  assumes "uspace s p" and "unat va + k < usize s p"
  shows "ubyte s p (va + of_nat k) \<noteq> None"
proof -
  have "unat va + k < 2 ^ 32" using assms(2) uspace_sz[OF assms(1)] by simp
  then have "unat (va + of_nat k) = unat va + k" by (simp add: unat_add_mod unat_of_nat_small)
  then have "va + of_nat k < p_sz (proc_at s p)" using assms(2) by (simp only: word_less_nat_alt usize_def)
  then show ?thesis using assms(1) by (simp add: uspace_def)
qed

lemma ubytes_0 [simp]: "ubytes s p va 0 = []"
  by (simp add: ubytes_def)

lemma ubytes_Suc: "ubytes s p va (Suc n) = the (ubyte s p va) # ubytes s p (va + 1) n"
  by (simp add: ubytes_def upt_conv_Cons map_Suc_upt[symmetric] comp_def add.assoc del: upt_Suc)

lemma user_load_run:
  assumes "uspace s p" and "unat va + n \<le> usize s p"
  shows "user_load n va s = Ret (ubytes s p va n) s"
  using assms(2)
proof (induction n arbitrary: va)
  case (Suc n)
  obtain c where c: "ubyte s p va = Some c" using uspace_byte[OF assms(1), of va 0] Suc.prems by auto
  have "unat (va + 1) = Suc (unat va)" using Suc.prems uspace_sz[OF assms(1)] by (simp add: unat_add_mod)
  then have "user_load n (va + 1) s = Ret (ubytes s p (va + 1) n) s" using Suc by simp
  then show ?case
    using c by (auto simp: ubytes_Suc kbind_def uspace_curproc[OF assms(1)] ubyte_def)
qed simp

lemma if_swap: "b \<longleftrightarrow> \<not> c \<Longrightarrow> (if b then x else y) = (if c then y else x)"
  by simp

lemma below_end:
  assumes "sz \<le> (0x80000000 :: uint)" and "k < 2147483648"
  shows "\<not> (sz \<le> a \<or> sz < a + of_nat k) \<longleftrightarrow> unat a < unat sz \<and> unat a + k \<le> unat sz"
proof (cases "a < sz")
  case True
  then have "unat a + k < 2 ^ 32" using assms by (simp add: word_less_nat_alt word_le_nat_alt)
  then have "unat (a + of_nat k) = unat a + k" using assms(2) by (simp add: unat_add_mod unat_of_nat_small)
  then have "sz < a + of_nat k \<longleftrightarrow> unat sz < unat a + k" by (simp only: word_less_nat_alt)
  then show ?thesis using True by (auto simp: word_less_nat_alt word_le_nat_alt)
qed (auto simp: word_less_nat_alt word_le_nat_alt)

lemma fetchint_run:
  assumes "uspace s p"
  shows "fetchint addr s = Ret (if unat addr + 4 \<le> usize s p then Some (get32 (ubytes s p addr 4) 0) else None) s"
proof -
  have "p_sz (proc_at s p) \<le> 0x80000000" using assms by (simp add: uspace_def KERNBASE_def)
  from below_end[OF this, of 4 addr]
  have c: "\<not> (p_sz (proc_at s p) \<le> addr \<or> p_sz (proc_at s p) < addr + 4) \<longleftrightarrow> unat addr + 4 \<le> usize s p"
    by (auto simp: usize_def)
  show ?thesis
  proof (cases "unat addr + 4 \<le> usize s p")
    case True
    then show ?thesis using c user_load_run[OF assms True] by (simp add: fetchint_def kbind_def uspace_curproc[OF assms])
  next
    case False
    then have "p_sz (proc_at s p) \<le> addr \<or> p_sz (proc_at s p) < addr + 4" using c by blast
    then show ?thesis using False by (simp add: fetchint_def kbind_def uspace_curproc[OF assms])
  qed
qed

lemma fetchstr_loop_run:
  assumes "uspace s p" and "unat va + n \<le> usize s p"
  shows "fetchstr_loop n va s =
    Ret (if 0 \<in> set (ubytes s p va n) then Some (takeWhile (\<lambda>c. c \<noteq> 0) (ubytes s p va n)) else None) s"
  using assms(2)
proof (induction n arbitrary: va)
  case (Suc n)
  have l: "user_load 1 va s = Ret [the (ubyte s p va)] s"
  proof -
    have "ubytes s p va 1 = [the (ubyte s p va)]" using ubytes_Suc[of s p va 0] by simp
    moreover have "user_load 1 va s = Ret (ubytes s p va 1) s" by (rule user_load_run[OF assms(1)]) (use Suc.prems in simp)
    ultimately show ?thesis by (simp only:)
  qed
  have "unat (va + 1) = Suc (unat va)" using Suc.prems uspace_sz[OF assms(1)] by (simp add: unat_add_mod)
  then have "fetchstr_loop n (va + 1) s =
      Ret (if 0 \<in> set (ubytes s p (va + 1) n) then Some (takeWhile (\<lambda>c. c \<noteq> 0) (ubytes s p (va + 1) n)) else None) s"
    using Suc by simp
  then show ?case using l by (auto simp: kbind_def ubytes_Suc simp del: user_load.simps One_nat_def)
qed simp

text \<open>The argument number \<open>n\<close>, by the calling convention: the word above the return address on the user's stack.\<close>

definition arg_addr :: "'z ptab_scheme \<Rightarrow> nat \<Rightarrow> nat \<Rightarrow> uint" where
  "arg_addr s p n = read32 (mem s) (p_tf (proc_at s p) + TF_esp) + 4 + 4 * of_nat n"

definition arg_word :: "'z ptab_scheme \<Rightarrow> nat \<Rightarrow> nat \<Rightarrow> uint option" where
  "arg_word s p n = (if unat (arg_addr s p n) + 4 \<le> usize s p then Some (get32 (ubytes s p (arg_addr s p n) 4) 0) else None)"

lemma argint_run: "uspace s p \<Longrightarrow> argint n s = Ret (arg_word s p n) s"
  by (simp add: argint_def kbind_def uspace_curproc fetchint_run arg_word_def arg_addr_def)

text \<open>
  C31. Arguments are checked. For a running process whose memory is mapped, fetching an argument changes
  nothing, does not fault, whatever address the process passes, and gives: for \<^verbatim>\<open>fetchint\<close>, the word at the
  address if its four bytes are in the process's memory; for \<^verbatim>\<open>argptr\<close>, the pointer if it points into the
  process's memory with \<open>size\<close> bytes, which the kernel can then read, up to the end of it; for \<^verbatim>\<open>fetchstr\<close>,
  the bytes up to the first zero if there is one before the end of the memory. Otherwise the call fails.
  The sums do not wrap around.
\<close>

theorem arguments_checked:
  assumes "uspace s p" and "sz0 < 2147483648"
  shows "fetchint addr s = Ret (if unat addr + 4 \<le> usize s p then Some (get32 (ubytes s p addr 4) 0) else None) s \<and>
    argptr n sz0 s = Ret (case arg_word s p n of None \<Rightarrow> None | Some a \<Rightarrow>
      if 0 \<le> sz0 \<and> unat a < usize s p \<and> unat a + nat sz0 \<le> usize s p then Some a else None) s \<and>
    (argptr n sz0 s = Ret (Some a) s \<longrightarrow> user_load (nat sz0) a s = Ret (ubytes s p a (nat sz0)) s) \<and>
    fetchstr addr s = Ret (let bs = ubytes s p addr (usize s p - unat addr) in
      if unat addr < usize s p \<and> 0 \<in> set bs then Some (takeWhile (\<lambda>c. c \<noteq> 0) bs) else None) s"
proof -
  note cur = uspace_curproc[OF assms(1)]
  have szb: "p_sz (proc_at s p) \<le> 0x80000000" using assms by (simp add: uspace_def KERNBASE_def)
  have ptr: "argptr n sz0 s = Ret (case arg_word s p n of None \<Rightarrow> None | Some a \<Rightarrow>
      if 0 \<le> sz0 \<and> unat a < usize s p \<and> unat a + nat sz0 \<le> usize s p then Some a else None) s"
  proof (cases "arg_word s p n")
    case None
    then show ?thesis by (simp add: argptr_def kbind_def argint_run[OF assms(1)])
  next
    case (Some a)
    have "argptr n sz0 s = Ret (if sz0 < 0 \<or> p_sz (proc_at s p) \<le> a \<or> p_sz (proc_at s p) < a + word_of_int sz0 then None else Some a) s"
      using Some by (simp add: argptr_def kbind_def argint_run[OF assms(1)] cur)
    moreover have "(sz0 < 0 \<or> p_sz (proc_at s p) \<le> a \<or> p_sz (proc_at s p) < a + word_of_int sz0) \<longleftrightarrow>
        \<not> (0 \<le> sz0 \<and> unat a < usize s p \<and> unat a + nat sz0 \<le> usize s p)"
    proof (cases "0 \<le> sz0")
      case True
      then have "word_of_int sz0 = (of_nat (nat sz0) :: uint)" by simp
      moreover have "nat sz0 < 2147483648" using assms(2) True by simp
      ultimately show ?thesis using below_end[OF szb, of "nat sz0" a] True by (simp only: usize_def) auto
    qed simp
    ultimately show ?thesis unfolding Some option.case by (simp only: if_swap)
  qed
  have ld: "user_load (nat sz0) a s = Ret (ubytes s p a (nat sz0)) s" if h: "argptr n sz0 s = Ret (Some a) s"
    by (rule user_load_run[OF assms(1)]) (use h ptr in \<open>auto split: option.splits if_splits\<close>)
  have str: "fetchstr addr s = Ret (let bs = ubytes s p addr (usize s p - unat addr) in
      if unat addr < usize s p \<and> 0 \<in> set bs then Some (takeWhile (\<lambda>c. c \<noteq> 0) bs) else None) s"
    using fetchstr_loop_run[OF assms(1), of addr "usize s p - unat addr"] cur
    by (auto simp: fetchstr_def kbind_def usize_def Let_def word_le_nat_alt)
  show ?thesis using fetchint_run[OF assms(1)] ptr ld str by blast
qed

text \<open>A process with one page of memory.\<close>

definition example_user :: fstate where
  "example_user = (example_kernel [zero_proc\<lparr>p_pid := 1, p_state := RUNNING, p_sz := 4096, p_pgdir := 0x80400000, p_tf := 0x80403000\<rparr>])
     \<lparr>mem := write32 (write32 (\<lambda>_. 0) 0x80400000 0x00401007) 0x80401000 0x00402007\<rparr>"

lemma example_user_simps [simp]:
  "proc_at example_user 0 = zero_proc\<lparr>p_pid := 1, p_state := RUNNING, p_sz := 4096, p_pgdir := 0x80400000, p_tf := 0x80403000\<rparr>"
  "c_proc (cpus example_user ! thiscpu example_user) = Some 0" "usize example_user 0 = 4096"
  "mem example_user = write32 (write32 (\<lambda>_. 0) 0x80400000 0x00401007) 0x80401000 0x00402007"
  by (simp_all add: example_user_def example_kernel_def usize_def)

lemma example_user_space: "uspace example_user 0"
proof -
  have "ubyte example_user 0 va \<noteq> None" if "va < 4096" for va
  proof -
    have "unat va < 4096" using that by (simp add: word_less_nat_alt)
    moreover have "PTX va = take_bit 10 (drop_bit 12 va)" by (simp add: PTX_def take_bit_eq_mask mask_eq_exp_minus_1)
    ultimately have "unat (PDX va) = 0" "unat (PTX va) = 0"
      by (simp_all add: unat_PDX unsigned_take_bit_eq unsigned_drop_bit_eq drop_bit_eq_div unat_div)
    then have i: "PDX va = 0" "PTX va = 0" by (simp_all add: unat_eq_0)
    have e: "read32 (mem example_user) 0x80400000 = 0x00401007" "read32 (mem example_user) 0x80401000 = 0x00402007"
      by (simp_all add: read32_def write32_def byte_of_def word_of_bytes_def)
    have "mmu (mem example_user) 0x80400000 False va = Some (P2V (PTE_ADDR 0x00402007) + (va AND 0xFFF))"
      using e by (simp add: mmu_def pde_addr_def i PTE_ADDR_def P2V_def KERNBASE_def PTE_P_def)
    then show ?thesis by (simp add: ubyte_def)
  qed
  then show ?thesis by (simp add: uspace_def KERNBASE_def word_le_def)
qed

theorem arguments_checked_witness:
  "fetchint 4093 example_user = Ret None example_user \<and> (\<exists>w. fetchint 4092 example_user = Ret (Some w) example_user)"
  using arguments_checked[OF example_user_space, of 0 4093] arguments_checked[OF example_user_space, of 0 4092] by simp

subsection \<open>Dispatch\<close>




end
