(* ===== verification/Xv6_Tx.thy ===== *)
theory Xv6_Tx
  imports Xv6_Crash Xv6_Inode
begin

text \<open>
  Blocks inside a transaction. While an operation runs between \<^verbatim>\<open>begin_op\<close> and \<^verbatim>\<open>end_op\<close>, a block that it changes stays
  in the cache, dirty and recorded in the log, and the disk does not change. \<open>tx\<close> is the invariant of this phase
  for a process that holds the buffers \<open>H\<close>. The lemmas say what reading a block, changing it with \<^verbatim>\<open>log_write\<close>, and
  releasing it do to the contents of the blocks (\<open>view\<close>).
\<close>

definition tx :: "nat \<Rightarrow> int \<Rightarrow> nat set \<Rightarrow> 'z lstate_scheme \<Rightarrow> bool" where
  "tx p pid H s \<longleftrightarrow> cache_inv p pid H s \<and> lg_dev s = 1 \<and> log_room (lg_start s) (disksize s) \<and>
     0 \<le> lg_n s \<and> lg_n s < int LOGSIZE \<and> length (lg_block s) = LOGSIZE \<and> lg_size s = int LOGSIZE \<and> 1 \<le> lg_outstanding s \<and>
     distinct (homes (lg_block s) (nat (lg_n s))) \<and> set (homes (lg_block s) (nat (lg_n s))) \<inter> log_area (lg_start s) = {} \<and>
     (\<forall>h \<in> set (homes (lg_block s) (nat (lg_n s))). h < disksize s) \<and>
     Collect (dirty s) = set (homes (lg_block s) (nat (lg_n s))) \<and>
     length (disk s (word_of_int (lg_start s))) = BSIZE \<and> get32 (disk s (word_of_int (lg_start s))) 0 = 0"

lemma tx_log_ok: "tx p pid {} s \<Longrightarrow> log_ok p pid s"
  by (auto simp: tx_def log_ok_def)

definition tx_frame :: "'z lstate_scheme \<Rightarrow> 'z lstate_scheme \<Rightarrow> bool" where
  "tx_frame s t \<longleftrightarrow> t = s\<lparr>ptable := ptable t, bufs := bufs t, lru := lru t, lg_n := lg_n t, lg_block := lg_block t\<rparr>"

lemma tx_frame_refl [simp]: "tx_frame s s"
  by (simp add: tx_frame_def)

lemma tx_frame_trans: "tx_frame s t \<Longrightarrow> tx_frame t u \<Longrightarrow> tx_frame s u"
  unfolding tx_frame_def by (cases s; cases t; cases u) simp

lemma cache_tx_frame: "cache_frame s t \<Longrightarrow> disk t = disk s \<Longrightarrow> dwrites t = dwrites s \<Longrightarrow> tx_frame s t"
  unfolding tx_frame_def cache_frame_def by (cases s; cases t) simp

lemma tx_frameD:
  assumes "tx_frame s t"
  shows "disk t = disk s" "disksize t = disksize s" "dwrites t = dwrites s" "lg_start t = lg_start s" "lg_outstanding t = lg_outstanding s"
    "cpus t = cpus s" "thiscpu t = thiscpu s"
  using assms[unfolded tx_frame_def, THEN arg_cong, of disk] assms[unfolded tx_frame_def, THEN arg_cong, of disksize]
    assms[unfolded tx_frame_def, THEN arg_cong, of dwrites] assms[unfolded tx_frame_def, THEN arg_cong, of lg_start]
    assms[unfolded tx_frame_def, THEN arg_cong, of lg_outstanding] assms[unfolded tx_frame_def, THEN arg_cong, of cpus]
    assms[unfolded tx_frame_def, THEN arg_cong, of thiscpu]
  by simp_all

lemma tx_frame_fs:
  fixes s t :: "'z istate_scheme"
  assumes "tx_frame s t"
  shows "sb t = sb s" "inodes t = inodes s"
  using assms[unfolded tx_frame_def, THEN arg_cong, of sb] assms[unfolded tx_frame_def, THEN arg_cong, of inodes] by simp_all

text \<open>What is known of a buffer that is held: whose block it is, and that its content is in the log or on the disk.\<close>

definition holds :: "'z bstate_scheme \<Rightarrow> uint \<Rightarrow> nat \<Rightarrow> bool" where
  "holds s b i \<longleftrightarrow> cached_at s b i \<and> b_data (buf_at s i) = view s b \<and> (b_dirty (buf_at s i) \<or> b_data (buf_at s i) = disk s b)"

lemma tx_cache_step:
  assumes "tx p pid H s" and "cache_inv p pid H' t" and "cache_frame s t" and "disk t = disk s" and "dirty t = dirty s"
  shows "tx p pid H' t"
  using assms cache_frame_log[OF assms(3)] cache_frame_disksize[OF assms(3)] unfolding tx_def by (simp del: Collect_const)

lemma tx_dirty_le:
  assumes "tx p pid H s"
  shows "card (dirty_bufs s) \<le> nat (lg_n s)"
proof -
  let ?h = "homes (lg_block s) (nat (lg_n s))"
  have "card (dirty_bufs s) \<le> card (set ?h)" by (rule card_dirty_bufs[of p pid H]) (use assms in \<open>auto simp: tx_def\<close>)
  also have "\<dots> \<le> length ?h" by (rule card_length)
  finally show ?thesis by (simp add: homes_def)
qed

lemma tx_read:
  assumes tx: "tx p pid H s" and b: "b < disksize s" and free: "\<And>i. i \<in> H \<Longrightarrow> \<not> cached_at s b i"
    and spare: "nat (lg_n s) + card H < NBUF"
  shows "\<exists>i t. bread 1 b s = Ret i t \<and> i \<notin> H \<and> tx p pid (insert i H) t \<and> tx_frame s t \<and> view t = view s \<and> holds t b i \<and>
    lg_n t = lg_n s \<and> (\<forall>j \<in> H. buf_at t j = buf_at s j)"
proof -
  have inv: "cache_inv p pid H s" using tx by (simp add: tx_def)
  have "card (dirty_bufs s) + card H < NBUF" using tx_dirty_le[OF tx] spare by simp
  then obtain i t where r: "bread 1 b s = Ret i t" and g: "got p pid H b s i t"
    using bread_got[OF inv b] free by blast
  have inv': "cache_inv p pid (insert i H) t" and fr: "cache_frame s t" "disk t = disk s" "dwrites t = dwrites s" "dirty t = dirty s"
    using g by (simp_all add: got_def)
  have "tx p pid (insert i H) t" by (rule tx_cache_step[OF tx inv' fr(1,2,4)])
  moreover have "holds t b i" using g got_clean[OF inv g] by (simp add: holds_def got_def)
  ultimately show ?thesis
    using r g cache_tx_frame[OF fr(1-3)] cache_frame_log(6)[OF fr(1)]
    by (intro exI[of _ i] exI[of _ t]) (simp add: got_def)
qed

lemma tx_release:
  assumes tx: "tx p pid H s" and i: "i \<in> H" and h: "holds s b i"
  shows "\<exists>t. brelse i s = Ret () t \<and> tx p pid (H - {i}) t \<and> tx_frame s t \<and> view t = view s \<and> lg_n t = lg_n s \<and>
    (\<forall>j. j \<noteq> i \<longrightarrow> buf_at t j = buf_at s j)"
proof -
  have inv: "cache_inv p pid H s" using tx by (simp add: tx_def)
  obtain t where t: "brelse i s = Ret () t" "cache_inv p pid (H - {i}) t" "cache_frame s t" "view t = view s" "disk t = disk s"
    "dwrites t = dwrites s" "\<forall>j. j \<noteq> i \<longrightarrow> buf_at t j = buf_at s j" "dirty t = dirty s"
    using brelse_contract[OF inv, of b i] i h unfolding holds_def by blast
  then show ?thesis
    using tx_cache_step[OF tx t(2,3,5,8)] cache_tx_frame[OF t(3,5,6)] cache_frame_log(6)[OF t(3)]
    by (intro exI[of _ t]) simp
qed

text \<open>A buffer that is held stays so while other blocks are used.\<close>

lemma holds_keep:
  assumes "holds s c j" and "buf_at t j = buf_at s j" and "view t c = view s c" and "disk t = disk s"
  shows "holds t c j"
  using assms by (auto simp: holds_def cached_at_def)

subsection \<open>Changing a block\<close>

lemma homes_snoc: "n < length bs \<Longrightarrow> homes (bs[n := sint b]) (Suc n) = homes bs n @ [b]"
  by (simp add: homes_def)

lemma homes_same: "k < n \<Longrightarrow> word_of_int (bs ! k) = (b :: uint) \<Longrightarrow> n \<le> length bs \<Longrightarrow> homes (bs[k := sint b]) n = homes bs n"
  by (auto simp: homes_def nth_list_update)

lemma log_slot_cases:
  assumes "0 \<le> lg_n s"
  shows "(\<exists>k < nat (lg_n s). log_slot s b = k \<and> word_of_int (lg_block s ! k) = b) \<or>
    log_slot s b = nat (lg_n s) \<and> b \<notin> set (homes (lg_block s) (nat (lg_n s)))"
proof (cases "find (\<lambda>i. word_of_int (lg_block s ! i) = b) [0..<nat (lg_n s)]")
  case None
  then have "b \<notin> set (homes (lg_block s) (nat (lg_n s)))" by (auto simp: find_None_iff homes_def)
  then show ?thesis using None by (simp add: log_slot_def)
next
  case (Some k)
  then show ?thesis using find_SomeD[OF Some] by (simp add: log_slot_def)
qed

text \<open>The log after \<^verbatim>\<open>log_write\<close> of block \<open>b\<close>.\<close>

lemma log_entry:
  fixes s :: "'z lstate_scheme" and b :: uint
  assumes "0 \<le> lg_n s" and "lg_n s < int LOGSIZE - 1" and "length (lg_block s) = LOGSIZE" and "distinct (homes (lg_block s) (nat (lg_n s)))"
  defines "k \<equiv> log_slot s b"
  defines "bs \<equiv> (lg_block s)[k := sint b]" and "n \<equiv> if int k = lg_n s then lg_n s + 1 else lg_n s"
  shows "distinct (homes bs (nat n))" and "set (homes bs (nat n)) = insert b (set (homes (lg_block s) (nat (lg_n s))))"
    and "lg_n s \<le> n" and "n \<le> lg_n s + 1" and "length bs = LOGSIZE" and "b \<in> set (homes (lg_block s) (nat (lg_n s))) \<Longrightarrow> n = lg_n s"
proof -
  let ?h = "homes (lg_block s) (nat (lg_n s))"
  have "distinct (homes bs (nat n)) \<and> set (homes bs (nat n)) = insert b (set ?h) \<and> (b \<in> set ?h \<longrightarrow> n = lg_n s)"
    using log_slot_cases[OF assms(1), of b]
  proof
    assume "\<exists>k < nat (lg_n s). log_slot s b = k \<and> word_of_int (lg_block s ! k) = b"
    then have k: "k < nat (lg_n s)" "word_of_int (lg_block s ! k) = b" by (auto simp: k_def)
    then have n: "n = lg_n s" by (auto simp: n_def)
    have "homes bs (nat n) = ?h" unfolding bs_def n by (rule homes_same[OF k]) (use assms in simp)
    moreover have "b \<in> set ?h" using k by (auto simp: homes_def)
    ultimately show ?thesis using assms(4) n by auto
  next
    assume k: "log_slot s b = nat (lg_n s) \<and> b \<notin> set ?h"
    then have "n = lg_n s + 1" using assms(1) by (simp add: n_def k_def)
    then have n: "nat n = Suc (nat (lg_n s))" using assms(1) by simp
    have "homes bs (nat n) = ?h @ [b]"
      unfolding bs_def n using k assms by (simp add: k_def) (rule homes_snoc, simp)
    then show ?thesis using assms(4) k by auto
  qed
  then show "distinct (homes bs (nat n))" "set (homes bs (nat n)) = insert b (set ?h)" "b \<in> set ?h \<Longrightarrow> n = lg_n s" by auto
  show "lg_n s \<le> n" "n \<le> lg_n s + 1" "length bs = LOGSIZE" using assms(3) by (simp_all add: n_def bs_def)
qed

lemma tx_log:
  assumes tx: "tx p pid H s" and i: "i \<in> H" and h: "holds s b i" and b: "b \<notin> log_area (lg_start s)" and room: "lg_n s < int LOGSIZE - 1"
  shows "\<exists>t. kbind (set_data i f) (\<lambda>_. log_write i) s = Ret () t \<and> tx p pid H t \<and> tx_frame s t \<and>
    view t = (view s)(b := f (view s b)) \<and> holds t b i \<and> lg_n s \<le> lg_n t \<and> lg_n t \<le> lg_n s + 1 \<and> (dirty s b \<longrightarrow> lg_n t = lg_n s) \<and>
    (\<forall>j. j \<noteq> i \<longrightarrow> buf_at t j = buf_at s j)"
proof -
  have inv: "cache_inv p pid H s" and lg: "0 \<le> lg_n s" "length (lg_block s) = LOGSIZE" "distinct (homes (lg_block s) (nat (lg_n s)))"
    and dt: "Collect (dirty s) = set (homes (lg_block s) (nat (lg_n s)))"
    using tx by (simp_all add: tx_def)
  have at: "cached_at s b i" and data: "b_data (buf_at s i) = view s b" using h by (simp_all add: holds_def)
  have n: "i < NBUF" "i < length (bufs s)" using at cache_inv_basic[OF inv] by (auto simp: cached_at_def)
  have dev: "b_dev (buf_at s i) = 1" "b_blockno (buf_at s i) = b" using at by (simp_all add: cached_at_def)
  have valid: "b_valid (buf_at s i)" "b < disksize s" using cache_inv_buf(1)[OF inv n(1)] dev by (simp_all add: buf_ok_def)
  let ?f = "\<lambda>x. x\<lparr>b_data := f (b_data x), b_dirty := True\<rparr>"
  let ?u = "upd_buf i ?f s"
  have u: "cache_inv p pid H ?u" "view ?u = (view s)(b := b_data (?f (buf_at s i)))" "\<And>c j. cached_at ?u c j \<longleftrightarrow> cached_at s c j"
    by (rule cache_inv_set[OF inv at i]; use dev valid in simp)+
  have du: "dirty ?u = (dirty s)(b := True)"
  proof
    fix c
    have "cached_at s b j \<longleftrightarrow> j = i" for j using cached_unique[OF inv at] at by blast
    moreover have "b_dirty (buf_at ?u j) = (j = i \<or> b_dirty (buf_at s j))" for j using n by simp
    moreover have "cached_at s c i \<longleftrightarrow> c = b" using at by (auto simp: cached_at_def)
    ultimately show "dirty ?u c = ((dirty s)(b := True)) c" unfolding dirty_def u(3) by auto
  qed
  let ?k = "log_slot s b"
  let ?bs = "(lg_block s)[?k := sint b]" and ?n = "if int ?k = lg_n s then lg_n s + 1 else lg_n s"
  let ?t = "?u\<lparr>lg_block := ?bs, lg_n := ?n\<rparr>"
  note e = log_entry[OF lg(1) room lg(2,3), of b]
  have "log_slot (upd_buf i (\<lambda>x. x\<lparr>b_data := f (b_data x)\<rparr>) s) b = ?k" by (simp add: log_slot_def upd_buf_def split: option.split)
  then have run: "kbind (set_data i f) (\<lambda>_. log_write i) s = Ret () ?t"
    using tx room n dev by (simp add: set_data_run kbind_def log_write_def tx_def Let_def upd_buf_def comp_def)
  have ce: "cache_inv p pid H ?t = cache_inv p pid H ?u" "view ?t = view ?u" "dirty ?t = dirty ?u" "cached_at ?t = cached_at ?u" by simp_all
  have "Collect (dirty ?t) = insert b (Collect (dirty s))" unfolding ce(3) du by auto
  moreover have "insert b (set (homes (lg_block s) (nat (lg_n s)))) \<inter> log_area (lg_start s) = {}" using tx b by (auto simp: tx_def)
  moreover have "\<forall>h \<in> insert b (set (homes (lg_block s) (nat (lg_n s)))). h < disksize s" using tx valid by (auto simp: tx_def)
  moreover have "?n < int LOGSIZE" "0 \<le> ?n" using e(3,4) lg(1) room by linarith+
  ultimately have t: "tx p pid H ?t"
    using tx u(1) e(1,2,5) dt unfolding tx_def ce(1) by (simp add: upd_buf_def del: Collect_const)
  have "holds ?t b i" using n at u(2) ce data by (simp add: holds_def u(3))
  moreover have "tx_frame s ?t" by (simp add: tx_frame_def upd_buf_def)
  moreover have "dirty s b \<longrightarrow> ?n = lg_n s" using e(6) dt by (metis mem_Collect_eq)
  ultimately show ?thesis using run t u(2) ce(2) data n e(3,4) by (intro exI[of _ ?t]) simp
qed

subsection \<open>Steps of an operation\<close>

text \<open>
  \<open>tx_step p pid H W k s t\<close>: from \<open>s\<close> to \<open>t\<close> the operation has changed no blocks but those in \<open>W\<close>, has added at most \<open>k\<close> blocks
  to the log, and has left the buffers it holds alone.
\<close>

definition tx_step :: "nat \<Rightarrow> int \<Rightarrow> nat set \<Rightarrow> uint set \<Rightarrow> nat \<Rightarrow> 'z lstate_scheme \<Rightarrow> 'z lstate_scheme \<Rightarrow> bool" where
  "tx_step p pid H W k s t \<longleftrightarrow> tx p pid H t \<and> tx_frame s t \<and> (\<forall>c. c \<notin> W \<longrightarrow> view t c = view s c) \<and>
     lg_n s \<le> lg_n t \<and> lg_n t \<le> lg_n s + int k \<and> (\<forall>j \<in> H. buf_at t j = buf_at s j)"

lemma tx_step_refl: "tx p pid H s \<Longrightarrow> tx_step p pid H {} 0 s s"
  by (simp add: tx_step_def)

lemma tx_step_trans:
  "tx_step p pid H W k s t \<Longrightarrow> tx_step p pid H W' k' t u \<Longrightarrow> tx_step p pid H (W \<union> W') (k + k') s u"
  unfolding tx_step_def using tx_frame_trans[of s t u] by auto

lemma tx_step_mono: "tx_step p pid H W k s t \<Longrightarrow> W \<subseteq> W' \<Longrightarrow> k \<le> k' \<Longrightarrow> tx_step p pid H W' k' s t"
  unfolding tx_step_def by auto

lemma tx_stepD:
  assumes "tx_step p pid H W k s t"
  shows "tx p pid H t" "tx_frame s t" "c \<notin> W \<Longrightarrow> view t c = view s c" "lg_n t \<le> lg_n s + int k" "j \<in> H \<Longrightarrow> buf_at t j = buf_at s j"
    "lg_n s \<le> lg_n t" "disksize t = disksize s" "disk t = disk s" "lg_start t = lg_start s"
  using assms tx_frameD[of s t] by (auto simp: tx_step_def)

lemma tx_step_holds: "tx_step p pid H W k s t \<Longrightarrow> j \<in> H \<Longrightarrow> holds s c j \<Longrightarrow> c \<notin> W \<Longrightarrow> holds t c j"
  by (rule holds_keep) (simp_all add: tx_stepD)

text \<open>A block that no held buffer has, and room for reading it.\<close>

definition block_free :: "nat set \<Rightarrow> uint \<Rightarrow> 'z lstate_scheme \<Rightarrow> bool" where
  "block_free H b s \<longleftrightarrow> b < disksize s \<and> (\<forall>i \<in> H. \<not> cached_at s b i) \<and> nat (lg_n s) + card H < NBUF"

lemma read_step:
  assumes "tx p pid H s" and "block_free H b s"
  shows "\<exists>i t. bread 1 b s = Ret i t \<and> i \<notin> H \<and> tx p pid (insert i H) t \<and> holds t b i \<and> b_data (buf_at t i) = view s b \<and>
    tx_frame s t \<and> view t = view s \<and> lg_n t = lg_n s \<and> (\<forall>j \<in> H. buf_at t j = buf_at s j)"
proof -
  obtain i t where t: "bread 1 b s = Ret i t" "i \<notin> H" "tx p pid (insert i H) t" "tx_frame s t" "view t = view s" "holds t b i"
    "lg_n t = lg_n s" "\<forall>j \<in> H. buf_at t j = buf_at s j"
    using tx_read[OF assms(1), of b] assms(2) by (auto simp: block_free_def)
  then show ?thesis by (intro exI[of _ i] exI[of _ t]) (auto simp: holds_def)
qed

lemma release_step:
  assumes "tx p pid (insert i H) t" and "i \<notin> H" and "holds t b i" and "tx_frame s t" and "view t = view s" and "lg_n t = lg_n s"
    and "\<forall>j \<in> H. buf_at t j = buf_at s j"
  shows "\<exists>u. brelse i t = Ret () u \<and> tx_step p pid H {} 0 s u"
proof -
  obtain u where u: "brelse i t = Ret () u" "tx p pid (insert i H - {i}) u" "tx_frame t u" "view u = view t" "lg_n u = lg_n t"
    "\<forall>j. j \<noteq> i \<longrightarrow> buf_at u j = buf_at t j"
    using tx_release[OF assms(1) _ assms(3)] by auto
  have "insert i H - {i} = H" using assms(2) by auto
  then have "tx_step p pid H {} 0 s u"
    using u assms tx_frame_trans[OF assms(4) u(3)] by (auto simp: tx_step_def)
  then show ?thesis using u(1) by blast
qed

lemma write_step:
  assumes "tx p pid (insert i H) t" and "i \<notin> H" and "holds t b i" and "tx_frame s t" and "view t = view s" and "lg_n t = lg_n s"
    and "\<forall>j \<in> H. buf_at t j = buf_at s j" and "b \<notin> log_area (lg_start s)" and "lg_n s < int LOGSIZE - 1"
  shows "\<exists>u. kbind (set_data i f) (\<lambda>_. kbind (log_write i) (\<lambda>_. brelse i)) t = Ret () u \<and> tx_step p pid H {b} 1 s u \<and>
    view u b = f (view s b)"
proof -
  have st: "lg_start t = lg_start s" by (rule tx_frameD(4)[OF assms(4)])
  obtain v where v: "kbind (set_data i f) (\<lambda>_. log_write i) t = Ret () v" "tx p pid (insert i H) v" "tx_frame t v"
    "view v = (view t)(b := f (view t b))" "holds v b i" "lg_n t \<le> lg_n v" "lg_n v \<le> lg_n t + 1" "\<forall>j. j \<noteq> i \<longrightarrow> buf_at v j = buf_at t j"
    using tx_log[OF assms(1) _ assms(3), of f] assms(6,8,9) st by auto
  obtain u where u: "brelse i v = Ret () u" "tx p pid (insert i H - {i}) u" "tx_frame v u" "view u = view v" "lg_n u = lg_n v"
    "\<forall>j. j \<noteq> i \<longrightarrow> buf_at u j = buf_at v j"
    using tx_release[OF v(2) _ v(5)] by auto
  have "insert i H - {i} = H" using assms(2) by auto
  moreover have "tx_frame s u" by (rule tx_frame_trans[OF assms(4) tx_frame_trans[OF v(3) u(3)]])
  moreover have "\<forall>j \<in> H. buf_at u j = buf_at s j" using assms(2,7) v(8) u(6) by (metis)
  ultimately have "tx_step p pid H {b} 1 s u" using u(2,4,5) v(4,6,7) assms(5,6) by (auto simp: tx_step_def)
  moreover have "kbind (set_data i f) (\<lambda>_. kbind (log_write i) (\<lambda>_. brelse i)) t = Ret () u"
    using v(1) u(1) by (auto simp: kbind_def split: outcome.splits)
  ultimately show ?thesis using u(4) v(4) assms(5) by auto
qed

end
