(* ===== verification/Xv6_Blocks.thy ===== *)
theory Xv6_Blocks
  imports Xv6_Tx Xv6_Boot
begin

text \<open>
  The block bitmap inside a transaction: \<^verbatim>\<open>bzero\<close>, \<^verbatim>\<open>balloc\<close> and \<^verbatim>\<open>bfree\<close>. \<open>used s b\<close> is the bit of block \<open>b\<close> in the bitmap as the file
  system sees it. The superblock says where the bitmap is; \<open>fs_ok\<close> says that the bitmap blocks are blocks of the file
  system outside the log, and that the blocks of the log and of the bitmap are in use, as \<^verbatim>\<open>mkfs\<close> leaves them.
\<close>

subsection \<open>Bits of a block\<close>

lemma bit_at_bit: "bit_at d i \<longleftrightarrow> bit (d ! (i div 8)) (i mod 8)"
  by (simp add: bit_at_def bit_iff_and_push_bit_not_eq_0)

lemma bit_at_set:
  assumes "i < 8 * length d" and "j < 8 * length d"
  shows "bit_at (set_bit_at d i) j \<longleftrightarrow> j = i \<or> bit_at d j"
proof (cases "i div 8 = j div 8")
  case True
  then have e: "i mod 8 = j mod 8 \<longleftrightarrow> i = j" by (metis div_mult_mod_eq)
  have "i div 8 < length d" using assms by (simp add: div_less_iff_less_mult mult.commute)
  then show ?thesis using True e by (auto simp: bit_at_bit set_bit_at_def bit_simps)
qed (auto simp: bit_at_bit set_bit_at_def)

lemma bit_at_clear:
  assumes "i < 8 * length d" and "j < 8 * length d"
  shows "bit_at (clear_bit_at d i) j \<longleftrightarrow> j \<noteq> i \<and> bit_at d j"
proof (cases "i div 8 = j div 8")
  case True
  then have e: "i mod 8 = j mod 8 \<longleftrightarrow> i = j" by (metis div_mult_mod_eq)
  have "i div 8 < length d" using assms by (simp add: div_less_iff_less_mult mult.commute)
  then show ?thesis using True e by (auto simp: bit_at_bit clear_bit_at_def bit_simps)
qed (auto simp: bit_at_bit clear_bit_at_def)

lemma bit_ops_length [simp]: "length (set_bit_at d i) = length d" "length (clear_bit_at d i) = length d"
  by (simp_all add: set_bit_at_def clear_bit_at_def)

subsection \<open>The bitmap\<close>

definition used :: "'z istate_scheme \<Rightarrow> uint \<Rightarrow> bool" where
  "used s b \<longleftrightarrow> bit_at (view s (BBLOCK b (sb s))) (unat b mod BPB)"

definition bitmap :: "'z istate_scheme \<Rightarrow> uint set" where
  "bitmap s = (\<lambda>b. BBLOCK b (sb s)) ` {b. b < sb_size (sb s)}"

definition iblocks :: "'z istate_scheme \<Rightarrow> uint set" where
  "iblocks s = (\<lambda>i. IBLOCK i (sb s)) ` {i. i < sb_ninodes (sb s)}"

definition meta :: "'z istate_scheme \<Rightarrow> uint set" where
  "meta s = {0} \<union> bitmap s \<union> iblocks s \<union> log_area (lg_start s)"

definition fs_ok :: "'z istate_scheme \<Rightarrow> bool" where
  "fs_ok s \<longleftrightarrow> sb_size (sb s) \<le> disksize s \<and> bitmap s \<union> iblocks s \<subseteq> {b. b < sb_size (sb s)} \<and>
     (bitmap s \<union> iblocks s) \<inter> log_area (lg_start s) = {} \<and> bitmap s \<inter> iblocks s = {} \<and>
     (\<forall>b \<in> bitmap s \<union> iblocks s. length (view s b) = BSIZE) \<and>
     (\<forall>b. b < sb_size (sb s) \<longrightarrow> b \<in> meta s \<longrightarrow> used s b)"

lemma unat_BBLOCK_index: "unat ((b :: uint) div of_nat BPB) = unat b div BPB"
  by (simp add: unat_div BPB_def BSIZE_def)

lemma fs_ok_free:
  assumes "fs_ok s" and "b < sb_size (sb s)" and "\<not> used s b"
  shows "b \<notin> log_area (lg_start s)" "b \<notin> bitmap s" "b < disksize s" "b \<notin> iblocks s" "b \<noteq> 0"
  using assms by (auto simp: fs_ok_def meta_def)

lemma in_bitmap: "b < sb_size (sb s) \<Longrightarrow> BBLOCK b (sb s) \<in> bitmap s"
  by (auto simp: bitmap_def)

lemma fs_ok_bitmap:
  assumes "fs_ok s" and "b < sb_size (sb s)"
  shows "BBLOCK b (sb s) < disksize s" "BBLOCK b (sb s) \<notin> log_area (lg_start s)" "length (view s (BBLOCK b (sb s))) = BSIZE"
  using assms in_bitmap[OF assms(2)] by (auto simp: fs_ok_def)

lemma same_bitmap_block:
  assumes "BBLOCK b su = BBLOCK c su"
  shows "unat b mod BPB = unat c mod BPB \<longleftrightarrow> b = c"
proof -
  have "unat b div BPB = unat c div BPB" using assms unat_BBLOCK_index by (metis BBLOCK_def add_right_cancel)
  then show ?thesis by (metis div_mult_mod_eq word_unat_eq_iff)
qed

text \<open>Changing one bit.\<close>

lemma used_after:
  assumes "fs_ok s" and "b < sb_size (sb s)" and "c < sb_size (sb s)" and "sb t = sb s"
    and "view t (BBLOCK b (sb s)) = (if v then set_bit_at else clear_bit_at) (view s (BBLOCK b (sb s))) (unat b mod BPB)"
    and "\<And>x. x \<in> bitmap s \<Longrightarrow> x \<noteq> BBLOCK b (sb s) \<Longrightarrow> view t x = view s x"
  shows "used t c \<longleftrightarrow> (if c = b then v else used s c)"
proof (cases "BBLOCK c (sb s) = BBLOCK b (sb s)")
  case True
  have m: "unat x mod BPB < 8 * length (view s (BBLOCK b (sb s)))" for x :: uint
    using fs_ok_bitmap(3)[OF assms(1,2)] by (simp add: BPB_def BSIZE_def)
  have "c = b \<longleftrightarrow> unat c mod BPB = unat b mod BPB" using same_bitmap_block[OF True] by simp
  then show ?thesis
    using bit_at_set[OF m m] bit_at_clear[OF m m] True assms(4,5) by (auto simp: used_def)
next
  case False
  then show ?thesis using assms(4,6) in_bitmap[OF assms(3)] by (auto simp: used_def)
qed

text \<open>What the operations need: the file system, a running transaction, and room in the log for \<open>k\<close> more blocks.\<close>

definition fs_tx :: "nat \<Rightarrow> int \<Rightarrow> nat set \<Rightarrow> nat \<Rightarrow> 'z istate_scheme \<Rightarrow> bool" where
  "fs_tx p pid H k s \<longleftrightarrow> tx p pid H s \<and> fs_ok s \<and> lg_n s + int k < int LOGSIZE \<and> card H \<le> 1 \<and>
     (\<forall>i \<in> H. \<forall>c. cached_at s c i \<longrightarrow> c < sb_size (sb s) \<and> c \<notin> bitmap s \<and> used s c)"

lemma fs_txD:
  assumes "fs_tx p pid H k s"
  shows "tx p pid H s" "fs_ok s" "lg_n s + int k < int LOGSIZE" "0 \<le> lg_n s" "card H \<le> 1"
  using assms by (auto simp: fs_tx_def tx_def)

lemma fs_tx_less: "fs_tx p pid H k s \<Longrightarrow> j \<le> k \<Longrightarrow> fs_tx p pid H j s"
  by (auto simp: fs_tx_def)

lemma block_free_bitmap:
  assumes "fs_tx p pid H k s" and "0 < k" and "b < sb_size (sb s)"
  shows "block_free H (BBLOCK b (sb s)) s"
  using assms fs_ok_bitmap(1)[OF fs_txD(2)[OF assms(1)] assms(3)] in_bitmap[OF assms(3)]
  by (auto simp: block_free_def fs_tx_def NBUF_def LOGSIZE_def MAXOPBLOCKS_def)

lemma block_free_unused:
  assumes "fs_tx p pid H k s" and "0 < k" and "b < sb_size (sb s)" and "\<not> used s b"
  shows "block_free H b s"
  using assms fs_ok_free(3)[OF fs_txD(2)[OF assms(1)] assms(3,4)]
  by (auto simp: block_free_def fs_tx_def NBUF_def LOGSIZE_def MAXOPBLOCKS_def)

lemma bzero_run:
  fixes s :: "'z istate_scheme"
  assumes "tx p pid H s" and "block_free H b s" and "b \<notin> log_area (lg_start s)" and "lg_n s < int LOGSIZE - 1"
  shows "\<exists>t. bzero 1 b s = Ret () t \<and> tx_step p pid H {b} 1 s t \<and> view t b = replicate BSIZE 0"
proof -
  obtain i t where t: "bread 1 b s = Ret i t" "i \<notin> H" "tx p pid (insert i H) t" "holds t b i" "tx_frame s t" "view t = view s"
    "lg_n t = lg_n s" "\<forall>j \<in> H. buf_at t j = buf_at s j"
    using read_step[OF assms(1,2)] by blast
  show ?thesis
    using write_step[OF t(3,2,4-8) assms(3,4), of "\<lambda>_. replicate BSIZE 0"] t(1) by (auto simp: bzero_def kbind_def)
qed

lemma bfree_run:
  fixes s :: "'z istate_scheme"
  assumes f: "fs_tx p pid H 1 s" and b: "b < sb_size (sb s)"
  shows "if used s b
    then \<exists>t. bfree 1 b s = Ret () t \<and> tx_step p pid H {BBLOCK b (sb s)} 1 s t \<and>
      view t (BBLOCK b (sb s)) = clear_bit_at (view s (BBLOCK b (sb s))) (unat b mod BPB)
    else bfree 1 b s = Fault (Panic ''freeing free block'')"
proof -
  let ?m = "BBLOCK b (sb s)"
  note F = fs_txD[OF f]
  obtain i t where t: "bread 1 ?m s = Ret i t" "i \<notin> H" "tx p pid (insert i H) t" "holds t ?m i" "b_data (buf_at t i) = view s ?m"
    "tx_frame s t" "view t = view s" "lg_n t = lg_n s" "\<forall>j \<in> H. buf_at t j = buf_at s j"
    using read_step[OF F(1) block_free_bitmap[OF f _ b]] by auto
  have r: "lg_n s < int LOGSIZE - 1" using F(3) by simp
  from write_step[OF t(3,2,4,6-9) fs_ok_bitmap(2)[OF F(2) b] r, of "\<lambda>d. clear_bit_at d (unat b mod BPB)"] show ?thesis
    using t(1,5) by (auto simp: bfree_def kbind_def buf_data_def used_def Let_def)
qed

text \<open>The search for a free block.\<close>

lemma find_append: "find P (xs @ ys) = (case find P xs of None \<Rightarrow> find P ys | Some x \<Rightarrow> Some x)"
  by (induction xs) auto

lemma find_shift: "find P [a..<a + n] = map_option (\<lambda>i. a + i) (find (\<lambda>i. P (a + i)) [0..<n])"
  by (induction n) (auto simp: find_append split: option.splits)

lemma find_cong_set: "(\<And>x. x \<in> set xs \<Longrightarrow> P x = Q x) \<Longrightarrow> find P xs = find Q xs"
  by (induction xs) auto

definition next_free :: "'z istate_scheme \<Rightarrow> nat \<Rightarrow> nat option" where
  "next_free s a = find (\<lambda>b. \<not> used s (of_nat b)) [a..<unat (sb_size (sb s))]"

lemma next_free_chunk:
  fixes s :: "'z istate_scheme"
  assumes "k * BPB < unat (sb_size (sb s))"
  defines "d \<equiv> view s (BBLOCK (of_nat (k * BPB)) (sb s))"
  shows "next_free s (k * BPB) =
    (case find (\<lambda>bi. \<not> bit_at d bi) [0..<min BPB (unat (sb_size (sb s)) - k * BPB)] of
       Some bi \<Rightarrow> Some (k * BPB + bi) | None \<Rightarrow> next_free s (Suc k * BPB))"
    and "bi < min BPB (unat (sb_size (sb s)) - k * BPB) \<Longrightarrow> BBLOCK (of_nat (k * BPB + bi)) (sb s) = BBLOCK (of_nat (k * BPB)) (sb s)"
    and "bi < min BPB (unat (sb_size (sb s)) - k * BPB) \<Longrightarrow> unat (of_nat (k * BPB + bi) :: uint) = k * BPB + bi"
    and "bi < min BPB (unat (sb_size (sb s)) - k * BPB) \<Longrightarrow> used s (of_nat (k * BPB + bi)) = bit_at d bi"
proof -
  let ?n = "unat (sb_size (sb s))"
  let ?m = "min BPB (?n - k * BPB)"
  have P: "0 < BPB" by (simp add: BPB_def BSIZE_def)
  have u: "unat (of_nat (k * BPB + bi) :: uint) = k * BPB + bi" if "bi < ?m" for bi
  proof (rule unat_of_nat_small)
    have "k * BPB + bi < ?n" using that by linarith
    from less_trans[OF this unat_uint_less] show "k * BPB + bi < 2 ^ 32" by simp
  qed
  then show "bi < ?m \<Longrightarrow> unat (of_nat (k * BPB + bi) :: uint) = k * BPB + bi" .
  have u0: "unat (of_nat (k * BPB) :: uint) = k * BPB"
    by (rule unat_of_nat_small) (use less_trans[OF assms(1) unat_uint_less] in simp)
  have blk: "BBLOCK (of_nat (k * BPB + bi)) (sb s) = BBLOCK (of_nat (k * BPB)) (sb s)" if "bi < ?m" for bi
  proof -
    have "(k * BPB + bi) div BPB = k" using that P by simp
    then have "unat (of_nat (k * BPB + bi) div of_nat BPB :: uint) = unat (of_nat (k * BPB) div of_nat BPB :: uint)"
      using P by (simp only: unat_BBLOCK_index u[OF that] u0) simp
    then show ?thesis by (simp only: BBLOCK_def word_unat_eq_iff[symmetric])
  qed
  then show "bi < ?m \<Longrightarrow> BBLOCK (of_nat (k * BPB + bi)) (sb s) = BBLOCK (of_nat (k * BPB)) (sb s)" .
  have us: "used s (of_nat (k * BPB + bi)) = bit_at d bi" if "bi < ?m" for bi
    using that blk[OF that] u[OF that] by (simp add: used_def d_def del: of_nat_add of_nat_mult)
  then show "bi < ?m \<Longrightarrow> used s (of_nat (k * BPB + bi)) = bit_at d bi" .
  have "[k * BPB..<?n] = [k * BPB..<k * BPB + ?m] @ [Suc k * BPB..<?n]"
  proof (cases "Suc k * BPB \<le> ?n")
    case True
    then have "k * BPB + ?m = Suc k * BPB" by (simp add: min_def)
    moreover have "[k * BPB..<?n] = [k * BPB..<Suc k * BPB] @ [Suc k * BPB..<?n]"
      using upt_add_eq_append[of "k * BPB" "Suc k * BPB" "?n - Suc k * BPB"] True by simp
    ultimately show ?thesis by (simp only:)
  next
    case False
    then have "k * BPB + ?m = ?n" "[Suc k * BPB..<?n] = []" using assms(1) by (auto simp: min_def)
    then show ?thesis by simp
  qed
  then have "next_free s (k * BPB) = (case find (\<lambda>b. \<not> used s (of_nat b)) [k * BPB..<k * BPB + ?m] of
      None \<Rightarrow> next_free s (Suc k * BPB) | Some x \<Rightarrow> Some x)"
    unfolding next_free_def by (simp only: find_append)
  moreover have "find (\<lambda>bi. \<not> used s (of_nat (k * BPB + bi))) [0..<?m] = find (\<lambda>bi. \<not> bit_at d bi) [0..<?m]"
    by (rule find_cong_set) (use us in auto)
  ultimately show "next_free s (k * BPB) = (case find (\<lambda>bi. \<not> bit_at d bi) [0..<?m] of
       Some bi \<Rightarrow> Some (k * BPB + bi) | None \<Rightarrow> next_free s (Suc k * BPB))"
    unfolding find_shift by (simp del: of_nat_add of_nat_mult split: option.split)
qed

lemma fs_tx_step:
  assumes f: "fs_tx p pid H (k + j) s" and st: "tx_step p pid H W j s t"
    and len: "\<And>b. b \<in> bitmap s \<union> iblocks s \<Longrightarrow> length (view t b) = BSIZE"
    and us: "\<And>b. b < sb_size (sb s) \<Longrightarrow> b \<in> meta s \<or> (\<exists>i \<in> H. cached_at s b i) \<Longrightarrow> used t b"
  shows "fs_tx p pid H k t"
proof -
  note F = f[unfolded fs_tx_def] and T = tx_stepD[OF st]
  have sb: "sb t = sb s" by (rule tx_frame_fs(1)[OF T(2)])
  then have bm: "bitmap t = bitmap s" "iblocks t = iblocks s" "meta t = meta s" by (simp_all add: bitmap_def iblocks_def meta_def T(9))
  have c: "cached_at t c i = cached_at s c i" if "i \<in> H" for c i using T(5)[OF that] by (simp add: cached_at_def)
  have "fs_ok t" using F len us by (auto simp: fs_ok_def sb bm T(7,9))
  then show ?thesis using F T(1,4) us by (auto simp: fs_tx_def sb bm c)
qed

lemma fs_tx_same:
  assumes "fs_tx p pid H k s" and "tx_step p pid H {} 0 s t"
  shows "fs_tx p pid H k t" "sb t = sb s" "used t = used s" "view t = view s" "next_free t = next_free s"
proof -
  note T = tx_stepD[OF assms(2)]
  show v: "view t = view s" by (rule ext) (simp add: T(3))
  show sb: "sb t = sb s" by (rule tx_frame_fs(1)[OF T(2)])
  show us: "used t = used s" by (simp add: used_def[abs_def] v sb)
  show "next_free t = next_free s" by (simp add: next_free_def[abs_def] us sb)
  have f0: "fs_tx p pid H (k + 0) s" using assms(1) by simp
  show "fs_tx p pid H k t"
    by (rule fs_tx_step[OF f0 assms(2)]) (use fs_txD(2)[OF assms(1)] assms(1) in \<open>auto simp: v us fs_ok_def fs_tx_def\<close>)
qed

text \<open>Taking block \<open>b\<close>: its bit is set and the block is cleared.\<close>

definition taken :: "nat \<Rightarrow> int \<Rightarrow> nat set \<Rightarrow> uint \<Rightarrow> 'z istate_scheme \<Rightarrow> 'z istate_scheme \<Rightarrow> bool" where
  "taken p pid H b s t \<longleftrightarrow> tx_step p pid H {BBLOCK b (sb s), b} 2 s t \<and> view t b = replicate BSIZE 0 \<and>
     view t (BBLOCK b (sb s)) = set_bit_at (view s (BBLOCK b (sb s))) (unat b mod BPB)"

lemma take_block:
  fixes s :: "'z istate_scheme"
  assumes f: "fs_tx p pid H 2 s" and b: "b < sb_size (sb s)" "\<not> used s b"
    and t: "i \<notin> H" "tx p pid (insert i H) t" "holds t (BBLOCK b (sb s)) i" "tx_frame s t" "view t = view s"
      "lg_n t = lg_n s" "\<forall>j \<in> H. buf_at t j = buf_at s j"
  shows "\<exists>v. kbind (set_data i (\<lambda>d. set_bit_at d (unat b mod BPB))) (\<lambda>_. kbind (log_write i) (\<lambda>_. kbind (brelse i) (\<lambda>_.
      kbind (bzero 1 b) (\<lambda>_. kret b)))) t = Ret b v \<and> taken p pid H b s v"
proof -
  let ?m = "BBLOCK b (sb s)"
  note F = fs_txD[OF f] and B = fs_ok_free[OF fs_txD(2)[OF f] b]
  have r: "lg_n s < int LOGSIZE - 1" using F(3) by simp
  obtain u where u: "kbind (set_data i (\<lambda>d. set_bit_at d (unat b mod BPB))) (\<lambda>_. kbind (log_write i) (\<lambda>_. brelse i)) t = Ret () u"
    "tx_step p pid H {?m} 1 s u" "view u ?m = set_bit_at (view s ?m) (unat b mod BPB)"
    using write_step[OF t(2,1,3-7) fs_ok_bitmap(2)[OF F(2) b(1)] r, of "\<lambda>d. set_bit_at d (unat b mod BPB)"] by blast
  note U = tx_stepD[OF u(2)]
  have "cached_at u b j = cached_at s b j" if "j \<in> H" for j using U(5)[OF that] by (simp add: cached_at_def)
  then have "\<forall>j \<in> H. \<not> cached_at u b j" using block_free_unused[OF f _ b] by (simp add: block_free_def)
  moreover have "b < disksize u" using B(3) U(7) by simp
  moreover have "nat (lg_n u) + card H < NBUF" using U(4) F(3,5) by (simp add: NBUF_def LOGSIZE_def MAXOPBLOCKS_def)
  ultimately have bf: "block_free H b u" by (simp add: block_free_def)
  have lu: "lg_n u < int LOGSIZE - 1" using U(4) F(3) by simp
  obtain v where v: "bzero 1 b u = Ret () v" "tx_step p pid H {b} 1 u v" "view v b = replicate BSIZE 0"
    using bzero_run[OF U(1) bf _ lu] B(1) U(9) by auto
  have "?m \<noteq> b" using B(2) in_bitmap[OF b(1)] by auto
  then have "view v ?m = view u ?m" by (intro tx_stepD(3)[OF v(2)]) simp
  moreover have "tx_step p pid H ({?m} \<union> {b}) (1 + 1) s v" by (rule tx_step_trans[OF u(2) v(2)])
  ultimately have "taken p pid H b s v" using v(3) u(3) by (simp add: taken_def insert_commute numeral_2_eq_2)
  moreover have "kbind (set_data i (\<lambda>d. set_bit_at d (unat b mod BPB))) (\<lambda>_. kbind (log_write i) (\<lambda>_. kbind (brelse i) (\<lambda>_.
      kbind (bzero 1 b) (\<lambda>_. kret b)))) t = Ret b v"
    using u(1) v(1) by (auto simp: kbind_def split: outcome.splits)
  ultimately show ?thesis by blast
qed

lemma taken_start: "tx_step p pid H {} 0 s t \<Longrightarrow> sb t = sb s \<Longrightarrow> view t = view s \<Longrightarrow> taken p pid H b t u \<Longrightarrow> taken p pid H b s u"
  unfolding taken_def using tx_step_trans[of p pid H "{}" 0 s t _ 2 u] by (auto simp: numeral_2_eq_2)

lemma balloc_loop_run:
  fixes s :: "'z istate_scheme"
  assumes "fs_tx p pid H 2 s" and "K = (unat (sb_size (sb s)) + BPB - 1) div BPB"
  shows "case next_free s (k * BPB) of
      Some b \<Rightarrow> \<exists>t. balloc_loop (map (\<lambda>k. k * BPB) [k..<K]) 1 s = Ret (of_nat b) t \<and> taken p pid H (of_nat b) s t
    | None \<Rightarrow> balloc_loop (map (\<lambda>k. k * BPB) [k..<K]) 1 s = Fault (Panic ''balloc: out of blocks'')"
  using assms
proof (induction "K - k" arbitrary: k s)
  case 0
  have P: "BPB = 4096" by (simp add: BPB_def BSIZE_def)
  have "unat (sb_size (sb s)) \<le> K * BPB" unfolding 0(3) P by linarith
  then have "unat (sb_size (sb s)) \<le> k * BPB" using 0(1) by (metis diff_is_0_eq le_trans mult_le_mono1)
  then have "next_free s (k * BPB) = None" by (simp add: next_free_def)
  then show ?case using 0(1) by simp
next
  case (Suc x)
  let ?n = "unat (sb_size (sb s))"
  have P: "BPB = 4096" by (simp add: BPB_def BSIZE_def)
  have kK: "k < K" and x: "x = K - Suc k" using Suc.hyps(2) by simp_all
  then have kn: "k * BPB < ?n" unfolding Suc.prems(2) P by linarith
  note chunk = next_free_chunk[OF kn]
  let ?b = "of_nat (k * BPB) :: uint"
  have m0: "0 < min BPB (?n - k * BPB)" using kn P by simp
  have "unat ?b = k * BPB" using chunk(3)[OF m0] by simp
  then have b: "?b < sb_size (sb s)" using kn by (simp only: word_less_nat_alt)
  obtain i t where t: "bread 1 (BBLOCK ?b (sb s)) s = Ret i t" "i \<notin> H" "tx p pid (insert i H) t" "holds t (BBLOCK ?b (sb s)) i"
    "b_data (buf_at t i) = view s (BBLOCK ?b (sb s))" "tx_frame s t" "view t = view s" "lg_n t = lg_n s" "\<forall>j \<in> H. buf_at t j = buf_at s j"
    using read_step[OF fs_txD(1)[OF Suc.prems(1)] block_free_bitmap[OF Suc.prems(1) _ b]] by auto
  let ?d = "view s (BBLOCK ?b (sb s))"
  have upt: "map (\<lambda>k. k * BPB) [k..<K] = k * BPB # map (\<lambda>k. k * BPB) [Suc k..<K]" using kK by (simp add: upt_conv_Cons)
  show ?case
  proof (cases "find (\<lambda>bi. \<not> bit_at ?d bi) [0..<min BPB (?n - k * BPB)]")
    case None
    obtain u where u: "brelse i t = Ret () u" "tx_step p pid H {} 0 s u" using release_step[OF t(3,2,4,6-9)] by blast
    note S = fs_tx_same[OF Suc.prems(1) u(2)]
    have "balloc_loop (map (\<lambda>k. k * BPB) [k..<K]) 1 s = balloc_loop (map (\<lambda>k. k * BPB) [Suc k..<K]) 1 u"
      using t(1,5) u(1) None by (simp add: upt kbind_def buf_data_def)
    moreover have "next_free s (k * BPB) = next_free u (Suc k * BPB)" using chunk(1) None S(5) by simp
    moreover have "K = (unat (sb_size (sb u)) + BPB - 1) div BPB" using Suc.prems(2) S(2) by simp
    ultimately show ?thesis
      using Suc.hyps(1)[OF x S(1)] taken_start[OF u(2) S(2,4)] by (auto split: option.splits)
  next
    case (Some bi)
    then have bi: "bi < min BPB (?n - k * BPB)" "\<not> bit_at ?d bi" using find_SomeD[OF Some] by auto
    let ?c = "of_nat (k * BPB + bi) :: uint"
    have uc: "unat ?c = k * BPB + bi" by (rule chunk(3)[OF bi(1)])
    then have c: "?c < sb_size (sb s)" using bi(1) by (simp only: word_less_nat_alt)
    have bc: "BBLOCK ?c (sb s) = BBLOCK ?b (sb s)" by (rule chunk(2)[OF bi(1)])
    have nu: "\<not> used s ?c" using chunk(4)[OF bi(1)] bi(2) by simp
    have mc: "unat ?c mod BPB = bi" using uc bi(1) by simp
    obtain v where v: "kbind (set_data i (\<lambda>d. set_bit_at d (unat ?c mod BPB))) (\<lambda>_. kbind (log_write i) (\<lambda>_. kbind (brelse i) (\<lambda>_.
      kbind (bzero 1 ?c) (\<lambda>_. kret ?c)))) t = Ret ?c v" "taken p pid H ?c s v"
      using take_block[OF Suc.prems(1) c nu t(2,3) _ t(6-9)] t(4) unfolding bc by blast
    have "balloc_loop (map (\<lambda>k. k * BPB) [k..<K]) 1 s = Ret ?c v"
      using t(1,5) Some v(1) unfolding mc by (simp add: upt kbind_def buf_data_def)
    then show ?thesis using chunk(1) Some v(2) by simp
  qed
qed

lemma balloc_run:
  fixes s :: "'z istate_scheme"
  assumes "fs_tx p pid H 2 s"
  shows "case next_free s 0 of
      Some b \<Rightarrow> \<exists>t. balloc 1 s = Ret (of_nat b) t \<and> taken p pid H (of_nat b) s t
    | None \<Rightarrow> balloc 1 s = Fault (Panic ''balloc: out of blocks'')"
  using balloc_loop_run[OF assms refl, of 0] by (simp add: balloc_def split: option.splits)

lemma next_free_Some:
  assumes "next_free s a = Some b"
  shows "(of_nat b :: uint) < sb_size (sb s)" "\<not> used s (of_nat b)" "unat (of_nat b :: uint) = b"
proof -
  have b: "b < unat (sb_size (sb s))" "\<not> used s (of_nat b)"
    using find_SomeD[OF assms[unfolded next_free_def]] by auto
  then show "\<not> used s (of_nat b)" by simp
  show u: "unat (of_nat b :: uint) = b" by (rule unat_of_nat_small) (use less_trans[OF b(1) unat_uint_less] in simp)
  then show "(of_nat b :: uint) < sb_size (sb s)" using b(1) by (simp only: word_less_nat_alt)
qed

lemma taken_after:
  fixes s :: "'z istate_scheme"
  assumes f: "fs_tx p pid H (k + 2) s" and b: "b < sb_size (sb s)" "\<not> used s b" and t: "taken p pid H b s t"
  shows "c < sb_size (sb s) \<Longrightarrow> used t c \<longleftrightarrow> c = b \<or> used s c" and "fs_tx p pid H k t" and "c \<noteq> b \<Longrightarrow> c \<notin> bitmap s \<Longrightarrow> view t c = view s c"
    and "sb t = sb s" and "disk t = disk s"
proof -
  let ?m = "BBLOCK b (sb s)"
  have st: "tx_step p pid H {?m, b} 2 s t" and v: "view t ?m = set_bit_at (view s ?m) (unat b mod BPB)"
    using t by (simp_all add: taken_def)
  note T = tx_stepD[OF st] and O = fs_txD(2)[OF f]
  show sb: "sb t = sb s" by (rule tx_frame_fs(1)[OF T(2)])
  show "disk t = disk s" by (rule T(8))
  show oth: "view t c = view s c" if "c \<noteq> b" "c \<notin> bitmap s" for c
    by (rule T(3)) (use that in_bitmap[OF b(1)] in auto)
  have bm: "view t x = view s x" if "x \<in> bitmap s" "x \<noteq> ?m" for x
    by (rule T(3)) (use that fs_ok_free(2)[OF O b] in auto)
  show us: "used t c \<longleftrightarrow> c = b \<or> used s c" if "c < sb_size (sb s)" for c
    using used_after[OF O b(1) that sb, of True] v bm by auto
  show "fs_tx p pid H k t"
  proof (rule fs_tx_step[OF f st])
    fix x
    assume "x \<in> bitmap s \<union> iblocks s"
    then have "x \<noteq> b" "length (view s x) = BSIZE" using O fs_ok_free[OF O b] by (auto simp: fs_ok_def)
    then show "length (view t x) = BSIZE" using T(3)[of x] v by (cases "x = ?m") auto
  next
    fix x
    assume "x < sb_size (sb s)" "x \<in> meta s \<or> (\<exists>i\<in>H. cached_at s x i)"
    then show "used t x" using us f O by (auto simp: fs_ok_def fs_tx_def)
  qed
qed

lemma freed_after:
  fixes s :: "'z istate_scheme"
  assumes f: "fs_tx p pid H (k + 1) s" and b: "b < sb_size (sb s)"
    and st: "tx_step p pid H {BBLOCK b (sb s)} 1 s t"
    and v: "view t (BBLOCK b (sb s)) = clear_bit_at (view s (BBLOCK b (sb s))) (unat b mod BPB)"
  shows "c < sb_size (sb s) \<Longrightarrow> used t c \<longleftrightarrow> c \<noteq> b \<and> used s c"
    and "b \<notin> meta s \<Longrightarrow> \<forall>i \<in> H. \<not> cached_at s b i \<Longrightarrow> fs_tx p pid H k t"
    and "c \<notin> bitmap s \<Longrightarrow> view t c = view s c" and "sb t = sb s" and "disk t = disk s"
proof -
  let ?m = "BBLOCK b (sb s)"
  note T = tx_stepD[OF st] and O = fs_txD(2)[OF f]
  show sb: "sb t = sb s" by (rule tx_frame_fs(1)[OF T(2)])
  show "disk t = disk s" by (rule T(8))
  show "view t c = view s c" if "c \<notin> bitmap s" for c by (rule T(3)) (use that in_bitmap[OF b] in auto)
  have bm: "view t x = view s x" if "x \<noteq> ?m" for x by (rule T(3)) (use that in auto)
  show us: "used t c \<longleftrightarrow> c \<noteq> b \<and> used s c" if "c < sb_size (sb s)" for c
    using used_after[OF O b that sb, of False] v bm by auto
  assume nb: "b \<notin> meta s" and nc: "\<forall>i \<in> H. \<not> cached_at s b i"
  show "fs_tx p pid H k t"
  proof (rule fs_tx_step[OF f st])
    fix x
    assume "x \<in> bitmap s \<union> iblocks s"
    then show "length (view t x) = BSIZE" using bm v O by (cases "x = ?m") (auto simp: fs_ok_def)
  next
    fix x
    assume "x < sb_size (sb s)" "x \<in> meta s \<or> (\<exists>i\<in>H. cached_at s x i)"
    then show "used t x" using us f O nb nc by (auto simp: fs_ok_def fs_tx_def)
  qed
qed

text \<open>
  C36. Block allocation. In a transaction with room for two more blocks in the log, \<^verbatim>\<open>balloc\<close> finds the first free block,
  marks it used and fills it with zeros; the marks of all other blocks, and all blocks but the bitmap, are as before, and
  nothing is written to the disk. It panics if and only if no block is free. \<^verbatim>\<open>bfree\<close> clears the mark of a
  used block and leaves all other marks; freeing a block that is free panics.
\<close>

theorem block_allocation:
  fixes s :: "'z istate_scheme"
  assumes "fs_tx p pid H 2 s"
  shows "(case next_free s 0 of
      None \<Rightarrow> balloc 1 s = Fault (Panic ''balloc: out of blocks'')
    | Some b \<Rightarrow> ok (balloc 1) s (\<lambda>r t. r = of_nat b \<and> \<not> used s r \<and> view t r = replicate BSIZE 0 \<and> fs_tx p pid H 0 t \<and> disk t = disk s \<and>
        (\<forall>c < sb_size (sb s). used t c \<longleftrightarrow> c = r \<or> used s c) \<and> (\<forall>c. c \<noteq> r \<and> c \<notin> bitmap s \<longrightarrow> view t c = view s c))) \<and>
    (\<forall>b < sb_size (sb s). if used s b
      then ok (bfree 1 b) s (\<lambda>_ t. disk t = disk s \<and> (\<forall>c < sb_size (sb s). used t c \<longleftrightarrow> c \<noteq> b \<and> used s c) \<and> (\<forall>c. c \<notin> bitmap s \<longrightarrow> view t c = view s c))
      else bfree 1 b s = Fault (Panic ''freeing free block''))"
proof (intro conjI allI impI)
  have f2: "fs_tx p pid H (0 + 2) s" using assms by (simp only: add_0)
  show "case next_free s 0 of
      None \<Rightarrow> balloc 1 s = Fault (Panic ''balloc: out of blocks'')
    | Some b \<Rightarrow> ok (balloc 1) s (\<lambda>r t. r = of_nat b \<and> \<not> used s r \<and> view t r = replicate BSIZE 0 \<and> fs_tx p pid H 0 t \<and> disk t = disk s \<and>
        (\<forall>c < sb_size (sb s). used t c \<longleftrightarrow> c = r \<or> used s c) \<and> (\<forall>c. c \<noteq> r \<and> c \<notin> bitmap s \<longrightarrow> view t c = view s c))"
  proof (cases "next_free s 0")
    case (Some b)
    obtain t where t: "balloc 1 s = Ret (of_nat b) t" "taken p pid H (of_nat b) s t" using balloc_run[OF assms] Some by auto
    note A = taken_after[OF f2 next_free_Some(1,2)[OF Some] t(2)]
    show ?thesis using Some t A next_free_Some(2)[OF Some] by (simp add: ok_def) (simp add: taken_def)
  qed (use balloc_run[OF assms] in simp)
next
  fix b
  assume b: "b < sb_size (sb s)"
  have f1: "fs_tx p pid H 1 s" "fs_tx p pid H (0 + 1) s" using assms by (auto simp: fs_tx_def)
  show "if used s b
      then ok (bfree 1 b) s (\<lambda>_ t. disk t = disk s \<and> (\<forall>c < sb_size (sb s). used t c \<longleftrightarrow> c \<noteq> b \<and> used s c) \<and> (\<forall>c. c \<notin> bitmap s \<longrightarrow> view t c = view s c))
      else bfree 1 b s = Fault (Panic ''freeing free block'')"
  proof (cases "used s b")
    case True
    obtain t where t: "bfree 1 b s = Ret () t" "tx_step p pid H {BBLOCK b (sb s)} 1 s t"
      "view t (BBLOCK b (sb s)) = clear_bit_at (view s (BBLOCK b (sb s))) (unat b mod BPB)"
      using bfree_run[OF f1(1) b] True by auto
    then show ?thesis using True freed_after[OF f1(2) b t(2,3)] by (auto simp: ok_def)
  qed (use bfree_run[OF f1(1) b] in simp)
qed

text \<open>A file system of 1000 blocks of which the first 64 are in use, as the boot code finds it, with one transaction running.\<close>

definition example_fs :: fstate where
  "example_fs = (example_kernel [zero_proc\<lparr>p_pid := 1, p_state := RUNNING\<rparr>])
     \<lparr>disk := (\<lambda>b. if b = 58 then replicate 8 255 @ replicate 504 0 else replicate BSIZE 0), lg_outstanding := 1\<rparr>"

lemma example_fs_simps [simp]:
  "sb_size (sb example_fs) = 1000" "sb_bmapstart (sb example_fs) = 58" "sb_inodestart (sb example_fs) = 32" "sb_ninodes (sb example_fs) = 200"
  "disksize example_fs = 1000" "lg_start example_fs = 2" "lg_n example_fs = 0"
  "lg_size example_fs = 30" "lg_outstanding example_fs = 1" "lg_dev example_fs = 1" "lg_block example_fs = replicate LOGSIZE 0"
  "bufs example_fs = replicate NBUF zero_buf" "lru example_fs = [0..<NBUF]"
  by (simp_all add: example_fs_def example_kernel_def FSSIZE_def)

lemma example_fs_cached: "\<not> cached_at example_fs b i"
  by (auto simp: cached_at_def zero_buf_def)

lemma example_fs_view: "view example_fs b = (if b = 58 then replicate 8 255 @ replicate 504 0 else replicate BSIZE 0)"
  using view_uncached[OF example_fs_cached, of b] by (simp add: example_fs_def)

lemma example_fs_bitmap: "b < 1000 \<Longrightarrow> BBLOCK b (sb example_fs) = 58"
proof -
  assume "b < 1000"
  then have "unat b < 4096" by (simp add: word_less_nat_alt)
  then have "unat (b div of_nat BPB) = 0" unfolding unat_BBLOCK_index by (simp add: BPB_def BSIZE_def)
  then have "b div of_nat BPB = 0" by (simp only: unat_eq_0)
  then show ?thesis by (simp add: BBLOCK_def)
qed

lemma example_fs_used: "b < 1000 \<Longrightarrow> used example_fs b \<longleftrightarrow> b < 64"
proof -
  assume b: "b < 1000"
  then have n: "unat b < 1000" by (simp add: word_less_nat_alt)
  have "(255 :: uchar) = mask 8" by (simp add: mask_eq_exp_minus_1)
  then have m: "bit (255 :: uchar) (k mod 8)" for k :: nat by (simp only: bit_mask_iff) simp
  have "bit_at (replicate 8 255 @ replicate 504 0) (unat b) \<longleftrightarrow> unat b div 8 < 8"
    using n m by (auto simp: bit_at_bit nth_append)
  also have "\<dots> \<longleftrightarrow> b < 64" by (simp add: word_less_nat_alt div_less_iff_less_mult)
  finally show ?thesis using b n by (simp add: used_def example_fs_bitmap example_fs_view BPB_def BSIZE_def)
qed

lemma example_fs_log: "b \<in> log_area 2 \<Longrightarrow> 2 \<le> b \<and> b < 32"
proof -
  assume "b \<in> log_area 2"
  then obtain i where i: "i < LOGSIZE" "b = word_of_int (2 + int i)" by (auto simp: log_area_def)
  have "log_room 2 100" by (simp add: log_room_def param_defs)
  from log_word[OF this i(1)] have "Word.uint b = 2 + int i" using i(2) by simp
  then show ?thesis using i(1) by (simp add: word_less_def word_le_def param_defs)
qed

lemma example_fs_iblocks: "b \<in> iblocks example_fs \<Longrightarrow> 32 \<le> b \<and> b < 58"
proof -
  assume "b \<in> iblocks example_fs"
  then obtain i where i: "i < 200" "b = i div of_nat IPB + 32" by (auto simp: iblocks_def IBLOCK_def)
  have d: "unat (i div 8) = unat i div 8" by (simp add: unat_div)
  have "unat i < 200" using i(1) by (simp add: word_less_nat_alt)
  then have "unat b = unat i div 8 + 32" unfolding i(2) by (simp add: IPB_def BSIZE_def unat_add_mod d)
  then show ?thesis using \<open>unat i < 200\<close> by (simp add: word_less_nat_alt word_le_nat_alt)
qed

lemma example_fs_bm: "bitmap example_fs = {58}"
proof
  show "bitmap example_fs \<subseteq> {58}" by (auto simp: bitmap_def example_fs_bitmap)
  show "{58} \<subseteq> bitmap example_fs" using in_bitmap[of 0 example_fs] example_fs_bitmap[of 0] by (simp add: word_less_def)
qed

lemma example_fs_ok: "fs_ok example_fs"
proof -
  have r: "b < 1000" "b \<noteq> 58" "b \<notin> log_area 2" if "b \<in> iblocks example_fs" for b
    using example_fs_iblocks[OF that] example_fs_log[of b] by (auto simp: word_less_def word_le_def)
  have "58 \<notin> log_area 2" using example_fs_log[of 58] by (auto simp: word_less_def)
  moreover have "used example_fs b" if "b < 1000" "b \<in> meta example_fs" for b
    unfolding example_fs_used[OF that(1)] using that(2) example_fs_log[of b] example_fs_iblocks[of b]
    by (auto simp: meta_def example_fs_bm word_less_def)
  ultimately show ?thesis using r by (auto simp: fs_ok_def example_fs_bm example_fs_view BSIZE_def word_less_def)
qed

lemma example_fs_tx: "fs_tx 0 1 {} 26 example_fs"
proof -
  have z: "\<not> dirty example_fs b" for b by (simp add: dirty_def example_fs_cached)
  have "on_cpu 0 1 example_fs" by (simp add: example_fs_def example_kernel_def on_cpu_def)
  then have inv: "cache_inv 0 1 {} example_fs"
    unfolding cache_inv_def by (auto simp: idle_buf_def zero_buf_def initsleeplock_def buf_ok_def)
  have "log_room 2 1000" by (simp add: log_room_def param_defs)
  then have "tx 0 1 {} example_fs"
    using inv z by (simp add: tx_def homes_def param_defs example_fs_def[THEN arg_cong, of disk] BSIZE_def get32_def word_of_bytes_def)
  then show ?thesis using example_fs_ok by (simp add: fs_tx_def param_defs)
qed

theorem block_allocation_witness:
  "ok (balloc 1) example_fs (\<lambda>r t. r = 64 \<and> used t 64) \<and> bfree 1 100 example_fs = Fault (Panic ''freeing free block'')"
proof -
  have u: "used example_fs (of_nat b) \<longleftrightarrow> b < 64" if "b < 1000" for b
  proof -
    have "unat (of_nat b :: uint) = b" by (rule unat_of_nat_small) (use that in simp)
    then show ?thesis using that by (subst example_fs_used) (simp_all add: word_less_nat_alt)
  qed
  have s: "[0..<1000] = [0..<64] @ 64 # [65..<1000]" using upt_add_eq_append[of 0 64 936] upt_conv_Cons[of 64 1000] by simp
  have "find (\<lambda>b. \<not> used example_fs (of_nat b)) [0..<64] = None" using u by (simp add: find_None_iff)
  moreover have "\<not> used example_fs (of_nat 64)" using u[of 64] by simp
  ultimately have n: "next_free example_fs 0 = Some 64" by (simp add: next_free_def s find_append)
  have "\<not> used example_fs 100" by (subst example_fs_used) (simp_all add: word_less_def)
  moreover have "(100 :: uint) < sb_size (sb example_fs)" "(64 :: uint) < sb_size (sb example_fs)" by (simp_all add: word_less_def)
  ultimately show ?thesis using block_allocation[OF fs_tx_less[OF example_fs_tx]] unfolding n by (auto elim!: ok_mono)
qed

end
