(* ===== verification/Xv6_Dinode.thy ===== *)
theory Xv6_Dinode
  imports Xv6_Blocks
begin

text \<open>
  Inodes in memory and on disk. An inode is 64 bytes of an inode block. \<^verbatim>\<open>iupdate\<close> stores the copy in memory there, \<^verbatim>\<open>ilock\<close>
  loads it; the lemmas follow both through the block cache and the log of the running transaction.
\<close>

subsection \<open>The bytes of an inode\<close>

definition same_dinode :: "inode \<Rightarrow> inode \<Rightarrow> bool" where
  "same_dinode p q \<longleftrightarrow> i_type p = i_type q \<and> i_major p = i_major q \<and> i_minor p = i_minor q \<and> i_nlink p = i_nlink q \<and>
     i_size p = i_size q \<and> i_addrs p = i_addrs q"

definition dinode_head :: "inode \<Rightarrow> uchar list \<Rightarrow> nat \<Rightarrow> uchar list" where
  "dinode_head p d k0 = put32 (put16 (put16 (put16 (put16 d k0 (i_type p)) (k0 + 2) (i_major p)) (k0 + 4) (i_minor p))
     (k0 + 6) (i_nlink p)) (k0 + 8) (i_size p)"

lemma put_dinode_table:
  "put_dinode p d k0 = foldl (\<lambda>d k. put32 d ((k0 + 12) + 4 * k) (i_addrs p ! k)) (dinode_head p d k0) [0..<13]"
  by (simp add: put_dinode_def dinode_head_def NDIRECT_def)

lemma dinode_head_length [simp]: "k0 + 64 \<le> length d \<Longrightarrow> length (dinode_head p d k0) = length d"
  by (simp add: dinode_head_def)

lemma put_dinode_length [simp]: "k0 + 64 \<le> length d \<Longrightarrow> length (put_dinode p d k0) = length d"
  by (simp add: put_dinode_table put32_table_length)

lemma get_put_dinode:
  assumes "k0 + 64 \<le> length d" and "length (i_addrs p) = NDIRECT + 1"
  shows "same_dinode (get_dinode (put_dinode p d k0) k0 q) p"
proof -
  have h: "(k0 + 12) + 4 * 13 \<le> length (dinode_head p d k0)" using assms(1) by simp
  have "get32 (put_dinode p d k0) (k0 + 12 + 4 * k) = i_addrs p ! k" if "k < 13" for k
    unfolding put_dinode_table by (rule get32_table[OF h that])
  then have "map (\<lambda>k. get32 (put_dinode p d k0) (k0 + 12 + 4 * k)) [0..<13] = i_addrs p"
    using assms(2) by (intro nth_equalityI) (simp_all add: NDIRECT_def)
  moreover have "get16 (put_dinode p d k0) k0 = i_type p" "get16 (put_dinode p d k0) (k0 + 2) = i_major p"
    "get16 (put_dinode p d k0) (k0 + 4) = i_minor p" "get16 (put_dinode p d k0) (k0 + 6) = i_nlink p"
    "get32 (put_dinode p d k0) (k0 + 8) = i_size p"
    unfolding put_dinode_table using assms(1) h
    by (simp_all add: get16_table_ne get32_table_ne dinode_head_def block_simps)
  ultimately show ?thesis by (simp add: same_dinode_def get_dinode_def NDIRECT_def)
qed

text \<open>The other inodes of the block are not touched.\<close>

lemma get_put_dinode_ne:
  assumes "k0 + 64 \<le> length d" and "j0 + 64 \<le> length d" and "j0 + 64 \<le> k0 \<or> k0 + 64 \<le> j0"
  shows "get_dinode (put_dinode p d k0) j0 q = get_dinode d j0 q"
proof -
  have h: "(k0 + 12) + 4 * 13 \<le> length (dinode_head p d k0)" using assms(1) by simp
  have "get32 (put_dinode p d k0) j = get32 d j" if "j0 \<le> j" "j + 4 \<le> j0 + 64" for j
    unfolding put_dinode_table using assms h that by (auto simp: get32_table_ne dinode_head_def block_simps)
  moreover have "get16 (put_dinode p d k0) j = get16 d j" if "j0 \<le> j" "j + 2 \<le> j0 + 64" for j
    unfolding put_dinode_table using assms h that by (auto simp: get16_table_ne dinode_head_def block_simps)
  ultimately show ?thesis by (simp add: get_dinode_def NDIRECT_def)
qed

lemma dip_off_bound: "dip_off i + 64 \<le> BSIZE"
proof -
  have "unat i mod IPB < 8" by (simp add: IPB_def BSIZE_def)
  then show ?thesis by (simp add: dip_off_def BSIZE_def)
qed

lemma dip_off_apart:
  assumes "IBLOCK i su = IBLOCK j su" and "i \<noteq> j"
  shows "dip_off j + 64 \<le> dip_off i \<or> dip_off i + 64 \<le> dip_off j"
proof -
  have "unat ((i :: uint) div of_nat IPB) = unat i div IPB" for i by (simp add: unat_div IPB_def BSIZE_def)
  then have "unat i div IPB = unat j div IPB" using assms(1) by (metis IBLOCK_def add_right_cancel)
  then have "unat i mod IPB \<noteq> unat j mod IPB" using assms(2) by (metis div_mult_mod_eq word_unat_eq_iff)
  then show ?thesis by (auto simp: dip_off_def)
qed

subsection \<open>Changing the inodes in memory\<close>

lemma cached_at_inodes [simp]: "cached_at (s\<lparr>inodes := x\<rparr>) = cached_at s"
  by (simp add: cached_at_def[abs_def])

lemma view_inodes [simp]: "view (s\<lparr>inodes := x\<rparr>) = view s"
  by (rule ext) (simp add: view_def split: option.splits)

lemma dirty_inodes [simp]: "dirty (s\<lparr>inodes := x\<rparr>) = dirty s"
  by (simp add: dirty_def[abs_def])

lemma tx_inodes [simp]: "tx p pid H (s\<lparr>inodes := x\<rparr>) = tx p pid H s"
  by (simp add: tx_def cache_inv_def on_cpu_def)

lemma fs_inodes [simp]:
  "used (s\<lparr>inodes := x\<rparr>) = used s" "bitmap (s\<lparr>inodes := x\<rparr>) = bitmap s" "iblocks (s\<lparr>inodes := x\<rparr>) = iblocks s"
  "meta (s\<lparr>inodes := x\<rparr>) = meta s" "fs_ok (s\<lparr>inodes := x\<rparr>) = fs_ok s"
  by (simp_all add: used_def[abs_def] bitmap_def iblocks_def meta_def fs_ok_def)

lemma fs_tx_inodes [simp]: "fs_tx p pid H k (s\<lparr>inodes := x\<rparr>) = fs_tx p pid H k s"
  by (simp add: fs_tx_def)

lemma holds_inodes [simp]: "holds (s\<lparr>inodes := x\<rparr>) = holds s"
  by (simp add: holds_def[abs_def])

lemma tx_frame_inodes: "tx_frame s t \<Longrightarrow> tx_frame (s\<lparr>inodes := x\<rparr>) (t\<lparr>inodes := x\<rparr>)"
  unfolding tx_frame_def by (cases s; cases t) simp

lemma tx_step_inodes: "tx_step p pid H W k s t \<Longrightarrow> tx_step p pid H W k (s\<lparr>inodes := x\<rparr>) (t\<lparr>inodes := x\<rparr>)"
  by (simp add: tx_step_def tx_frame_inodes)

subsection \<open>Saving and loading\<close>

definition saved :: "'z istate_scheme \<Rightarrow> uint \<Rightarrow> inode \<Rightarrow> inode" where
  "saved s inum = get_dinode (view s (IBLOCK inum (sb s))) (dip_off inum)"

lemma in_iblocks: "i < sb_ninodes (sb s) \<Longrightarrow> IBLOCK i (sb s) \<in> iblocks s"
  by (auto simp: iblocks_def)

lemma fs_ok_iblock:
  assumes "fs_ok s" and "i < sb_ninodes (sb s)"
  shows "IBLOCK i (sb s) < disksize s" "IBLOCK i (sb s) \<notin> log_area (lg_start s)" "length (view s (IBLOCK i (sb s))) = BSIZE"
    "IBLOCK i (sb s) \<notin> bitmap s"
  using assms in_iblocks[OF assms(2)] by (auto simp: fs_ok_def)

lemma block_free_any: "tx p pid {} s \<Longrightarrow> b < disksize s \<Longrightarrow> block_free {} b s"
  by (auto simp: block_free_def tx_def NBUF_def LOGSIZE_def MAXOPBLOCKS_def)

text \<open>A change of one block outside the bitmap.\<close>

lemma fs_ok_outside:
  fixes s :: "'z istate_scheme"
  assumes O: "fs_ok s" and st: "tx_step p pid H {b} k s t" and b: "b \<notin> bitmap s" and l: "length (view t b) = BSIZE"
  shows "fs_ok t" and "c < sb_size (sb s) \<Longrightarrow> used t c = used s c"
proof -
  note T = tx_stepD[OF st]
  have sb: "sb t = sb s" by (rule tx_frame_fs(1)[OF T(2)])
  then have bm: "bitmap t = bitmap s" "iblocks t = iblocks s" "meta t = meta s" by (simp_all add: bitmap_def iblocks_def meta_def T(9))
  show us: "used t c = used s c" if "c < sb_size (sb s)" for c
  proof -
    have "BBLOCK c (sb s) \<notin> {b}" using in_bitmap[OF that] b by auto
    then show ?thesis using T(3)[of "BBLOCK c (sb s)"] by (simp add: used_def sb)
  qed
  have "length (view t c) = BSIZE" if "c \<in> bitmap s \<union> iblocks s" for c using T(3)[of c] l that O by (cases "c = b") (auto simp: fs_ok_def)
  then show "fs_ok t" using O us by (auto simp: fs_ok_def sb bm T(7,9))
qed

lemma fs_tx_outside:
  fixes s :: "'z istate_scheme"
  assumes f: "fs_tx p pid {} (k + 1) s" and st: "tx_step p pid {} {b} 1 s t" and b: "b \<notin> bitmap s" and l: "length (view t b) = BSIZE"
  shows "fs_tx p pid {} k t"
  using fs_ok_outside(1)[OF fs_txD(2)[OF f] st b l] tx_stepD(1,4)[OF st] fs_txD(3)[OF f] by (simp add: fs_tx_def)

lemma iupdate_run:
  fixes s :: "'z istate_scheme"
  assumes f: "fs_tx p pid {} (k + 1) s" and ip: "i_dev (inode_at s ip) = 1" "i_inum (inode_at s ip) < sb_ninodes (sb s)"
  defines "b \<equiv> IBLOCK (i_inum (inode_at s ip)) (sb s)" and "d \<equiv> dip_off (i_inum (inode_at s ip))"
  shows "\<exists>t. iupdate ip s = Ret () t \<and> tx_step p pid {} {b} 1 s t \<and> view t b = put_dinode (inode_at s ip) (view s b) d \<and>
    fs_tx p pid {} k t"
proof -
  note F = fs_txD[OF f] and B = fs_ok_iblock[OF fs_txD(2)[OF f] ip(2), folded b_def]
  have r: "lg_n s < int LOGSIZE - 1" using F(3) by simp
  obtain i t where t: "bread 1 b s = Ret i t" "i \<notin> {}" "tx p pid (insert i {}) t" "holds t b i" "tx_frame s t" "view t = view s"
    "lg_n t = lg_n s" "\<forall>j \<in> {}. buf_at t j = buf_at s j"
    using read_step[OF F(1) block_free_any[OF F(1) B(1)]] by blast
  obtain u where u: "kbind (set_data i (\<lambda>x. put_dinode (inode_at s ip) x d)) (\<lambda>_. kbind (log_write i) (\<lambda>_. brelse i)) t = Ret () u"
    "tx_step p pid {} {b} 1 s u" "view u b = put_dinode (inode_at s ip) (view s b) d"
    using write_step[OF t(3,2,4-8) B(2) r, of "\<lambda>x. put_dinode (inode_at s ip) x d"] by blast
  have "fs_tx p pid {} k u"
    by (rule fs_tx_outside[OF f u(2) B(4)]) (use u(3) B(3) dip_off_bound in \<open>simp add: d_def\<close>)
  moreover have "iupdate ip s = Ret () u" using t(1) u(1) by (simp add: iupdate_def kbind_def ip(1) flip: b_def d_def)
  ultimately show ?thesis using u by blast
qed

text \<open>The inodes of a block after one of them is stored.\<close>

lemma saved_after:
  fixes s t :: "'z istate_scheme"
  assumes O: "fs_ok s" and n: "n < sb_ninodes (sb s)" and st: "tx_step p pid H {IBLOCK n (sb s)} k s t"
    and v: "view t (IBLOCK n (sb s)) = put_dinode r (view s (IBLOCK n (sb s))) (dip_off n)"
  shows "j \<noteq> n \<Longrightarrow> saved t j = saved s j" "length (i_addrs r) = NDIRECT + 1 \<Longrightarrow> same_dinode (saved t n q) r"
proof -
  note T = tx_stepD[OF st]
  have sb: "sb t = sb s" by (rule tx_frame_fs(1)[OF T(2)])
  have L: "dip_off i + 64 \<le> length (view s (IBLOCK n (sb s)))" for i using fs_ok_iblock(3)[OF O n] dip_off_bound[of i] by simp
  show "saved t j = saved s j" if j: "j \<noteq> n"
  proof (cases "IBLOCK j (sb s) = IBLOCK n (sb s)")
    case True
    show ?thesis using dip_off_apart[OF True j] get_put_dinode_ne[OF L L] True by (auto simp: saved_def sb v fun_eq_iff)
  qed (use T(3)[of "IBLOCK j (sb s)"] in \<open>simp add: saved_def sb\<close>)
  show "same_dinode (saved t n q) r" if "length (i_addrs r) = NDIRECT + 1"
    using get_put_dinode[OF L that] by (simp add: saved_def sb v)
qed

lemma acquire_inode_run:
  assumes "tx p pid {} s" and "\<not> sl_locked (i_lock (inode_at s jp))"
  shows "acquire_inode jp s = Ret () (upd_ilk jp (\<lambda>_. \<lparr>sl_locked = True, sl_pid = pid\<rparr>) s)"
proof -
  have c: "on_cpu p pid s" using assms(1) by (simp add: tx_def cache_inv_def)
  show ?thesis using assms(2) c curproc_on_cpu[OF c]
    by (simp add: acquire_inode_def acquiresleep_def kbind_def kmod_def on_cpu_def)
qed

text \<open>Loading an inode that is not yet valid.\<close>

lemma ilock_run:
  fixes s :: "'z istate_scheme"
  assumes f: "fs_tx p pid {} k s" and jp: "jp < length (inodes s)" "i_dev (inode_at s jp) = 1" "i_inum (inode_at s jp) < sb_ninodes (sb s)"
    "0 < i_ref (inode_at s jp)" "\<not> sl_locked (i_lock (inode_at s jp))" "\<not> i_valid (inode_at s jp)"
  defines "q \<equiv> (saved s (i_inum (inode_at s jp)) (inode_at s jp))\<lparr>i_lock := \<lparr>sl_locked = True, sl_pid = pid\<rparr>, i_valid := True\<rparr>"
  shows "\<exists>t. ilock jp s = (if i_type q = 0 then Fault (Panic ''ilock: no type'') else Ret () t) \<and>
    tx_step p pid {} {} 0 (s\<lparr>inodes := (inodes s)[jp := q]\<rparr>) t"
proof -
  let ?n = "i_inum (inode_at s jp)" and ?s = "upd_ilk jp (\<lambda>_. \<lparr>sl_locked = True, sl_pid = pid\<rparr>) s"
  let ?b = "IBLOCK ?n (sb s)"
  note F = fs_txD[OF f] and B = fs_ok_iblock[OF fs_txD(2)[OF f] jp(3)]
  have ts: "tx p pid {} ?s" and vs: "view ?s = view s" and ds: "?b < disksize ?s" and at: "inode_at ?s jp = (inode_at s jp)\<lparr>i_lock := \<lparr>sl_locked = True, sl_pid = pid\<rparr>\<rparr>"
    and sbs: "sb ?s = sb s"
    using F(1) B(1) jp(1) by (simp_all add: upd_ilk_def upd_inode_def)
  obtain i t where t: "bread 1 ?b ?s = Ret i t" "i \<notin> {}" "tx p pid (insert i {}) t" "holds t ?b i" "tx_frame ?s t" "view t = view ?s"
    "lg_n t = lg_n ?s" "\<forall>j \<in> {}. buf_at t j = buf_at ?s j" "b_data (buf_at t i) = view s ?b"
    using read_step[OF ts block_free_any[OF ts ds]] vs by auto
  let ?t = "upd_inode jp (get_dinode (view s ?b) (dip_off ?n)) t"
  have it: "inodes t = inodes ?s" by (rule tx_frame_fs(2)[OF t(5)])
  have t': "tx p pid (insert i {}) ?t" "holds ?t ?b i" "tx_frame (?s\<lparr>inodes := inodes ?t\<rparr>) ?t" "view ?t = view (?s\<lparr>inodes := inodes ?t\<rparr>)"
    "lg_n ?t = lg_n (?s\<lparr>inodes := inodes ?t\<rparr>)" "\<forall>j \<in> {}. buf_at ?t j = buf_at (?s\<lparr>inodes := inodes ?t\<rparr>) j"
    using t(3-7) by (simp_all add: upd_inode_def tx_frame_inodes)
  obtain u where u: "brelse i ?t = Ret () u" "tx_step p pid {} {} 0 (?s\<lparr>inodes := inodes ?t\<rparr>) u"
    using release_step[OF t'(1) t(2) t'(2-6)] by blast
  have iu: "inodes u = (inodes s)[jp := saved s ?n (inode_at ?s jp)]"
    using tx_frame_fs(2)[OF tx_stepD(2)[OF u(2)]] jp(1) by (simp add: it upd_ilk_def upd_inode_def saved_def)
  let ?u = "upd_inode jp (\<lambda>p. p\<lparr>i_valid := True\<rparr>) u"
  have q: "(saved s ?n (inode_at ?s jp))\<lparr>i_valid := True\<rparr> = q" by (simp add: q_def saved_def at get_dinode_def)
  have "tx_step p pid {} {} 0 (?s\<lparr>inodes := inodes ?t\<rparr>\<lparr>inodes := (inodes s)[jp := q]\<rparr>) (u\<lparr>inodes := (inodes s)[jp := q]\<rparr>)"
    by (rule tx_step_inodes[OF u(2)])
  moreover have "?u = u\<lparr>inodes := (inodes s)[jp := q]\<rparr>" using jp(1) q by (simp add: upd_inode_def iu)
  moreover have "ilock jp s = (if i_type q = 0 then Fault (Panic ''ilock: no type'') else Ret () ?u)"
    using jp u(1) t(1,9) acquire_inode_run[OF F(1) jp(5)]
    by (simp add: ilock_def kbind_def buf_data_def at sbs upd_inode_def iu flip: q)
  ultimately show ?thesis by (intro exI[of _ ?u]) (simp add: upd_ilk_def upd_inode_def)
qed

lemma ilock_loads:
  fixes t :: "'z istate_scheme"
  assumes f: "fs_tx p pid {} k t" and n: "n < sb_ninodes (sb t)" and same: "\<And>q. same_dinode (saved t n q) r"
    and h: "jp < length xs \<and> i_dev (xs ! jp) = 1 \<and> i_inum (xs ! jp) = n \<and> 0 < i_ref (xs ! jp) \<and> \<not> sl_locked (i_lock (xs ! jp)) \<and>
      \<not> i_valid (xs ! jp)"
  shows "if i_type r = 0 then ilock jp (t\<lparr>inodes := xs\<rparr>) = Fault (Panic ''ilock: no type'')
    else ok (ilock jp) (t\<lparr>inodes := xs\<rparr>) (\<lambda>_ u. same_dinode (inode_at u jp) r \<and> i_valid (inode_at u jp) \<and>
      i_lock (inode_at u jp) = \<lparr>sl_locked = True, sl_pid = pid\<rparr> \<and> view u = view t)"
proof -
  let ?t = "t\<lparr>inodes := xs\<rparr>"
  define q where "q = (saved t n (xs ! jp))\<lparr>i_lock := \<lparr>sl_locked = True, sl_pid = pid\<rparr>, i_valid := True\<rparr>"
  have sd: "same_dinode q r" using same[of "xs ! jp"] by (simp add: q_def same_dinode_def)
  have e: "saved ?t n = saved t n" by (simp add: saved_def)
  obtain u where u: "ilock jp ?t = (if i_type q = 0 then Fault (Panic ''ilock: no type'') else Ret () u)"
    "tx_step p pid {} {} 0 (?t\<lparr>inodes := xs[jp := q]\<rparr>) u"
    using ilock_run[of p pid k ?t jp] h f n by (auto simp: q_def e)
  have "inodes u = xs[jp := q]" using tx_frame_fs(2)[OF tx_stepD(2)[OF u(2)]] by simp
  moreover have "view u = view t" using tx_stepD(3)[OF u(2)] by (auto simp: fun_eq_iff)
  ultimately show ?thesis using u(1) sd h by (auto simp: ok_def same_dinode_def q_def)
qed

text \<open>
  C35. Inodes survive the round trip to disk. In a transaction with room for one more block in the log, \<^verbatim>\<open>iupdate\<close> returns, changes
  no block but the one of the inode, and no other inode in it. Whatever happens to the inode cache afterwards, \<^verbatim>\<open>ilock\<close> of an
  entry for this inode number that is not loaded yet takes the lock and gives the type, device numbers, link count, size and
  all block addresses that were stored; if the stored type is 0 it panics.
\<close>

theorem inode_round_trip:
  fixes s :: "'z istate_scheme"
  assumes "fs_tx p pid {} 1 s" and "i_dev (inode_at s ip) = 1" and "i_inum (inode_at s ip) = n" and "n < sb_ninodes (sb s)"
    and "length (i_addrs (inode_at s ip)) = NDIRECT + 1"
  shows "ok (iupdate ip) s (\<lambda>_ t. fs_tx p pid {} 0 t \<and> disk t = disk s \<and> inodes t = inodes s \<and>
     (\<forall>c. c \<noteq> IBLOCK n (sb s) \<longrightarrow> view t c = view s c) \<and> (\<forall>j < sb_ninodes (sb s). j \<noteq> n \<longrightarrow> saved t j = saved s j) \<and>
     (\<forall>xs jp. jp < length xs \<and> i_dev (xs ! jp) = 1 \<and> i_inum (xs ! jp) = n \<and> 0 < i_ref (xs ! jp) \<and> \<not> sl_locked (i_lock (xs ! jp)) \<and>
        \<not> i_valid (xs ! jp) \<longrightarrow>
        (if i_type (inode_at s ip) = 0 then ilock jp (t\<lparr>inodes := xs\<rparr>) = Fault (Panic ''ilock: no type'')
         else ok (ilock jp) (t\<lparr>inodes := xs\<rparr>) (\<lambda>_ u. same_dinode (inode_at u jp) (inode_at s ip) \<and> i_valid (inode_at u jp) \<and>
           i_lock (inode_at u jp) = \<lparr>sl_locked = True, sl_pid = pid\<rparr> \<and> view u = view t))))"
proof -
  let ?b = "IBLOCK n (sb s)" and ?p = "inode_at s ip"
  have f: "fs_tx p pid {} (0 + 1) s" using assms(1) by (simp only: add_0)
  note O = fs_txD(2)[OF f]
  obtain t where t: "iupdate ip s = Ret () t" "tx_step p pid {} {?b} 1 s t" "view t ?b = put_dinode ?p (view s ?b) (dip_off n)" "fs_tx p pid {} 0 t"
    using iupdate_run[OF f assms(2)] assms(3,4) by auto
  note T = tx_stepD[OF t(2)]
  have sb: "sb t = sb s" and it: "inodes t = inodes s" using tx_frame_fs[OF T(2)] by simp_all
  note A = saved_after[OF O assms(4) t(2,3)]
  have other: "saved t j = saved s j" if "j \<noteq> n" for j by (rule A(1)[OF that])
  have same: "same_dinode (saved t n q) ?p" for q by (rule A(2)[OF assms(5)])
  note load = ilock_loads[OF t(4) assms(4)[folded sb] same]
  have "fs_tx p pid {} 0 t \<and> disk t = disk s \<and> inodes t = inodes s \<and> (\<forall>c. c \<noteq> ?b \<longrightarrow> view t c = view s c) \<and>
     (\<forall>j < sb_ninodes (sb s). j \<noteq> n \<longrightarrow> saved t j = saved s j)" using t(4) T(3,8) it other by auto
  then show ?thesis using t(1) load by (subst ok_def) simp
qed

definition example_ino :: inode where
  "example_ino = \<lparr>i_dev = 1, i_inum = 5, i_ref = 1, i_lock = initsleeplock, i_valid = True, i_type = 2, i_major = 0, i_minor = 0,
     i_nlink = 1, i_size = 0, i_addrs = replicate 13 0\<rparr>"

theorem inode_round_trip_witness:
  "ok (iupdate 0) (example_fs\<lparr>inodes := [example_ino\<lparr>i_nlink := 7\<rparr>]\<rparr>) (\<lambda>_ t.
     ok (ilock 0) (t\<lparr>inodes := [example_ino\<lparr>i_valid := False\<rparr>]\<rparr>) (\<lambda>_ u. i_nlink (inode_at u 0) = 7))"
proof -
  let ?s = "example_fs\<lparr>inodes := [example_ino\<lparr>i_nlink := 7\<rparr>]\<rparr>"
  have f: "fs_tx 0 1 {} 1 ?s" using fs_tx_less[OF example_fs_tx, of 1] by simp
  have n: "i_inum (inode_at ?s 0) = 5" "5 < sb_ninodes (sb ?s)" by (simp_all add: example_ino_def word_less_def)
  have a: "i_dev (inode_at ?s 0) = 1" "length (i_addrs (inode_at ?s 0)) = NDIRECT + 1" "i_type (inode_at ?s 0) = 2" "i_nlink (inode_at ?s 0) = 7"
    by (simp_all add: example_ino_def NDIRECT_def)
  show ?thesis
  proof (rule ok_mono[OF inode_round_trip[OF f a(1) n a(2)]], elim conjE)
    fix x t
    assume h: "\<forall>xs jp. jp < length xs \<and> i_dev (xs ! jp) = 1 \<and> i_inum (xs ! jp) = 5 \<and> 0 < i_ref (xs ! jp) \<and> \<not> sl_locked (i_lock (xs ! jp)) \<and>
        \<not> i_valid (xs ! jp) \<longrightarrow>
        (if i_type (inode_at ?s 0) = 0 then ilock jp (t\<lparr>inodes := xs\<rparr>) = Fault (Panic ''ilock: no type'')
         else ok (ilock jp) (t\<lparr>inodes := xs\<rparr>) (\<lambda>_ u. same_dinode (inode_at u jp) (inode_at ?s 0) \<and> i_valid (inode_at u jp) \<and>
           i_lock (inode_at u jp) = \<lparr>sl_locked = True, sl_pid = 1\<rparr> \<and> view u = view t))"
    show "ok (ilock 0) (t\<lparr>inodes := [example_ino\<lparr>i_valid := False\<rparr>]\<rparr>) (\<lambda>_ u. i_nlink (inode_at u 0) = 7)"
      using h[rule_format, of 0 "[example_ino\<lparr>i_valid := False\<rparr>]"] a(3,4)
      by (auto simp: same_dinode_def initsleeplock_def example_ino_def elim!: ok_mono)
  qed
qed

end
