(* ===== verification/Xv6_Bmap.thy ===== *)
theory Xv6_Bmap
  imports Xv6_Dinode
begin

text \<open>
  The blocks of a file. \<open>fblk\<close> is the block address that the inode and its indirect block give for a block of the file,
  \<open>fbyte\<close> the byte of the file at an offset; a block that is not mapped reads as zeros. \<open>file_ok\<close> says that the blocks
  of the file are distinct data blocks in use. \<^verbatim>\<open>bmap\<close> maps a block if need be, and the content of the file stays the same.
\<close>

subsection \<open>Files as bytes\<close>

definition fblk :: "(uint \<Rightarrow> uchar list) \<Rightarrow> inode \<Rightarrow> nat \<Rightarrow> uint" where
  "fblk v p n = (if n < NDIRECT then i_addrs p ! n else if i_addrs p ! NDIRECT = 0 then 0
     else get32 (v (i_addrs p ! NDIRECT)) (4 * (n - NDIRECT)))"

definition fbyte :: "(uint \<Rightarrow> uchar list) \<Rightarrow> inode \<Rightarrow> nat \<Rightarrow> uchar" where
  "fbyte v p j = (let a = fblk v p (j div BSIZE) in if a = 0 then 0 else v a ! (j mod BSIZE))"

definition dblock :: "'z istate_scheme \<Rightarrow> uint \<Rightarrow> bool" where
  "dblock s b \<longleftrightarrow> b < sb_size (sb s) \<and> used s b \<and> b \<notin> meta s \<and> length (view s b) = BSIZE"

definition owned :: "'z istate_scheme \<Rightarrow> inode \<Rightarrow> uint \<Rightarrow> bool" where
  "owned s p b \<longleftrightarrow> b \<noteq> 0 \<and> (b = i_addrs p ! NDIRECT \<or> (\<exists>n < MAXFILE. b = fblk (view s) p n))"

definition file_ok :: "'z istate_scheme \<Rightarrow> inode \<Rightarrow> bool" where
  "file_ok s p \<longleftrightarrow> i_dev p = 1 \<and> i_inum p < sb_ninodes (sb s) \<and> length (i_addrs p) = NDIRECT + 1 \<and> (\<forall>b. owned s p b \<longrightarrow> dblock s b) \<and>
     (\<forall>n < MAXFILE. fblk (view s) p n \<noteq> 0 \<longrightarrow> fblk (view s) p n \<noteq> i_addrs p ! NDIRECT \<and>
        (\<forall>m < MAXFILE. fblk (view s) p m = fblk (view s) p n \<longrightarrow> m = n))"

lemma file_okD:
  assumes "file_ok s p"
  shows "i_dev p = 1" "i_inum p < sb_ninodes (sb s)" "length (i_addrs p) = NDIRECT + 1"
    "i_addrs p ! NDIRECT \<noteq> 0 \<Longrightarrow> dblock s (i_addrs p ! NDIRECT)" "n < MAXFILE \<Longrightarrow> fblk (view s) p n \<noteq> 0 \<Longrightarrow> dblock s (fblk (view s) p n)"
    "n < MAXFILE \<Longrightarrow> fblk (view s) p n \<noteq> 0 \<Longrightarrow> fblk (view s) p n \<noteq> i_addrs p ! NDIRECT"
    "n < MAXFILE \<Longrightarrow> m < MAXFILE \<Longrightarrow> fblk (view s) p n \<noteq> 0 \<Longrightarrow> fblk (view s) p m = fblk (view s) p n \<Longrightarrow> m = n"
  using assms unfolding file_ok_def owned_def by auto

lemma MAXFILE_indirect: "n < MAXFILE \<Longrightarrow> \<not> n < NDIRECT \<Longrightarrow> 4 * (n - NDIRECT) + 4 \<le> BSIZE"
  by (simp add: MAXFILE_def NINDIRECT_def NDIRECT_def BSIZE_def)

subsection \<open>One block more\<close>

text \<open>
  From \<open>s\<close> to \<open>t\<close> the block \<open>b\<close>, which was free, is allocated and cleared; of the other data blocks only \<open>x\<close> may change.
\<close>

definition got_block :: "uint \<Rightarrow> uint \<Rightarrow> 'z istate_scheme \<Rightarrow> 'z istate_scheme \<Rightarrow> bool" where
  "got_block b x s t \<longleftrightarrow> b < sb_size (sb s) \<and> \<not> used s b \<and> b \<notin> meta s \<and> sb t = sb s \<and> meta t = meta s \<and> view t b = replicate BSIZE 0 \<and>
     (\<forall>c < sb_size (sb s). used t c \<longleftrightarrow> c = b \<or> used s c) \<and>
     (\<forall>c < sb_size (sb s). used s c \<and> c \<notin> meta s \<and> c \<noteq> x \<longrightarrow> view t c = view s c) \<and> length (view t x) = length (view s x)"

lemma got_block_dblock:
  assumes "got_block b x s t" and "dblock s c"
  shows "dblock t c" "c \<noteq> b" "c \<noteq> x \<Longrightarrow> view t c = view s c"
proof -
  show "c \<noteq> b" "c \<noteq> x \<Longrightarrow> view t c = view s c" using assms by (auto simp: got_block_def dblock_def)
  then show "dblock t c" using assms by (cases "c = x") (auto simp: got_block_def dblock_def)
qed

lemma got_block_new: "got_block b x s t \<Longrightarrow> dblock t b"
  by (auto simp: got_block_def dblock_def)

lemma got_block_0: "got_block b x s t \<Longrightarrow> b \<noteq> 0"
  by (auto simp: got_block_def meta_def)

text \<open>How the map of a file that gains block \<open>b\<close> may change: \<open>b\<close> becomes the block \<open>n\<close>, or the indirect block.\<close>

definition grown :: "uint \<Rightarrow> nat option \<Rightarrow> 'z istate_scheme \<Rightarrow> inode \<Rightarrow> 'z istate_scheme \<Rightarrow> inode \<Rightarrow> bool" where
  "grown b k s p t q \<longleftrightarrow> i_dev q = i_dev p \<and> i_inum q = i_inum p \<and> length (i_addrs q) = length (i_addrs p) \<and>
     (\<forall>m < MAXFILE. fblk (view t) q m = (if k = Some m then b else fblk (view s) p m)) \<and>
     (case k of None \<Rightarrow> i_addrs p ! NDIRECT = 0 \<and> i_addrs q ! NDIRECT = b
      | Some n \<Rightarrow> i_addrs q ! NDIRECT = i_addrs p ! NDIRECT \<and> n < MAXFILE \<and> fblk (view s) p n = 0)"

lemma grown_ok:
  assumes ok: "file_ok s p" and g: "got_block b x s t" and gr: "grown b k s p t q"
  shows "file_ok t q" and "owned t q c \<Longrightarrow> owned s p c \<or> c = b"
proof -
  note F = file_okD[OF ok] and B = got_block_0[OF g] and D = got_block_dblock[OF g]
  have ow: "owned s p c \<or> c = b" if "owned t q c" for c
    using that gr by (auto simp: owned_def grown_def split: option.splits if_splits)
  then show "owned t q c \<Longrightarrow> owned s p c \<or> c = b" .
  have db: "dblock t c" if "owned t q c" for c
    using ow[OF that] D(1) got_block_new[OF g] ok by (auto simp: file_ok_def)
  have nb: "fblk (view s) p m \<noteq> b" if "m < MAXFILE" for m using F(5)[OF that] D(2) B by (cases "fblk (view s) p m = 0") auto
  have ni: "i_addrs p ! NDIRECT \<noteq> b" using F(4) D(2) B by (cases "i_addrs p ! NDIRECT = 0") auto
  have "fblk (view t) q n \<noteq> i_addrs q ! NDIRECT \<and> (\<forall>m < MAXFILE. fblk (view t) q m = fblk (view t) q n \<longrightarrow> m = n)"
    if n: "n < MAXFILE" "fblk (view t) q n \<noteq> 0" for n
  proof -
    have E: "fblk (view t) q m = (if k = Some m then b else fblk (view s) p m)" if "m < MAXFILE" for m using gr that by (simp add: grown_def)
    have I: "i_addrs q ! NDIRECT = (if k = None then b else i_addrs p ! NDIRECT)" using gr by (auto simp: grown_def split: option.splits)
    show ?thesis
    proof (cases "k = Some n")
      case True
      then show ?thesis using E n(1) I ni nb by auto
    next
      case False
      then have e: "fblk (view t) q n = fblk (view s) p n" using E n(1) by simp
      have "m = n" if m: "m < MAXFILE" "fblk (view t) q m = fblk (view s) p n" for m
        using E[OF m(1)] F(7)[OF n(1) m(1)] nb[OF n(1)] m(2) n(2) e by (auto split: if_splits)
      then show ?thesis using e I F(6)[OF n(1)] nb[OF n(1)] n(2) by auto
    qed
  qed
  then show "file_ok t q" using db gr F(1-3) g by (auto simp: file_ok_def grown_def got_block_def)
qed

lemma grown_bytes:
  assumes ok: "file_ok s p" and g: "got_block b x s t" and gr: "grown b k s p t q" and x: "x = i_addrs p ! NDIRECT" and j: "j < MAXFILE * BSIZE"
  shows "fbyte (view t) q j = fbyte (view s) p j"
proof -
  let ?n = "j div BSIZE"
  have n: "?n < MAXFILE" using j by (simp add: div_less_iff_less_mult BSIZE_def)
  have r: "j mod BSIZE < BSIZE" by (simp add: BSIZE_def)
  have v: "view t b = replicate BSIZE 0" using g by (simp add: got_block_def)
  have e: "fblk (view t) q ?n = (if k = Some ?n then b else fblk (view s) p ?n)" using gr n by (simp add: grown_def)
  show ?thesis
  proof (cases "k = Some ?n")
    case True
    then have "fblk (view s) p ?n = 0" using gr by (auto simp: grown_def)
    then show ?thesis using True e got_block_0[OF g] r v by (simp add: fbyte_def)
  next
    case False
    then have e': "fblk (view t) q ?n = fblk (view s) p ?n" using e by simp
    show ?thesis
    proof (cases "fblk (view s) p ?n = 0")
      case ne: False
      then have "view t (fblk (view s) p ?n) = view s (fblk (view s) p ?n)"
        using got_block_dblock(3)[OF g file_okD(5)[OF ok n ne]] file_okD(6)[OF ok n ne] x by simp
      then show ?thesis by (simp add: fbyte_def e' Let_def)
    qed (simp add: fbyte_def e')
  qed
qed

text \<open>The three places where an address is stored.\<close>

lemma grown_direct:
  assumes ok: "file_ok s p" and g: "got_block b (i_addrs p ! NDIRECT) s t" and n: "n < NDIRECT" "i_addrs p ! n = 0"
    and v: "i_addrs p ! NDIRECT \<noteq> 0 \<Longrightarrow> view t (i_addrs p ! NDIRECT) = view s (i_addrs p ! NDIRECT)"
  shows "grown b (Some n) s p t (p\<lparr>i_addrs := (i_addrs p)[n := b]\<rparr>)"
  using n v file_okD(3)[OF ok] by (auto simp: grown_def fblk_def NDIRECT_def MAXFILE_def)

lemma grown_table:
  assumes ok: "file_ok s p" and g: "got_block b x s t" and z: "i_addrs p ! NDIRECT = 0"
  shows "grown b None s p t (p\<lparr>i_addrs := (i_addrs p)[NDIRECT := b]\<rparr>)"
proof -
  have "get32 (view t b) (4 * (m - NDIRECT)) = 0" if "m < MAXFILE" "\<not> m < NDIRECT" for m
    using MAXFILE_indirect[OF that] g by (simp add: got_block_def get32_def word_of_bytes_def)
  then show ?thesis using z file_okD(3)[OF ok] by (auto simp: grown_def fblk_def)
qed

lemma grown_indirect:
  assumes ok: "file_ok s p" and n: "n < MAXFILE" "\<not> n < NDIRECT" "fblk (view s) p n = 0" and x: "x = i_addrs p ! NDIRECT" "x \<noteq> 0"
    and v: "view t x = put32 (view s x) (4 * (n - NDIRECT)) b"
  shows "grown b (Some n) s p t p"
proof -
  have L: "length (view s x) = BSIZE" using file_okD(4)[OF ok] x by (simp add: dblock_def)
  have "fblk (view t) p m = (if n = m then b else fblk (view s) p m)" if m: "m < MAXFILE" for m
  proof (cases "m < NDIRECT")
    case False
    have "n \<noteq> m \<Longrightarrow> 4 * (m - NDIRECT) + 4 \<le> 4 * (n - NDIRECT) \<or> 4 * (n - NDIRECT) + 4 \<le> 4 * (m - NDIRECT)" using False n(2) by linarith
    then show ?thesis using False n(2) x v L MAXFILE_indirect[OF m False] MAXFILE_indirect[OF n(1,2)]
      by (auto simp: fblk_def get32_put32 get32_put32_ne)
  qed (use n(2) in \<open>simp add: fblk_def\<close>)
  then show ?thesis using n by (simp add: grown_def)
qed

subsection \<open>Allocation for a file\<close>

definition nfree :: "'z istate_scheme \<Rightarrow> nat" where
  "nfree s = card {b. b < sb_size (sb s) \<and> \<not> used s b}"

lemma got_block_nfree:
  assumes "got_block b x s t"
  shows "nfree s = nfree t + 1"
proof -
  let ?F = "{c. c < sb_size (sb s) \<and> \<not> used s c}"
  have b: "b \<in> ?F" using assms by (simp add: got_block_def)
  have "{c. c < sb_size (sb t) \<and> \<not> used t c} = ?F - {b}" using assms by (auto simp: got_block_def)
  then have "nfree t = card (?F - {b})" by (simp add: nfree_def)
  also have "\<dots> = card ?F - 1" by (rule card_Diff_singleton[OF b])
  finally show ?thesis using b card_gt_0_iff[of ?F] by (auto simp: nfree_def)
qed

lemma nfree_next: "0 < nfree s \<Longrightarrow> next_free s 0 \<noteq> None"
proof
  assume n: "0 < nfree s" and "next_free s 0 = None"
  then have h: "used s (of_nat c)" if "c < unat (sb_size (sb s))" for c using that by (auto simp: next_free_def find_None_iff)
  obtain b where b: "b < sb_size (sb s)" "\<not> used s b" using n by (auto simp: nfree_def card_gt_0_iff)
  then show False using h[of "unat b"] by (simp add: word_less_nat_alt)
qed

lemma balloc_got:
  fixes s :: "'z istate_scheme"
  assumes f: "fs_tx p pid H (k + 2) s" and n: "0 < nfree s" and x: "x = 0 \<or> dblock s x"
  shows "\<exists>b t. balloc 1 s = Ret b t \<and> tx_step p pid H {BBLOCK b (sb s), b} 2 s t \<and> fs_tx p pid H k t \<and> got_block b x s t \<and>
    (dblock s x \<longrightarrow> view t x = view s x) \<and> (\<forall>c \<in> iblocks s. view t c = view s c)"
proof -
  have f2: "fs_tx p pid H 2 s" using f by (rule fs_tx_less) simp
  obtain b where b: "next_free s 0 = Some b" using nfree_next[OF n] by auto
  let ?b = "of_nat b :: uint"
  note B = next_free_Some(1,2)[OF b]
  obtain t where t: "balloc 1 s = Ret ?b t" "taken p pid H ?b s t" using balloc_run[OF f2] b by auto
  note A = taken_after[OF f B t(2)] and O = fs_txD(2)[OF f]
  note N = fs_ok_free[OF O B]
  have st: "tx_step p pid H {BBLOCK ?b (sb s), ?b} 2 s t" and z: "view t ?b = replicate BSIZE 0"
    and m: "view t (BBLOCK ?b (sb s)) = set_bit_at (view s (BBLOCK ?b (sb s))) (unat ?b mod BPB)"
    using t(2) by (simp_all add: taken_def)
  have mt: "meta t = meta s" using A(4) tx_stepD(9)[OF st] by (simp add: meta_def bitmap_def iblocks_def)
  have xb: "x \<noteq> ?b" using x N(5) B by (auto simp: dblock_def)
  have "length (view t x) = length (view s x)"
    using tx_stepD(3)[OF st, of x] xb m by (cases "x = BBLOCK ?b (sb s)") auto
  moreover have "view t c = view s c" if "used s c" "c \<notin> meta s" for c
    by (rule A(3)) (use that B in \<open>auto simp: meta_def\<close>)
  moreover have "?b \<notin> meta s" using N by (simp add: meta_def)
  ultimately have "got_block ?b x s t" using B mt z A(1,4) by (simp add: got_block_def)
  moreover have "dblock s x \<longrightarrow> view t x = view s x" using A(3)[of x] xb by (auto simp: dblock_def meta_def)
  moreover have "view t c = view s c" if "c \<in> iblocks s" for c
    by (rule A(3)) (use that N(4) O in \<open>auto simp: fs_ok_def\<close>)
  ultimately show ?thesis using t(1) st A(2) by blast
qed

subsection \<open>Steps of an operation on a file\<close>

text \<open>
  What holds after a part of an operation on file \<open>ip\<close> that adds at most \<open>k\<close> blocks to the log and allocates at most \<open>f\<close>:
  only block addresses in the inode change; blocks in use stay so; data blocks of other files and the inode blocks
  do not change.
\<close>

definition fstep :: "nat \<Rightarrow> int \<Rightarrow> nat \<Rightarrow> nat \<Rightarrow> nat \<Rightarrow> 'z istate_scheme \<Rightarrow> 'z istate_scheme \<Rightarrow> bool" where
  "fstep p pid ip k f s t \<longleftrightarrow> tx p pid {} t \<and> fs_ok t \<and> lg_n t \<le> lg_n s + int k \<and> nfree s \<le> nfree t + f \<and>
     tx_frame (s\<lparr>inodes := inodes t\<rparr>) t \<and> (\<exists>as. inodes t = (inodes s)[ip := (inode_at s ip)\<lparr>i_addrs := as\<rparr>]) \<and>
     file_ok t (inode_at t ip) \<and> (\<forall>c < sb_size (sb s). used s c \<longrightarrow> used t c) \<and>
     (\<forall>c. owned t (inode_at t ip) c \<longrightarrow> owned s (inode_at s ip) c \<or> \<not> used s c) \<and>
     (\<forall>c < sb_size (sb s). used s c \<and> c \<notin> meta s \<and> \<not> owned s (inode_at s ip) c \<longrightarrow> view t c = view s c) \<and>
     (\<forall>c \<in> iblocks s. view t c = view s c)"

lemma fstepD:
  assumes "fstep p pid ip k f s t"
  shows "fs_tx p pid {} (k + j) s \<Longrightarrow> fs_tx p pid {} j t" "file_ok t (inode_at t ip)" "nfree s \<le> nfree t + f" "sb t = sb s" "disk t = disk s"
    "disksize t = disksize s" "lg_start t = lg_start s" "meta t = meta s" "length (inodes t) = length (inodes s)" "iblocks t = iblocks s"
proof -
  note F = assms[unfolded fstep_def]
  show "fs_tx p pid {} (k + j) s \<Longrightarrow> fs_tx p pid {} j t" using F by (auto simp: fs_tx_def)
  have fr: "tx_frame (s\<lparr>inodes := inodes t\<rparr>) t" using F by blast
  show "file_ok t (inode_at t ip)" "nfree s \<le> nfree t + f" "length (inodes t) = length (inodes s)" using F by auto
  show sb: "sb t = sb s" and ls: "lg_start t = lg_start s" "disk t = disk s" "disksize t = disksize s"
    using tx_frame_fs(1)[OF fr] tx_frameD[OF fr] by simp_all
  show "meta t = meta s" "iblocks t = iblocks s" by (simp_all add: meta_def bitmap_def iblocks_def sb ls)
qed

lemma fstep_trans:
  assumes st: "fstep p pid ip k f s t" and tu: "fstep p pid ip k' f' t u" and ip: "ip < length (inodes s)"
  shows "fstep p pid ip (k + k') (f + f') s u"
proof -
  note S = st[unfolded fstep_def] and U = tu[unfolded fstep_def]
  note sb = fstepD(4)[OF st] and mt = fstepD(8)[OF st] and ib = fstepD(10)[OF st]
  obtain as where as: "inodes t = (inodes s)[ip := (inode_at s ip)\<lparr>i_addrs := as\<rparr>]" using S by blast
  obtain bs where bs: "inodes u = (inodes t)[ip := (inode_at t ip)\<lparr>i_addrs := bs\<rparr>]" using U by blast
  have iu: "inodes u = (inodes s)[ip := (inode_at s ip)\<lparr>i_addrs := bs\<rparr>]" using as bs ip by simp
  have "tx_frame (s\<lparr>inodes := inodes t\<rparr>\<lparr>inodes := inodes u\<rparr>) (t\<lparr>inodes := inodes u\<rparr>)" using S by (intro tx_frame_inodes) blast
  then have fr: "tx_frame (s\<lparr>inodes := inodes u\<rparr>) u" using U tx_frame_trans by fastforce
  have dis: "owned s (inode_at s ip) c \<or> \<not> used s c" if "owned t (inode_at t ip) c \<or> \<not> used t c" "c < sb_size (sb s)" for c using S that by blast
  have ow: "owned s (inode_at s ip) c \<or> \<not> used s c" if "owned u (inode_at u ip) c" for c
    using that U dis[of c] fstepD(2)[OF tu] fstepD(4)[OF tu] sb by (auto simp: file_ok_def dblock_def)
  have vw: "view u c = view s c" if "c < sb_size (sb s)" "used s c" "c \<notin> meta s" "\<not> owned s (inode_at s ip) c" for c
  proof -
    have "used t c" "\<not> owned t (inode_at t ip) c" "view t c = view s c" using S that by blast+
    then show ?thesis using U that(1,3) sb mt by auto
  qed
  show ?thesis using S U iu fr ow vw unfolding fstep_def by (auto simp: sb ib)
qed

lemma fstep_refl:
  assumes "fs_tx p pid {} k s" and "file_ok s (inode_at s ip)"
  shows "fstep p pid ip 0 0 s s"
proof -
  have "\<exists>as. inodes s = (inodes s)[ip := (inode_at s ip)\<lparr>i_addrs := as\<rparr>]"
    by (rule exI[of _ "i_addrs (inode_at s ip)"]) simp
  then show ?thesis using assms unfolding fstep_def by (auto simp: fs_tx_def)
qed

lemma fstep_mono: "fstep p pid ip k f s t \<Longrightarrow> k \<le> k' \<Longrightarrow> f \<le> f' \<Longrightarrow> fstep p pid ip k' f' s t"
  unfolding fstep_def by auto

lemma fstep_same:
  fixes s t :: "'z istate_scheme"
  assumes f: "fs_tx p pid {} k s" and ok: "file_ok s (inode_at s ip)" and st: "tx_step p pid {} {} 0 s t"
  shows "fstep p pid ip 0 0 s t" "view t = view s" "inodes t = inodes s"
proof -
  note S = fs_tx_same[OF f st] and T = tx_stepD[OF st]
  show it: "inodes t = inodes s" by (rule tx_frame_fs(2)[OF T(2)])
  have e: "\<exists>as. inodes s = (inodes s)[ip := (inode_at s ip)\<lparr>i_addrs := as\<rparr>]"
    by (rule exI[of _ "i_addrs (inode_at s ip)"]) simp
  have m: "meta t = meta s" by (simp add: meta_def bitmap_def iblocks_def S(2) T(9))
  have o: "owned t q = owned s q" for q by (simp add: owned_def[abs_def] S(4))
  have "nfree t = nfree s" by (simp add: nfree_def S(2,3))
  moreover have "dblock t = dblock s" by (simp add: dblock_def[abs_def] S(2-4) m)
  moreover have "tx_frame (s\<lparr>inodes := inodes s\<rparr>) t" using T(2) by simp
  ultimately show "fstep p pid ip 0 0 s t"
    using ok e T(1,4) fs_txD(2)[OF S(1)] unfolding fstep_def file_ok_def it o by (simp add: S(2-4))
  show "view t = view s" by (rule S(4))
qed

lemma fstep_grown:
  fixes s t :: "'z istate_scheme"
  assumes ok: "file_ok s (inode_at s ip)" and ip: "ip < length (inodes s)" and g: "got_block b (i_addrs (inode_at s ip) ! NDIRECT) s t"
    and gr: "grown b n s (inode_at s ip) t q" and q: "q = (inode_at s ip)\<lparr>i_addrs := as\<rparr>" "inodes t = (inodes s)[ip := q]"
    and t: "tx p pid {} t" "fs_ok t" "tx_frame (s\<lparr>inodes := inodes t\<rparr>) t" "lg_n t \<le> lg_n s + int k" "\<forall>c \<in> iblocks s. view t c = view s c"
  shows "fstep p pid ip k 1 s t"
proof -
  have at: "inode_at t ip = q" using q(2) ip by simp
  have "owned s (inode_at s ip) c \<or> \<not> used s c" if "owned t q c" for c
    using grown_ok(2)[OF ok g gr that] g by (auto simp: got_block_def)
  moreover have "view t c = view s c" if "c < sb_size (sb s)" "used s c" "c \<notin> meta s" "\<not> owned s (inode_at s ip) c" for c
    using g that by (auto simp: got_block_def owned_def meta_def)
  ultimately show ?thesis using t q(1,2) g grown_ok(1)[OF ok g gr] got_block_nfree[OF g] unfolding fstep_def at
    by (auto simp: got_block_def)
qed

text \<open>Block \<open>n\<close> of the file is mapped to \<open>a\<close>; the rest of the map and the content are as before.\<close>

definition mapped :: "nat \<Rightarrow> nat \<Rightarrow> uint \<Rightarrow> 'z istate_scheme \<Rightarrow> 'z istate_scheme \<Rightarrow> bool" where
  "mapped ip n a s t \<longleftrightarrow> a \<noteq> 0 \<and> fblk (view t) (inode_at t ip) n = a \<and>
     (\<forall>m < MAXFILE. m \<noteq> n \<longrightarrow> fblk (view t) (inode_at t ip) m = fblk (view s) (inode_at s ip) m) \<and>
     (\<forall>j < MAXFILE * BSIZE. fbyte (view t) (inode_at t ip) j = fbyte (view s) (inode_at s ip) j) \<and>
     (fblk (view s) (inode_at s ip) n \<noteq> 0 \<longrightarrow> inodes t = inodes s \<and> a = fblk (view s) (inode_at s ip) n)"

lemma mapped_grown:
  assumes ok: "file_ok s (inode_at s ip)" and ip: "ip < length (inodes s)" and g: "got_block b (i_addrs (inode_at s ip) ! NDIRECT) s t"
    and gr: "grown b (Some n) s (inode_at s ip) t q" and q: "inodes t = (inodes s)[ip := q]"
  shows "mapped ip n b s t"
proof -
  have at: "inode_at t ip = q" using q ip by simp
  show ?thesis using gr grown_bytes[OF ok g gr refl] got_block_0[OF g] by (auto simp: mapped_def at grown_def)
qed

lemma bmap_direct:
  fixes s :: "'z istate_scheme"
  assumes f: "fs_tx p pid {} 2 s" and ok: "file_ok s (inode_at s ip)" and ip: "ip < length (inodes s)" and n: "n < NDIRECT" and fr: "0 < nfree s"
  shows "\<exists>a t. bmap ip (of_nat n) s = Ret a t \<and> fstep p pid ip 2 1 s t \<and> mapped ip n a s t"
proof -
  let ?p = "inode_at s ip"
  have u: "unat (of_nat n :: uint) = n" by (rule unat_of_nat_small) (use n in \<open>simp add: NDIRECT_def\<close>)
  show ?thesis
  proof (cases "i_addrs ?p ! n = 0")
    case True
    have x: "i_addrs ?p ! NDIRECT = 0 \<or> dblock s (i_addrs ?p ! NDIRECT)" using file_okD(4)[OF ok] by blast
    have f': "fs_tx p pid {} (0 + 2) s" using f by (simp only: add_0)
    obtain b t where t: "balloc 1 s = Ret b t" "tx_step p pid {} {BBLOCK b (sb s), b} 2 s t" "fs_tx p pid {} 0 t"
      "got_block b (i_addrs ?p ! NDIRECT) s t" "dblock s (i_addrs ?p ! NDIRECT) \<longrightarrow> view t (i_addrs ?p ! NDIRECT) = view s (i_addrs ?p ! NDIRECT)"
      "\<forall>c \<in> iblocks s. view t c = view s c"
      using balloc_got[OF f' fr x] by blast
    have it: "inodes t = inodes s" by (rule tx_frame_fs(2)[OF tx_stepD(2)[OF t(2)]])
    let ?q = "?p\<lparr>i_addrs := (i_addrs ?p)[n := b]\<rparr>"
    let ?t = "t\<lparr>inodes := (inodes s)[ip := ?q]\<rparr>"
    have g: "got_block b (i_addrs ?p ! NDIRECT) s ?t" using t(4) by (simp add: got_block_def)
    have gr: "grown b (Some n) s ?p ?t ?q" by (rule grown_direct[OF ok g n True]) (use t(5) x in auto)
    have "tx_frame (s\<lparr>inodes := inodes ?t\<rparr>) ?t" using tx_frame_inodes[OF tx_stepD(2)[OF t(2)]] by simp
    then have "fstep p pid ip 2 1 s ?t"
      using fs_txD(1,2)[OF t(3)] tx_stepD(4)[OF t(2)] t(6) by (intro fstep_grown[OF ok ip g gr refl]) simp_all
    moreover have "mapped ip n b s ?t" by (rule mapped_grown[OF ok ip g gr]) simp
    moreover have "bmap ip (of_nat n) s = Ret b ?t"
      using True n t(1) file_okD(1)[OF ok] it by (simp add: bmap_def u kbind_def upd_inode_def)
    ultimately show ?thesis by blast
  next
    case False
    have "mapped ip n (i_addrs ?p ! n) s s" using False n by (simp add: mapped_def fblk_def)
    moreover have "bmap ip (of_nat n) s = Ret (i_addrs ?p ! n) s" using False n by (simp add: bmap_def u)
    ultimately show ?thesis using fstep_mono[OF fstep_refl[OF f ok], of 2 1] by auto
  qed
qed

text \<open>The indirect block is mapped first.\<close>

definition bmap_table :: "nat \<Rightarrow> (uint, 'z istate_scheme) kernel" where
  "bmap_table ip = kbind (kget (\<lambda>s. inode_at s ip)) (\<lambda>p.
     if i_addrs p ! NDIRECT = 0
     then kbind (balloc (i_dev p)) (\<lambda>addr.
          kbind (kmod (upd_inode ip (\<lambda>p. p\<lparr>i_addrs := (i_addrs p)[NDIRECT := addr]\<rparr>))) (\<lambda>_. kret addr))
     else kret (i_addrs p ! NDIRECT))"

definition bmap_entry :: "uint \<Rightarrow> nat \<Rightarrow> uint \<Rightarrow> (uint, 'z istate_scheme) kernel" where
  "bmap_entry dev k ind =
     kbind (bread dev ind) (\<lambda>bp.
     kbind (buf_data bp) (\<lambda>d.
     kbind (if get32 d k = 0
            then kbind (balloc dev) (\<lambda>addr.
                 kbind (set_data bp (\<lambda>d. put32 d k addr)) (\<lambda>_.
                 kbind (log_write bp) (\<lambda>_. kret addr)))
            else kret (get32 d k)) (\<lambda>addr.
     kbind (brelse bp) (\<lambda>_.
     kret addr))))"

lemma bmap_split:
  "\<not> unat bn < NDIRECT \<Longrightarrow> unat bn < MAXFILE \<Longrightarrow>
    bmap ip bn s = kbind (bmap_table ip) (bmap_entry (i_dev (inode_at s ip)) (4 * (unat bn - NDIRECT))) s"
proof -
  assume h: "\<not> unat bn < NDIRECT" "unat bn < MAXFILE"
  then have "unat bn - NDIRECT < NINDIRECT" by (simp add: MAXFILE_def)
  then show ?thesis using h(1)
    by (simp add: bmap_def bmap_table_def bmap_entry_def[abs_def] Let_def kbind_assoc)
qed

definition kept :: "nat \<Rightarrow> 'z istate_scheme \<Rightarrow> 'z istate_scheme \<Rightarrow> bool" where
  "kept ip s t \<longleftrightarrow> (\<forall>m < MAXFILE. fblk (view t) (inode_at t ip) m = fblk (view s) (inode_at s ip) m) \<and>
     (\<forall>j < MAXFILE * BSIZE. fbyte (view t) (inode_at t ip) j = fbyte (view s) (inode_at s ip) j)"

lemma bmap_table_run:
  fixes s :: "'z istate_scheme"
  assumes f: "fs_tx p pid {} 2 s" and ok: "file_ok s (inode_at s ip)" and ip: "ip < length (inodes s)" and fr: "0 < nfree s"
  shows "\<exists>t. bmap_table ip s = Ret (i_addrs (inode_at t ip) ! NDIRECT) t \<and> fstep p pid ip 2 1 s t \<and> kept ip s t \<and>
    i_addrs (inode_at t ip) ! NDIRECT \<noteq> 0 \<and> (i_addrs (inode_at s ip) ! NDIRECT \<noteq> 0 \<longrightarrow> t = s)"
proof (cases "i_addrs (inode_at s ip) ! NDIRECT = 0")
  case True
  let ?p = "inode_at s ip"
  have f': "fs_tx p pid {} (0 + 2) s" using f by (simp only: add_0)
  obtain b t where t: "balloc 1 s = Ret b t" "tx_step p pid {} {BBLOCK b (sb s), b} 2 s t" "fs_tx p pid {} 0 t"
    "got_block b 0 s t" "\<forall>c \<in> iblocks s. view t c = view s c"
    using balloc_got[OF f' fr, of 0] by blast
  have it: "inodes t = inodes s" by (rule tx_frame_fs(2)[OF tx_stepD(2)[OF t(2)]])
  let ?q = "?p\<lparr>i_addrs := (i_addrs ?p)[NDIRECT := b]\<rparr>"
  let ?t = "t\<lparr>inodes := (inodes s)[ip := ?q]\<rparr>"
  have g: "got_block b (i_addrs ?p ! NDIRECT) s ?t" using t(4) True by (simp add: got_block_def)
  have gr: "grown b None s ?p ?t ?q" by (rule grown_table[OF ok g True])
  have "tx_frame (s\<lparr>inodes := inodes ?t\<rparr>) ?t" using tx_frame_inodes[OF tx_stepD(2)[OF t(2)]] by simp
  then have "fstep p pid ip 2 1 s ?t"
    using fs_txD(1,2)[OF t(3)] tx_stepD(4)[OF t(2)] t(5) by (intro fstep_grown[OF ok ip g gr refl]) simp_all
  moreover have "kept ip s ?t" using gr grown_bytes[OF ok g gr refl] ip by (simp add: kept_def grown_def)
  moreover have "bmap_table ip s = Ret b ?t"
    using True t(1) file_okD(1)[OF ok] it by (simp add: bmap_table_def kbind_def upd_inode_def)
  moreover have "i_addrs (inode_at ?t ip) ! NDIRECT = b" using ip file_okD(3)[OF ok] by simp
  ultimately show ?thesis using got_block_0[OF g] True by (intro exI[of _ ?t]) simp
next
  case False
  then show ?thesis using fstep_mono[OF fstep_refl[OF f ok], of 2 1] by (intro exI[of _ s]) (simp add: bmap_table_def kept_def)
qed

lemma got_block_then:
  fixes s :: "'z istate_scheme"
  assumes g: "got_block b x s t" and st: "tx_step p pid H {x} k t u" and x: "dblock s x" and O: "fs_ok t" and l: "length (view u x) = BSIZE"
  shows "got_block b x s u" "fs_ok u"
proof -
  note T = tx_stepD[OF st] and D = got_block_dblock(1,2)[OF g x]
  have xm: "x \<notin> bitmap t" using D(1) by (simp add: dblock_def meta_def)
  note U = fs_ok_outside[OF O st xm l]
  have sb: "sb u = sb t" by (rule tx_frame_fs(1)[OF T(2)])
  then have m: "meta u = meta t" by (simp add: bitmap_def iblocks_def meta_def T(9))
  show "fs_ok u" by (rule U(1))
  show "got_block b x s u" using g U(2) T(3) sb m D(2) x l unfolding got_block_def by (auto simp: dblock_def)
qed

text \<open>Holding the buffer of a data block.\<close>

lemma fs_tx_hold:
  fixes s t :: "'z istate_scheme"
  assumes f: "fs_tx p pid {} k s" and x: "dblock s x"
    and t: "tx p pid (insert i {}) t" "holds t x i" "tx_frame s t" "view t = view s" "lg_n t = lg_n s"
  shows "fs_tx p pid {i} k t" and "sb t = sb s" "used t = used s" "meta t = meta s" "nfree t = nfree s" "dblock t = dblock s"
    "iblocks t = iblocks s" "got_block b y t u = got_block b y s u"
proof -
  show sb: "sb t = sb s" by (rule tx_frame_fs(1)[OF t(3)])
  show us: "used t = used s" by (simp add: used_def[abs_def] sb t(4))
  have bm: "bitmap t = bitmap s" by (simp add: bitmap_def sb)
  show ib: "iblocks t = iblocks s" by (simp add: iblocks_def sb)
  show mt: "meta t = meta s" by (simp add: meta_def bm ib tx_frameD(4)[OF t(3)])
  show "nfree t = nfree s" by (simp add: nfree_def us sb)
  show "dblock t = dblock s" by (simp add: dblock_def[abs_def] us sb mt t(4))
  show "got_block b y t u = got_block b y s u" by (simp add: got_block_def us sb mt t(4))
  have "fs_ok t" using fs_txD(2)[OF f] unfolding fs_ok_def by (simp add: sb us bm ib mt t(4) tx_frameD(2,4)[OF t(3)])
  moreover have "cached_at t c i \<Longrightarrow> c = x" for c using t(2) by (auto simp: holds_def cached_at_def)
  ultimately show "fs_tx p pid {i} k t" using f x t(1,5) unfolding fs_tx_def by (auto simp: sb us bm dblock_def meta_def)
qed

lemma bmap_entry_new:
  fixes s t :: "'z istate_scheme"
  assumes f: "fs_tx p pid {} 3 s" and ok: "file_ok s (inode_at s ip)" and ip: "ip < length (inodes s)" and fr: "0 < nfree s"
    and n: "n < MAXFILE" "\<not> n < NDIRECT" "fblk (view s) (inode_at s ip) n = 0" and x: "x = i_addrs (inode_at s ip) ! NDIRECT" "x \<noteq> 0"
    and t: "tx p pid (insert i {}) t" "holds t x i" "tx_frame s t" "view t = view s" "lg_n t = lg_n s"
  shows "\<exists>b u v. balloc 1 t = Ret b u \<and>
    kbind (set_data i (\<lambda>d. put32 d (4 * (n - NDIRECT)) b)) (\<lambda>_. kbind (log_write i) (\<lambda>_. brelse i)) u = Ret () v \<and>
    fstep p pid ip 3 1 s v \<and> mapped ip n b s v"
proof -
  let ?p = "inode_at s ip" and ?k = "4 * (n - NDIRECT)"
  have db: "dblock s x" using file_okD(4)[OF ok] x by simp
  have L: "length (view s x) = BSIZE" "?k + 4 \<le> BSIZE" using db MAXFILE_indirect[OF n(1,2)] by (simp_all add: dblock_def)
  note H = fs_tx_hold[OF f db t]
  have f': "fs_tx p pid {i} (1 + 2) t" using H(1) by (rule fs_tx_less) simp
  obtain b u where u: "balloc 1 t = Ret b u" "tx_step p pid {i} {BBLOCK b (sb t), b} 2 t u" "fs_tx p pid {i} 1 u" "got_block b x t u"
    "view u x = view t x" "\<forall>c \<in> iblocks t. view u c = view t c"
    using balloc_got[OF f', of x] fr db H(5,6) by auto
  have g: "got_block b x s u" using u(4) H(8) by simp
  have "x \<notin> {BBLOCK b (sb t), b}"
    using got_block_dblock(2)[OF g db] in_bitmap[of b t] u(4) db H(4) by (auto simp: got_block_def dblock_def meta_def)
  then have hu: "holds u x i" by (intro tx_step_holds[OF u(2) _ t(2)]) simp_all
  have lu: "lg_n u < int LOGSIZE - 1" "x \<notin> log_area (lg_start u)"
    using fs_txD(3)[OF u(3)] db tx_frameD(4)[OF t(3)] tx_stepD(9)[OF u(2)] by (simp_all add: dblock_def meta_def)
  have tu: "tx p pid (insert i {}) u" using fs_txD(1)[OF u(3)] by simp
  obtain v where v: "kbind (set_data i (\<lambda>d. put32 d ?k b)) (\<lambda>_. kbind (log_write i) (\<lambda>_. brelse i)) u = Ret () v" "tx_step p pid {} {x} 1 u v"
    "view v x = put32 (view u x) ?k b"
    using write_step[OF tu _ hu tx_frame_refl refl refl _ lu(2,1), of "\<lambda>d. put32 d ?k b"] by auto
  have lv: "length (view v x) = BSIZE" using v(3) u(5) t(4) L by simp
  note G = got_block_then[OF g v(2) db fs_txD(2)[OF u(3)] lv]
  have gr: "grown b (Some n) s ?p v ?p" by (rule grown_indirect[OF ok n x]) (use v(3) u(5) t(4) in simp)
  have tf: "tx_frame s v" using tx_frame_trans[OF t(3) tx_frame_trans[OF tx_stepD(2)[OF u(2)] tx_stepD(2)[OF v(2)]]] .
  have iv: "inodes v = inodes s" by (rule tx_frame_fs(2)[OF tf])
  have "view v c = view s c" if "c \<in> iblocks s" for c
    using tx_stepD(3)[OF v(2), of c] that u(6) H(7) t(4) db by (auto simp: dblock_def meta_def)
  then have "fstep p pid ip 3 1 s v"
    using tx_stepD(1,4)[OF v(2)] tx_stepD(4)[OF u(2)] t(5) G tf iv x(1)
    by (intro fstep_grown[OF ok ip _ gr, of "i_addrs ?p"]) simp_all
  moreover have "mapped ip n b s v" by (rule mapped_grown[OF ok ip _ gr]) (use G(1) x iv in simp_all)
  ultimately show ?thesis using u(1) v(1) by blast
qed

lemma bmap_entry_run:
  fixes s :: "'z istate_scheme"
  assumes f: "fs_tx p pid {} 3 s" and ok: "file_ok s (inode_at s ip)" and ip: "ip < length (inodes s)" and fr: "0 < nfree s"
    and n: "n < MAXFILE" "\<not> n < NDIRECT" and x: "x = i_addrs (inode_at s ip) ! NDIRECT" "x \<noteq> 0"
  shows "\<exists>a t. bmap_entry 1 (4 * (n - NDIRECT)) x s = Ret a t \<and> fstep p pid ip 3 1 s t \<and> mapped ip n a s t"
proof -
  let ?p = "inode_at s ip" and ?k = "4 * (n - NDIRECT)"
  note F = fs_txD[OF f]
  have db: "dblock s x" using file_okD(4)[OF ok] x by simp
  then have xs: "x < disksize s" using F(2) by (auto simp: dblock_def fs_ok_def)
  obtain i t where t: "bread 1 x s = Ret i t" "i \<notin> {}" "tx p pid (insert i {}) t" "holds t x i" "tx_frame s t" "view t = view s"
    "lg_n t = lg_n s" "\<forall>j \<in> {}. buf_at t j = buf_at s j" "b_data (buf_at t i) = view s x"
    using read_step[OF F(1) block_free_any[OF F(1) xs]] by auto
  have e: "fblk (view s) ?p n = get32 (view s x) ?k" using n(2) x by (simp add: fblk_def)
  show ?thesis
  proof (cases "get32 (view s x) ?k = 0")
    case True
    obtain b u v where v: "balloc 1 t = Ret b u"
      "kbind (set_data i (\<lambda>d. put32 d ?k b)) (\<lambda>_. kbind (log_write i) (\<lambda>_. brelse i)) u = Ret () v" "fstep p pid ip 3 1 s v" "mapped ip n b s v"
      using bmap_entry_new[OF f ok ip fr n _ x t(3-7)] e True by auto
    have "bmap_entry 1 ?k x s = Ret b v"
      using v(2) t(1,9) v(1) True by (auto simp: bmap_entry_def buf_data_def kbind_Ret_iff)
    then show ?thesis using v(3,4) by blast
  next
    case False
    obtain u where u: "brelse i t = Ret () u" "tx_step p pid {} {} 0 s u" using release_step[OF t(3,2,4-8)] by blast
    note E = fstep_same[OF f ok u(2)]
    have "mapped ip n (get32 (view s x) ?k) s u" using False e by (simp add: mapped_def E(2,3))
    moreover have "fstep p pid ip 3 1 s u" by (rule fstep_mono[OF E(1)]) simp_all
    moreover have "bmap_entry 1 ?k x s = Ret (get32 (view s x) ?k) u"
      using t(1,9) u(1) False by (simp add: bmap_entry_def kbind_def buf_data_def)
    ultimately show ?thesis by blast
  qed
qed

text \<open>The block map: at most five blocks go to the log and at most two blocks are allocated.\<close>

lemma bmap_run:
  fixes s :: "'z istate_scheme"
  assumes f: "fs_tx p pid {} 5 s" and ok: "file_ok s (inode_at s ip)" and ip: "ip < length (inodes s)" and n: "n < MAXFILE" and fr: "2 \<le> nfree s"
  shows "\<exists>a t. bmap ip (of_nat n) s = Ret a t \<and> fstep p pid ip 5 2 s t \<and> mapped ip n a s t"
proof (cases "n < NDIRECT")
  case True
  have f2: "fs_tx p pid {} 2 s" using f by (rule fs_tx_less) simp
  have "0 < nfree s" using fr by simp
  then obtain a t where "bmap ip (of_nat n) s = Ret a t" "fstep p pid ip 2 1 s t" "mapped ip n a s t"
    using bmap_direct[OF f2 ok ip True] by blast
  then show ?thesis using fstep_mono[of p pid ip 2 1 s t 5 2] by auto
next
  case False
  have u: "unat (of_nat n :: uint) = n" by (rule unat_of_nat_small) (use n in \<open>simp add: MAXFILE_def NDIRECT_def NINDIRECT_def BSIZE_def\<close>)
  have f2: "fs_tx p pid {} 2 s" and f5: "fs_tx p pid {} (2 + 3) s" using f by (auto intro: fs_tx_less)
  obtain t where t: "bmap_table ip s = Ret (i_addrs (inode_at t ip) ! NDIRECT) t" "fstep p pid ip 2 1 s t" "kept ip s t"
    "i_addrs (inode_at t ip) ! NDIRECT \<noteq> 0" "i_addrs (inode_at s ip) ! NDIRECT \<noteq> 0 \<longrightarrow> t = s"
    using bmap_table_run[OF f2 ok ip] fr by auto
  note T = fstepD[OF t(2)]
  have "ip < length (inodes t)" "0 < nfree t" using ip fr T(3,9) by simp_all
  then obtain a v where v: "bmap_entry 1 (4 * (n - NDIRECT)) (i_addrs (inode_at t ip) ! NDIRECT) t = Ret a v" "fstep p pid ip 3 1 t v"
    "mapped ip n a t v"
    using bmap_entry_run[OF T(1)[OF f5] T(2) _ _ n False refl t(4)] by blast
  have "fstep p pid ip (2 + 3) (1 + 1) s v" by (rule fstep_trans[OF t(2) v(2) ip])
  then have "fstep p pid ip 5 2 s v" by (rule fstep_mono) simp_all
  moreover have "mapped ip n a s v" using t(3,5) v(3) n False by (auto simp: mapped_def kept_def fblk_def)
  moreover have "bmap ip (of_nat n) s = Ret a v"
    using bmap_split[of "of_nat n" ip s] False n t(1) v(1) file_okD(1)[OF ok] by (simp add: u kbind_def)
  ultimately show ?thesis by blast
qed

end
