(* ===== verification/Xv6_Rw.thy ===== *)
theory Xv6_Rw
  imports Xv6_Bmap
begin

text \<open>
  Reading and writing files. \<^verbatim>\<open>writei\<close> and \<^verbatim>\<open>readi\<close> work block by block through \<^verbatim>\<open>bmap\<close>, the block cache and the log; the
  lemmas add the blocks up to the bytes of the file.
\<close>

subsection \<open>One block\<close>

text \<open>The bytes of a file after \<open>bs\<close> is written at \<open>off\<close>.\<close>

definition written :: "nat \<Rightarrow> uchar list \<Rightarrow> (nat \<Rightarrow> uchar) \<Rightarrow> nat \<Rightarrow> uchar" where
  "written off bs f j = (if off \<le> j \<and> j < off + length bs then bs ! (j - off) else f j)"

lemma written_nil [simp]: "written off [] f = f"
  by (rule ext) (auto simp: written_def)

lemma written_append: "written (off + length a) b (written off a f) = written off (a @ b) f"
  by (rule ext) (auto simp: written_def nth_append)

lemma in_chunk:
  assumes "off mod BSIZE + l \<le> BSIZE"
  shows "(off \<le> j \<and> j < off + l) \<longleftrightarrow> j div BSIZE = off div BSIZE \<and> off mod BSIZE \<le> j mod BSIZE \<and> j mod BSIZE < off mod BSIZE + l"
    (is "?L = ?R")
proof
  have o: "off = BSIZE * (off div BSIZE) + off mod BSIZE" and d: "j = BSIZE * (j div BSIZE) + j mod BSIZE" by simp_all
  show ?R if L: ?L
  proof -
    have that: "off \<le> j" "j < off + l" using L by simp_all
    have "j div BSIZE = off div BSIZE"
    proof (rule div_nat_eqI)
      show "BSIZE * (off div BSIZE) \<le> j" using that o by linarith
      show "j < BSIZE * Suc (off div BSIZE)" using that o assms by (simp only: mult_Suc_right)
    qed
    moreover from this have "j = BSIZE * (off div BSIZE) + j mod BSIZE" using d by simp
    ultimately show ?thesis using that o by linarith
  qed
  show ?L if ?R using that o d by (metis add_le_cancel_left add_less_cancel_left add.assoc)
qed

lemma fblk_same:
  assumes "i_addrs p ! NDIRECT \<noteq> 0 \<Longrightarrow> v' (i_addrs p ! NDIRECT) = v (i_addrs p ! NDIRECT)"
  shows "fblk v' p n = fblk v p n"
  using assms by (simp add: fblk_def)

lemma write_chunk_bytes:
  assumes ok: "file_ok s p" and a: "fblk (view s) p (off div BSIZE) = a" "a \<noteq> 0" "off div BSIZE < MAXFILE"
    and l: "off mod BSIZE + length bs \<le> BSIZE" and v: "view t a = put_bytes (view s a) (off mod BSIZE) bs" "\<And>c. c \<noteq> a \<Longrightarrow> view t c = view s c"
  shows "fblk (view t) p n = fblk (view s) p n" "j < MAXFILE * BSIZE \<Longrightarrow> fbyte (view t) p j = written off bs (fbyte (view s) p) j"
proof -
  have na: "a \<noteq> i_addrs p ! NDIRECT" and db: "dblock s a" using file_okD(5,6)[OF ok a(3)] a(1,2) by auto
  show e: "fblk (view t) p n = fblk (view s) p n" for n by (rule fblk_same) (use v(2) na in auto)
  let ?m = "j div BSIZE"
  assume "j < MAXFILE * BSIZE"
  then have m: "?m < MAXFILE" by (simp add: div_less_iff_less_mult BSIZE_def)
  have r: "j mod BSIZE < BSIZE" by (simp add: BSIZE_def)
  show "fbyte (view t) p j = written off bs (fbyte (view s) p) j"
  proof (cases "?m = off div BSIZE")
    case True
    have L: "length (view s a) = BSIZE" using db by (simp add: dblock_def)
    have "j - off = j mod BSIZE - off mod BSIZE" if "off \<le> j" using that True by (metis add_diff_cancel_left div_mult_mod_eq)
    then show ?thesis using True a(1,2) L l r in_chunk[OF l, of j]
      by (auto simp: fbyte_def e written_def v(1) put_bytes_nth Let_def)
  next
    case False
    then have "fblk (view s) p ?m \<noteq> 0 \<Longrightarrow> fblk (view s) p ?m \<noteq> a" using file_okD(7)[OF ok a(3) m] a(1,2) by auto
    then show ?thesis using False in_chunk[OF l, of j] v(2) by (auto simp: fbyte_def e written_def Let_def)
  qed
qed

lemma fstep_data:
  fixes s t :: "'z istate_scheme"
  assumes f: "fs_tx p pid {} 1 s" and ok: "file_ok s (inode_at s ip)" and st: "tx_step p pid {} {a} 1 s t" and a: "dblock s a" "owned s (inode_at s ip) a"
    and l: "length (view t a) = BSIZE" and e: "\<And>n. fblk (view t) (inode_at s ip) n = fblk (view s) (inode_at s ip) n"
  shows "fstep p pid ip 1 0 s t"
proof -
  note T = tx_stepD[OF st]
  have nb: "a \<notin> bitmap s" "a \<notin> iblocks s" using a(1) by (auto simp: dblock_def meta_def)
  note O = fs_ok_outside[OF fs_txD(2)[OF f] st nb(1) l]
  have sb: "sb t = sb s" and it: "inodes t = inodes s" using tx_frame_fs[OF T(2)] by simp_all
  have m: "meta t = meta s" by (simp add: meta_def bitmap_def iblocks_def sb T(9))
  have as: "\<exists>as. inodes s = (inodes s)[ip := (inode_at s ip)\<lparr>i_addrs := as\<rparr>]"
    by (rule exI[of _ "i_addrs (inode_at s ip)"]) simp
  have ow: "owned t (inode_at s ip) = owned s (inode_at s ip)" by (simp add: owned_def[abs_def] e)
  have vs: "view t c = view s c" if "c \<noteq> a" for c using T(3)[of c] that by simp
  have "dblock t c" if "dblock s c" for c using that O(2)[of c] vs[of c] l by (cases "c = a") (auto simp: dblock_def sb m)
  then have "file_ok t (inode_at s ip)" using ok unfolding file_ok_def ow e by (auto simp: sb)
  moreover have "nfree t = nfree s" using O(2) unfolding nfree_def sb by (intro arg_cong[of _ _ card]) auto
  moreover have "tx_frame (s\<lparr>inodes := inodes s\<rparr>) t" using T(2) by simp
  moreover have "\<forall>c \<in> iblocks s. view t c = view s c" using vs nb(2) by metis
  moreover have "\<not> owned s (inode_at s ip) c \<Longrightarrow> view t c = view s c" for c using vs a(2) by metis
  ultimately show ?thesis using T(1,4) O as unfolding fstep_def it ow by auto
qed

lemma write_chunk:
  fixes s :: "'z istate_scheme"
  assumes f: "fs_tx p pid {} 1 s" and ok: "file_ok s (inode_at s ip)" and a: "fblk (view s) (inode_at s ip) (off div BSIZE) = a" "a \<noteq> 0"
    "off div BSIZE < MAXFILE" and l: "off mod BSIZE + length bs \<le> BSIZE"
  shows "\<exists>i t0 t. bread 1 a s = Ret i t0 \<and>
    kbind (set_data i (\<lambda>d. put_bytes d (off mod BSIZE) bs)) (\<lambda>_. kbind (log_write i) (\<lambda>_. brelse i)) t0 = Ret () t \<and> fstep p pid ip 1 0 s t \<and>
    inodes t = inodes s \<and> (\<forall>n. fblk (view t) (inode_at t ip) n = fblk (view s) (inode_at s ip) n) \<and>
    (\<forall>j < MAXFILE * BSIZE. fbyte (view t) (inode_at t ip) j = written off bs (fbyte (view s) (inode_at s ip)) j)"
proof -
  let ?p = "inode_at s ip"
  note F = fs_txD[OF f]
  have db: "dblock s a" using file_okD(5)[OF ok a(3)] a(1,2) by simp
  then have as: "a < disksize s" "a \<notin> log_area (lg_start s)" "a \<notin> bitmap s" "a \<notin> iblocks s" using F(2) by (auto simp: dblock_def fs_ok_def meta_def)
  obtain i t0 where t0: "bread 1 a s = Ret i t0" "i \<notin> {}" "tx p pid (insert i {}) t0" "holds t0 a i" "tx_frame s t0" "view t0 = view s"
    "lg_n t0 = lg_n s" "\<forall>j \<in> {}. buf_at t0 j = buf_at s j"
    using read_step[OF F(1) block_free_any[OF F(1) as(1)]] by blast
  have r: "lg_n s < int LOGSIZE - 1" using F(3) by simp
  obtain t where t: "kbind (set_data i (\<lambda>d. put_bytes d (off mod BSIZE) bs)) (\<lambda>_. kbind (log_write i) (\<lambda>_. brelse i)) t0 = Ret () t"
    "tx_step p pid {} {a} 1 s t" "view t a = put_bytes (view s a) (off mod BSIZE) bs"
    using write_step[OF t0(3,2,4-8) as(2) r, of "\<lambda>d. put_bytes d (off mod BSIZE) bs"] by blast
  note T = tx_stepD[OF t(2)]
  have vs: "view t c = view s c" if "c \<noteq> a" for c using T(3)[of c] that by simp
  have it: "inodes t = inodes s" by (rule tx_frame_fs(2)[OF T(2)])
  note B = write_chunk_bytes[OF ok a l t(3) vs]
  have la: "length (view t a) = BSIZE" using t(3) l db by (simp add: dblock_def)
  have "fstep p pid ip 1 0 s t"
    by (rule fstep_data[OF f ok t(2) db _ la]) (use a B(1) in \<open>auto simp: owned_def\<close>)
  then show ?thesis using t0(1) t(1) it B by (intro exI[of _ i] exI[of _ t0] exI[of _ t]) simp
qed

subsection \<open>Writing\<close>

text \<open>The blocks of the file that the bytes from \<open>off\<close> to \<open>off + n\<close> lie in.\<close>

definition span :: "nat \<Rightarrow> nat \<Rightarrow> nat set" where
  "span off n = {m. m < MAXFILE \<and> 0 < n \<and> off div BSIZE \<le> m \<and> m * BSIZE < off + n}"

definition wrote :: "nat \<Rightarrow> nat \<Rightarrow> uchar list \<Rightarrow> 'z istate_scheme \<Rightarrow> 'z istate_scheme \<Rightarrow> bool" where
  "wrote ip off src s t \<longleftrightarrow>
     (\<forall>j < MAXFILE * BSIZE. fbyte (view t) (inode_at t ip) j = written off src (fbyte (view s) (inode_at s ip)) j) \<and>
     (\<forall>m < MAXFILE. fblk (view s) (inode_at s ip) m \<noteq> 0 \<longrightarrow> fblk (view t) (inode_at t ip) m = fblk (view s) (inode_at s ip) m) \<and>
     (\<forall>m \<in> span off (length src). fblk (view t) (inode_at t ip) m \<noteq> 0) \<and>
     ((\<forall>m \<in> span off (length src). fblk (view s) (inode_at s ip) m \<noteq> 0) \<longrightarrow> inodes t = inodes s)"

lemma wrote_nil: "wrote ip off [] s s"
  by (simp add: wrote_def span_def)

lemma block_less: "m * BSIZE < BSIZE * Suc q \<longleftrightarrow> m \<le> q"
proof -
  have "m * BSIZE < BSIZE * Suc q \<longleftrightarrow> BSIZE * m < BSIZE * Suc q" by (simp only: mult.commute)
  also have "\<dots> \<longleftrightarrow> m < Suc q" unfolding mult_less_cancel1 by (simp add: BSIZE_def)
  finally show ?thesis by (simp only: less_Suc_eq_le)
qed

lemma span_split:
  assumes "off mod BSIZE + n = BSIZE" and "0 < k"
  shows "span off (n + k) = span off n \<union> span (off + n) k"
proof -
  have e: "(off + n) div BSIZE = Suc (off div BSIZE)" "off + n = BSIZE * Suc (off div BSIZE)"
  proof -
    have "off + n = BSIZE * (off div BSIZE) + (off mod BSIZE + n)" by (simp only: add.assoc[symmetric] mult_div_mod_eq)
    then show e: "off + n = BSIZE * Suc (off div BSIZE)" using assms(1) by simp
    show "(off + n) div BSIZE = Suc (off div BSIZE)" unfolding e by (simp add: BSIZE_def)
  qed
  have "off mod BSIZE < BSIZE" by (simp add: BSIZE_def)
  then have n: "0 < n" using assms(1) by linarith
  have lt: "m * BSIZE < off + n \<longleftrightarrow> m \<le> off div BSIZE" for m unfolding e(2) by (rule block_less)
  show ?thesis
  proof (rule set_eqI)
    fix m
    have "m * BSIZE < off + n \<Longrightarrow> m * BSIZE < off + n + k" by simp
    then show "m \<in> span off (n + k) \<longleftrightarrow> m \<in> span off n \<union> span (off + n) k"
      unfolding span_def e(1) Un_iff mem_Collect_eq add.assoc[symmetric] using n assms(2) lt[of m] by linarith
  qed
qed

lemma wrote_trans:
  assumes "wrote ip off a s t" and "wrote ip (off + length a) b t u" and "off mod BSIZE + length a = BSIZE" and "b \<noteq> []"
  shows "wrote ip off (a @ b) s u"
proof -
  have sp: "span off (length (a @ b)) = span off (length a) \<union> span (off + length a) (length b)"
    using span_split[OF assms(3)] assms(4) by simp
  have nm: "m \<in> span off n \<Longrightarrow> m < MAXFILE" for m off n by (simp add: span_def)
  have bt: "fbyte (view u) (inode_at u ip) j = written off (a @ b) (fbyte (view s) (inode_at s ip)) j" if "j < MAXFILE * BSIZE" for j
    using assms(1,2) that unfolding wrote_def by (simp flip: written_append) (simp add: written_def)
  show ?thesis unfolding wrote_def sp
  proof (intro conjI allI impI ballI)
    show "fbyte (view u) (inode_at u ip) j = written off (a @ b) (fbyte (view s) (inode_at s ip)) j" if "j < MAXFILE * BSIZE" for j
      by (rule bt[OF that])
    show "fblk (view u) (inode_at u ip) m = fblk (view s) (inode_at s ip) m" if "m < MAXFILE" "fblk (view s) (inode_at s ip) m \<noteq> 0" for m
      using assms(1,2) that unfolding wrote_def by simp
    show "fblk (view u) (inode_at u ip) m \<noteq> 0" if m: "m \<in> span off (length a) \<union> span (off + length a) (length b)" for m
      using assms(1,2) m nm unfolding wrote_def by fastforce
    assume h: "\<forall>m \<in> span off (length a) \<union> span (off + length a) (length b). fblk (view s) (inode_at s ip) m \<noteq> 0"
    then have "fblk (view t) (inode_at t ip) m \<noteq> 0" if "m \<in> span (off + length a) (length b)" for m
      using assms(1) that nm[OF that] unfolding wrote_def by auto
    then show "inodes u = inodes s" using assms(1,2) h unfolding wrote_def by auto
  qed
qed

text \<open>One turn of the loop of \<^verbatim>\<open>writei\<close>.\<close>

lemma wrote_chunk:
  assumes m: "mapped ip (off div BSIZE) a s t" and "off div BSIZE < MAXFILE" and l: "off mod BSIZE + length bs \<le> BSIZE" and "bs \<noteq> []"
    and u: "inodes u = inodes t" "\<forall>n. fblk (view u) (inode_at u ip) n = fblk (view t) (inode_at t ip) n"
      "\<forall>j < MAXFILE * BSIZE. fbyte (view u) (inode_at u ip) j = written off bs (fbyte (view t) (inode_at t ip)) j"
  shows "wrote ip off bs s u"
proof -
  have sp: "span off (length bs) = {off div BSIZE}"
  proof -
    have "off = BSIZE * (off div BSIZE) + off mod BSIZE" by simp
    then have "m * BSIZE < BSIZE * Suc (off div BSIZE)" if "m * BSIZE < off + length bs" for m
      using l that by (simp only: mult_Suc_right)
    then have le: "m \<le> off div BSIZE" if "m * BSIZE < off + length bs" for m using that unfolding block_less by blast
    have "off div BSIZE * BSIZE \<le> off" by (rule div_times_less_eq_dividend)
    also have "off < off + length bs" using assms(4) by simp
    finally show ?thesis using assms(2,4) le[THEN order.antisym] by (auto simp: span_def)
  qed
  show ?thesis using m u unfolding wrote_def sp mapped_def by (auto simp: written_def)
qed

lemma off_block: "off < MAXFILE * BSIZE \<Longrightarrow> off div BSIZE < MAXFILE"
  by (simp add: div_less_iff_less_mult BSIZE_def)

lemma writei_turn:
  fixes s :: "'z istate_scheme"
  assumes f: "fs_tx p pid {} 6 s" and ok: "file_ok s (inode_at s ip)" and ip: "ip < length (inodes s)" and fr: "2 \<le> nfree s"
    and b: "off + length src \<le> MAXFILE * BSIZE" and ne: "src \<noteq> []"
  defines "m \<equiv> chunk off (length src)"
  shows "\<exists>u. writei_loop ip off src s = writei_loop ip (off + m) (drop m src) u \<and> fstep p pid ip 6 2 s u \<and> wrote ip off (take m src) s u"
proof -
  let ?n = "off div BSIZE" and ?o = "off mod BSIZE" and ?a = "take m src"
  have r: "?o < BSIZE" by (simp add: BSIZE_def)
  have n: "?n < MAXFILE" by (rule off_block) (use b ne in \<open>cases src; simp\<close>)
  have ma: "?o + length ?a \<le> BSIZE" and na: "?a \<noteq> []" using ne r by (auto simp: m_def chunk_def)
  have f5: "fs_tx p pid {} 5 s" and f6: "fs_tx p pid {} (5 + 1) s" using f by (auto intro: fs_tx_less)
  obtain a t where t: "bmap ip (of_nat ?n) s = Ret a t" "fstep p pid ip 5 2 s t" "mapped ip ?n a s t"
    using bmap_run[OF f5 ok ip n fr] by auto
  note T = fstepD[OF t(2)]
  have mp: "fblk (view t) (inode_at t ip) ?n = a" "a \<noteq> 0" using t(3) by (simp_all add: mapped_def)
  obtain i t0 u where u: "bread 1 a t = Ret i t0"
    "kbind (set_data i (\<lambda>d. put_bytes d ?o ?a)) (\<lambda>_. kbind (log_write i) (\<lambda>_. brelse i)) t0 = Ret () u" "fstep p pid ip 1 0 t u"
    "inodes u = inodes t" "\<forall>n. fblk (view u) (inode_at u ip) n = fblk (view t) (inode_at t ip) n"
    "\<forall>j < MAXFILE * BSIZE. fbyte (view u) (inode_at u ip) j = written off ?a (fbyte (view t) (inode_at t ip)) j"
    using write_chunk[OF T(1)[OF f6] T(2) mp n ma] by blast
  have "wrote ip off ?a s u" by (rule wrote_chunk[OF t(3) n ma na u(4-6)])
  moreover have "fstep p pid ip 6 2 s u" by (rule fstep_mono[OF fstep_trans[OF t(2) u(3) ip]]) simp_all
  moreover have "writei_loop ip off src s = writei_loop ip (off + m) (drop m src) u"
    using ne t(1) u(1,2) file_okD(1)[OF T(2)]
    by (subst writei_loop.simps) (auto simp: Let_def kbind_def m_def split: outcome.splits)
  ultimately show ?thesis by blast
qed

lemma writei_loop_run:
  fixes s :: "'z istate_scheme"
  assumes "fs_tx p pid {} (6 * c) s" and "file_ok s (inode_at s ip)" and "ip < length (inodes s)" and "2 * c \<le> nfree s"
    and "off mod BSIZE + length src \<le> BSIZE * c" and "off + length src \<le> MAXFILE * BSIZE"
  shows "\<exists>t. writei_loop ip off src s = Ret (off + length src) t \<and> fstep p pid ip (6 * c) (2 * c) s t \<and> wrote ip off src s t"
  using assms
proof (induction c arbitrary: s off src)
  case 0
  then show ?case using fstep_refl[OF 0(1,2)] wrote_nil by (auto simp: writei_loop.simps)
next
  case (Suc c)
  show ?case
  proof (cases "src = []")
    case True
    have "fstep p pid ip (6 * Suc c) (2 * Suc c) s s" by (rule fstep_mono[OF fstep_refl[OF Suc(2,3)]]) simp_all
    then show ?thesis using True wrote_nil by (auto simp: writei_loop.simps)
  next
    case False
    let ?m = "chunk off (length src)"
    let ?a = "take ?m src" and ?b = "drop ?m src"
    have r: "off mod BSIZE < BSIZE" by (simp add: BSIZE_def)
    have la: "length ?a = ?m" by (simp add: chunk_def)
    have f6: "fs_tx p pid {} 6 s" and fs: "fs_tx p pid {} (6 + 6 * c) s" using Suc(2) by (auto intro: fs_tx_less)
    obtain u where run: "writei_loop ip off src s = writei_loop ip (off + ?m) ?b u" and su: "fstep p pid ip 6 2 s u" and w: "wrote ip off ?a s u"
      using writei_turn[OF f6 Suc(3,4) _ Suc(7) False] Suc(5) by auto
    note U = fstepD[OF su]
    have lu: "ip < length (inodes u)" "2 * c \<le> nfree u" using Suc(4,5) U(3,9) by simp_all
    show ?thesis
    proof (cases "?b = []")
      case True
      then have "src = ?a" "off + ?m = off + length src" by (simp_all add: chunk_def)
      moreover have "fstep p pid ip (6 * Suc c) (2 * Suc c) s u" by (rule fstep_mono[OF su]) simp_all
      ultimately show ?thesis using run w True by (auto simp: writei_loop.simps)
    next
      case nb: False
      then have full: "off mod BSIZE + length ?a = BSIZE" using r by (auto simp: chunk_def min_def split: if_splits)
      have "(off + ?m) mod BSIZE = 0" using full la by (metis mod_add_left_eq mod_self)
      then have rest: "(off + ?m) mod BSIZE + length ?b \<le> BSIZE * c" "off + ?m + length ?b = off + length src"
        using Suc(6,7) full la by (simp_all add: chunk_def)
      obtain v where v: "writei_loop ip (off + ?m) ?b u = Ret (off + ?m + length ?b) v" "fstep p pid ip (6 * c) (2 * c) u v"
        "wrote ip (off + ?m) ?b u v"
        using Suc(1)[OF U(1)[OF fs] U(2) lu rest(1)] rest(2) Suc(7) by auto
      have "fstep p pid ip (6 + 6 * c) (2 + 2 * c) s v" by (rule fstep_trans[OF su v(2) Suc(4)])
      moreover have "wrote ip off (?a @ ?b) s v" by (rule wrote_trans[OF w _ full nb]) (use v(3) la in simp)
      ultimately show ?thesis using run v(1) rest(2) by auto
    qed
  qed
qed

subsection \<open>Reading\<close>




subsection \<open>Whole files\<close>

definition contents :: "'z istate_scheme \<Rightarrow> inode \<Rightarrow> uchar list" where
  "contents s p = map (fbyte (view s) p) [0..<unat (i_size p)]"

text \<open>A file with no holes whose inode is stored in its inode block.\<close>

definition wf_file :: "'z istate_scheme \<Rightarrow> inode \<Rightarrow> bool" where
  "wf_file s p \<longleftrightarrow> file_ok s p \<and> unat (i_size p) \<le> MAXFILE * BSIZE \<and>
     (\<forall>m < MAXFILE. m * BSIZE < unat (i_size p) \<longrightarrow> fblk (view s) p m \<noteq> 0) \<and> same_dinode (saved s (i_inum p) p) p"

definition apart :: "'z istate_scheme \<Rightarrow> inode \<Rightarrow> inode \<Rightarrow> bool" where
  "apart s q p \<longleftrightarrow> i_inum q \<noteq> i_inum p \<and> (\<forall>b. owned s q b \<longrightarrow> \<not> owned s p b)"

lemma file_ok_keep:
  assumes ok: "file_ok s q" and v: "\<And>b. owned s q b \<Longrightarrow> view t b = view s b" and d: "\<And>b. owned s q b \<Longrightarrow> dblock t b" and sb: "sb t = sb s"
  shows "fblk (view t) q n = fblk (view s) q n" "file_ok t q" "owned t q = owned s q"
    "j < MAXFILE * BSIZE \<Longrightarrow> fbyte (view t) q j = fbyte (view s) q j"
proof -
  show e: "fblk (view t) q n = fblk (view s) q n" for n by (rule fblk_same) (use v in \<open>simp add: owned_def\<close>)
  show ow: "owned t q = owned s q" by (simp add: owned_def[abs_def] e)
  show "file_ok t q" using ok d unfolding file_ok_def ow e by (auto simp: sb)
  assume "j < MAXFILE * BSIZE"
  then have n: "j div BSIZE < MAXFILE" by (rule off_block)
  have "view t (fblk (view s) q (j div BSIZE)) = view s (fblk (view s) q (j div BSIZE))" if "fblk (view s) q (j div BSIZE) \<noteq> 0"
    by (rule v) (use n that in \<open>auto simp: owned_def\<close>)
  then show "fbyte (view t) q j = fbyte (view s) q j" by (simp add: fbyte_def e Let_def)
qed

lemma contents_keep:
  assumes "\<And>j. j < MAXFILE * BSIZE \<Longrightarrow> fbyte (view t) q j = fbyte (view s) q j" and "unat (i_size q) \<le> MAXFILE * BSIZE"
  shows "contents t q = contents s q"
  using assms by (simp add: contents_def)

text \<open>Other files across the steps of an operation on \<open>ip\<close>, and all files across a change of an inode block.\<close>

lemma fstep_other:
  assumes st: "fstep p pid ip k f s t" and w: "wf_file s q" and ap: "apart s q (inode_at s ip)" and ip: "ip < length (inodes s)"
  shows "wf_file t q" "contents t q = contents s q" "apart t q (inode_at t ip)"
proof -
  note S = st[unfolded fstep_def] and sb = fstepD(4)[OF st] and mt = fstepD(8)[OF st]
  have ok: "file_ok s q" using w by (simp add: wf_file_def)
  have d: "dblock s b" if "owned s q b" for b using ok that by (simp add: file_ok_def)
  have v: "view t b = view s b" if "owned s q b" for b using S d[OF that] ap that by (auto simp: dblock_def apart_def)
  have dt: "dblock t b" if "owned s q b" for b using d[OF that] S v[OF that] by (auto simp: dblock_def sb mt)
  note K = file_ok_keep[OF ok v dt sb]
  have "view t (IBLOCK (i_inum q) (sb s)) = view s (IBLOCK (i_inum q) (sb s))" using S in_iblocks[OF file_okD(2)[OF ok]] by blast
  then have "saved t (i_inum q) = saved s (i_inum q)" by (simp add: saved_def sb)
  then show "wf_file t q" using w K(1,2) by (simp add: wf_file_def)
  show "contents t q = contents s q" by (rule contents_keep[OF K(4)]) (use w in \<open>simp_all add: wf_file_def\<close>)
  have "i_inum (inode_at t ip) = i_inum (inode_at s ip)" using S ip by auto
  moreover have "owned s (inode_at s ip) b \<or> \<not> used s b" if "owned t (inode_at t ip) b" for b using S that by blast
  ultimately show "apart t q (inode_at t ip)" using ap d K(3)[THEN fun_cong] unfolding apart_def dblock_def by metis
qed

lemma iblock_step_file:
  fixes s t :: "'z istate_scheme"
  assumes O: "fs_ok s" and st: "tx_step p pid {} {c} k s t" and c: "c \<in> iblocks s" "length (view t c) = BSIZE" and ok: "file_ok s q"
  shows "file_ok t q" "fblk (view t) q n = fblk (view s) q n" "owned t q = owned s q"
    "j < MAXFILE * BSIZE \<Longrightarrow> fbyte (view t) q j = fbyte (view s) q j"
proof -
  note T = tx_stepD[OF st]
  have cb: "c \<notin> bitmap s" using O c by (auto simp: fs_ok_def)
  note U = fs_ok_outside[OF O st cb c(2)]
  have sb: "sb t = sb s" by (rule tx_frame_fs(1)[OF T(2)])
  have mt: "meta t = meta s" by (simp add: meta_def bitmap_def iblocks_def sb T(9))
  have d: "dblock s b" if "owned s q b" for b using ok that by (simp add: file_ok_def)
  have v: "view t b = view s b" if "owned s q b" for b using T(3)[of b] d[OF that] c(1) by (auto simp: dblock_def meta_def)
  have dt: "dblock t b" if "owned s q b" for b using d[OF that] U(2) v[OF that] by (auto simp: dblock_def sb mt)
  note K = file_ok_keep[OF ok v dt sb]
  show "file_ok t q" "fblk (view t) q n = fblk (view s) q n" "owned t q = owned s q"
    "j < MAXFILE * BSIZE \<Longrightarrow> fbyte (view t) q j = fbyte (view s) q j"
    using K by simp_all
qed

lemma size_irrelevant [simp]:
  "fblk v (p\<lparr>i_size := z\<rparr>) = fblk v p" "fbyte v (p\<lparr>i_size := z\<rparr>) = fbyte v p" "owned s (p\<lparr>i_size := z\<rparr>) = owned s p"
  "file_ok s (p\<lparr>i_size := z\<rparr>) = file_ok s p" "apart s q (p\<lparr>i_size := z\<rparr>) = apart s q p"
  for s :: "'z istate_scheme"
proof -
  show e: "fblk v (p\<lparr>i_size := z\<rparr>) = fblk v p" for v by (rule ext) (simp add: fblk_def)
  then show "fbyte v (p\<lparr>i_size := z\<rparr>) = fbyte v p" by (simp add: fbyte_def[abs_def])
  show o: "owned s (p\<lparr>i_size := z\<rparr>) = owned s p" by (simp add: owned_def[abs_def] e)
  show "file_ok s (p\<lparr>i_size := z\<rparr>) = file_ok s p" "apart s q (p\<lparr>i_size := z\<rparr>) = apart s q p"
    by (simp_all add: file_ok_def apart_def e o)
qed

lemma MAXFILE_BSIZE: "MAXFILE * BSIZE = 71680"
  by (simp add: MAXFILE_def NDIRECT_def NINDIRECT_def BSIZE_def)



lemma sint_of_nat: "k < 2 ^ 31 \<Longrightarrow> sint (word_of_int (int k) :: uint) = int k"
  by (simp only: signed_of_int) (simp add: signed_take_bit_int_eq_self)

lemma sint_unat:
  assumes "unat n < 2 ^ 31"
  shows "sint (n :: uint) = int (unat n)"
  using sint_of_nat[OF assms] by simp

lemma written_contents:
  assumes "\<forall>j < M. g j = written off src f j" and "off \<le> z" and "z' = max z (off + length src)" and "z' \<le> M"
  shows "map g [0..<z'] = take off (map f [0..<z]) @ src @ drop (off + length src) (map f [0..<z])"
proof (rule nth_equalityI)
  fix j
  assume "j < length (map g [0..<z'])"
  then have j: "j < z'" by simp
  consider "j < off" | "off \<le> j" "j < off + length src" | "off + length src \<le> j" by linarith
  then show "map g [0..<z'] ! j = (take off (map f [0..<z]) @ src @ drop (off + length src) (map f [0..<z])) ! j"
    using assms j by cases (auto simp: written_def nth_append)
qed (use assms in auto)

text \<open>The end of \<^verbatim>\<open>writei\<close> when the file grows: the new size, and the inode stored.\<close>

lemma iupdate_file:
  fixes t :: "'z istate_scheme" and z :: uint
  assumes f: "fs_tx p pid {} (k + 1) t" and ip: "ip < length (inodes t)" and ok: "file_ok t (inode_at t ip)"
  defines "q \<equiv> (inode_at t ip)\<lparr>i_size := z\<rparr>"
  shows "\<exists>u. iupdate ip (upd_inode ip (\<lambda>p. p\<lparr>i_size := z\<rparr>) t) = Ret () u \<and> inode_at u ip = q \<and> fs_tx p pid {} k u \<and> disk u = disk t \<and>
    same_dinode (saved u (i_inum q) q) q \<and> file_ok u q \<and> (\<forall>n. fblk (view u) q n = fblk (view t) q n) \<and>
    (\<forall>j < MAXFILE * BSIZE. fbyte (view u) q j = fbyte (view t) q j) \<and>
    (\<forall>r. wf_file t r \<and> apart t r q \<longrightarrow> wf_file u r \<and> contents u r = contents t r \<and> apart u r q)"
proof -
  let ?t = "upd_inode ip (\<lambda>p. p\<lparr>i_size := z\<rparr>) t" and ?n = "i_inum (inode_at t ip)"
  have at: "inode_at ?t ip = q" using ip by (simp add: upd_inode_def q_def)
  have vt: "view ?t = view t" "sb ?t = sb t" "disk ?t = disk t" "fs_tx p pid {} (k + 1) ?t" using f by (simp_all add: upd_inode_def)
  have n: "i_inum q = ?n" "i_dev q = 1" "?n < sb_ninodes (sb t)" "length (i_addrs q) = NDIRECT + 1" using file_okD(1-3)[OF ok] by (simp_all add: q_def)
  let ?c = "IBLOCK ?n (sb t)"
  obtain u where u: "iupdate ip ?t = Ret () u" "tx_step p pid {} {?c} 1 ?t u" "view u ?c = put_dinode q (view t ?c) (dip_off ?n)" "fs_tx p pid {} k u"
    using iupdate_run[OF vt(4), of ip] at n vt by auto
  note U = tx_stepD[OF u(2)]
  have sb: "sb u = sb t" and iu: "inodes u = inodes ?t" using tx_frame_fs[OF U(2)] vt(2) by simp_all
  have O: "fs_ok ?t" by (rule fs_txD(2)[OF vt(4)])
  have L: "length (view t ?c) = BSIZE" using fs_ok_iblock(3)[OF O, of ?n] n(3) vt by simp
  then have lc: "length (view u ?c) = BSIZE" using dip_off_bound[of ?n] u(3) by simp
  have c: "?c \<in> iblocks ?t" using in_iblocks[of ?n t] n(3) by (simp add: upd_inode_def)
  have ft: "file_ok ?t r = file_ok t r" for r by (simp add: file_ok_def owned_def dblock_def upd_inode_def)
  note K = iblock_step_file[OF O u(2) c lc, unfolded vt(1) ft]
  note A = saved_after[OF O _ u(2)[unfolded vt(2)[symmetric]], of q]
  have sv: "saved ?t = saved t" by (simp add: saved_def[abs_def] upd_inode_def)
  have other: "saved u j = saved t j" if "j \<noteq> ?n" for j using A(1)[of j] n(3) u(3) vt that by (simp add: sv)
  have own: "owned ?t r = owned t r" for r by (simp add: owned_def[abs_def] vt)
  have okq: "file_ok t q" using ok by (simp add: q_def)
  have "wf_file u r \<and> contents u r = contents t r \<and> apart u r q" if r: "wf_file t r" "apart t r q" for r
    using r K[of r] K(3)[OF okq] other[of "i_inum r"] n(1) file_okD(2)[of t r] contents_keep[of u r t]
    by (auto simp: wf_file_def apart_def own)
  moreover have "same_dinode (saved u (i_inum q) q) q" unfolding n(1) using A(2)[of q] n(3,4) u(3) vt by simp
  ultimately show ?thesis using u(1,4) K[OF okq] U(8) vt(3) at iu by (intro exI[of _ u]) auto
qed

text \<open>The result of writing \<open>src\<close> at \<open>off\<close> to the file \<open>ip\<close>.\<close>

definition file_written :: "nat \<Rightarrow> int \<Rightarrow> nat \<Rightarrow> nat \<Rightarrow> uchar list \<Rightarrow> 'z istate_scheme \<Rightarrow> 'z istate_scheme \<Rightarrow> bool" where
  "file_written p pid ip off src s t \<longleftrightarrow> fs_tx p pid {} 0 t \<and> disk t = disk s \<and> wf_file t (inode_at t ip) \<and>
     contents t (inode_at t ip) = take off (contents s (inode_at s ip)) @ src @ drop (off + length src) (contents s (inode_at s ip)) \<and>
     (\<forall>q. wf_file s q \<and> apart s q (inode_at s ip) \<longrightarrow> wf_file t q \<and> contents t q = contents s q \<and> apart t q (inode_at t ip))"

lemma write_inside:
  fixes s t :: "'z istate_scheme"
  assumes f: "fs_tx p pid {} 25 s" and ip: "ip < length (inodes s)" and w: "wf_file s (inode_at s ip)"
    and st: "fstep p pid ip 24 8 s t" and wr: "wrote ip off src s t" and le: "off \<le> unat (i_size (inode_at s ip))"
    and inside: "src = [] \<or> off + length src \<le> unat (i_size (inode_at s ip))"
  shows "file_written p pid ip off src s t"
proof -
  let ?p = "inode_at s ip" and ?z = "unat (i_size (inode_at s ip))"
  have z: "?z \<le> MAXFILE * BSIZE" and nh: "\<And>m. m < MAXFILE \<Longrightarrow> m * BSIZE < ?z \<Longrightarrow> fblk (view s) ?p m \<noteq> 0"
    and ok: "file_ok s ?p" and sv: "same_dinode (saved s (i_inum ?p) ?p) ?p"
    using w by (auto simp: wf_file_def)
  have "fblk (view s) ?p m \<noteq> 0" if "m \<in> span off (length src)" for m
    using that nh inside by (cases "src = []") (auto simp: span_def)
  then have it: "inodes t = inodes s" using wr by (auto simp: wrote_def)
  note T = fstepD[OF st]
  have "view t (IBLOCK (i_inum ?p) (sb s)) = view s (IBLOCK (i_inum ?p) (sb s))"
    using st in_iblocks[OF file_okD(2)[OF ok]] unfolding fstep_def by blast
  then have "saved t (i_inum ?p) = saved s (i_inum ?p)" by (simp add: saved_def T(4))
  moreover have "fblk (view t) ?p m \<noteq> 0" if "m < MAXFILE" "m * BSIZE < ?z" for m
    using wr nh[OF that] that(1) unfolding wrote_def it by auto
  ultimately have "wf_file t ?p" using T(2) z sv by (simp add: wf_file_def it)
  moreover have "contents t ?p = take off (contents s ?p) @ src @ drop (off + length src) (contents s ?p)"
    unfolding contents_def
    by (rule written_contents[of "MAXFILE * BSIZE"]) (use wr le inside z in \<open>auto simp: wrote_def it\<close>)
  moreover have "fs_tx p pid {} 0 t" by (rule T(1)) (rule fs_tx_less[OF f], simp)
  ultimately show ?thesis using T(5) fstep_other[OF st _ _ ip] by (auto simp: file_written_def it)
qed

lemma write_beyond:
  fixes s t :: "'z istate_scheme"
  assumes f: "fs_tx p pid {} 25 s" and ip: "ip < length (inodes s)" and w: "wf_file s (inode_at s ip)"
    and st: "fstep p pid ip 24 8 s t" and wr: "wrote ip off src s t" and le: "off \<le> unat (i_size (inode_at s ip))"
    and beyond: "src \<noteq> []" "unat (i_size (inode_at s ip)) < off + length src" "off + length src \<le> MAXFILE * BSIZE"
  shows "\<exists>u. iupdate ip (upd_inode ip (\<lambda>p. p\<lparr>i_size := of_nat (off + length src)\<rparr>) t) = Ret () u \<and> file_written p pid ip off src s u"
proof -
  let ?p = "inode_at s ip" and ?z = "unat (i_size (inode_at s ip))" and ?e = "off + length src"
  have nh: "\<And>m. m < MAXFILE \<Longrightarrow> m * BSIZE < ?z \<Longrightarrow> fblk (view s) ?p m \<noteq> 0" using w by (auto simp: wf_file_def)
  note T = fstepD[OF st]
  have ft: "fs_tx p pid {} (0 + 1) t" using T(1)[of 1] f by (auto intro: fs_tx_less)
  have ipt: "ip < length (inodes t)" using ip T(9) by simp
  define q where "q = (inode_at t ip)\<lparr>i_size := of_nat ?e\<rparr>"
  obtain u where u: "iupdate ip (upd_inode ip (\<lambda>p. p\<lparr>i_size := of_nat ?e\<rparr>) t) = Ret () u" "inode_at u ip = q" "fs_tx p pid {} 0 u"
    "disk u = disk t" "same_dinode (saved u (i_inum q) q) q" "file_ok u q" "\<forall>n. fblk (view u) q n = fblk (view t) q n"
    "\<forall>j < MAXFILE * BSIZE. fbyte (view u) q j = fbyte (view t) q j"
    "\<forall>r. wf_file t r \<and> apart t r q \<longrightarrow> wf_file u r \<and> contents u r = contents t r \<and> apart u r q"
    using iupdate_file[OF ft ipt T(2), of "of_nat ?e", folded q_def] by blast
  have e: "unat (i_size q) = ?e" unfolding q_def using beyond(3) unat_of_nat_small[of ?e] by (simp add: MAXFILE_BSIZE del: of_nat_add)
  have "fblk (view t) (inode_at t ip) m \<noteq> 0" if m: "m < MAXFILE" "m * BSIZE < ?e" for m
  proof (cases "m * BSIZE < ?z")
    case True
    then show ?thesis using wr nh[OF m(1)] m(1) unfolding wrote_def by auto
  next
    case False
    then have "off div BSIZE \<le> m" using le div_le_mono[of off "m * BSIZE" BSIZE] by (simp add: BSIZE_def)
    then have "m \<in> span off (length src)" using m beyond(1) by (simp add: span_def)
    then show ?thesis using wr unfolding wrote_def by blast
  qed
  then have "wf_file u q" using u(5-7) e beyond(3) by (simp add: wf_file_def q_def)
  moreover have "contents u q = take off (contents s ?p) @ src @ drop ?e (contents s ?p)"
    unfolding contents_def e
    by (rule written_contents[of "MAXFILE * BSIZE"]) (use wr u(8) le beyond in \<open>auto simp: wrote_def q_def\<close>)
  moreover have "wf_file u r \<and> contents u r = contents s r \<and> apart u r q" if "wf_file s r" "apart s r ?p" for r
    using fstep_other[OF st that ip] u(9) by (auto simp: q_def)
  ultimately show ?thesis using u(1-4) T(5) by (intro exI[of _ u]) (simp add: file_written_def)
qed

text \<open>
  C33. Writing a file. Take a transaction with room for 25 blocks in the log, at least eight free blocks, a well-formed file that is no
  device, and at most three blocks of bytes, the most that \<^verbatim>\<open>filewrite\<close> passes in one transaction. Then \<^verbatim>\<open>writei\<close> returns: it refuses an offset
  beyond the end and a write beyond the largest file size; otherwise the bytes replace those at the offset, the file
  grows as needed, its inode is stored, the file is well formed again, no other file changes, and nothing goes to the disk.
\<close>

theorem file_write:
  fixes s :: "'z istate_scheme"
  assumes f: "fs_tx p pid {} 25 s" and ip: "ip < length (inodes s)" and w: "wf_file s (inode_at s ip)" and ty: "i_type (inode_at s ip) \<noteq> T_DEV"
    and len: "length src \<le> 3 * BSIZE" and fr: "8 \<le> nfree s"
  shows "if i_size (inode_at s ip) < off \<or> MAXFILE * BSIZE < unat off + length src then writei ip src off s = Ret (- 1) s
    else ok (writei ip src off) s (\<lambda>r t. r = int (length src) \<and> file_written p pid ip (unat off) src s t)"
proof -
  let ?p = "inode_at s ip" and ?z = "unat (i_size (inode_at s ip))" and ?n = "of_nat (length src) :: uint" and ?e = "unat off + length src"
  have ok: "file_ok s ?p" and z: "?z \<le> 71680" using w by (auto simp: wf_file_def MAXFILE_BSIZE)
  have n: "unat ?n = length src" by (rule unat_of_nat_small) (use len in \<open>simp add: BSIZE_def\<close>)
  have sn: "sint ?n = int (length src)" using sint_unat[of ?n] n len by (simp add: BSIZE_def)
  show ?thesis
  proof (cases "i_size ?p < off")
    case False
    then have le: "unat off \<le> ?z" by (simp add: word_less_nat_alt)
    then have u: "unat (off + ?n) = ?e" using n z len by (simp add: unat_add_mod BSIZE_def)
    then have nw: "\<not> off + ?n < off" by (simp add: word_less_nat_alt)
    have big: "of_nat (MAXFILE * BSIZE) < off + ?n \<longleftrightarrow> MAXFILE * BSIZE < ?e"
      using u by (simp add: word_less_nat_alt MAXFILE_BSIZE)
    show ?thesis
    proof (cases "MAXFILE * BSIZE < ?e")
      case True
      then show ?thesis using ty nw big False by (simp add: writei_def Let_def)
    next
      case small: False
      have "unat off mod BSIZE < BSIZE" by (simp add: BSIZE_def)
      then have ch: "unat off mod BSIZE + length src \<le> BSIZE * 4" using len by simp
      have f24: "fs_tx p pid {} (6 * 4) s" using f by (rule fs_tx_less) simp
      obtain t where t: "writei_loop ip (unat off) src s = Ret ?e t" "fstep p pid ip (6 * 4) (2 * 4) s t" "wrote ip (unat off) src s t"
        using writei_loop_run[OF f24 ok ip _ ch] fr small by auto
      have st: "fstep p pid ip 24 8 s t" using t(2) by simp
      have sz: "i_size (inode_at t ip) = i_size ?p" using st ip unfolding fstep_def by auto
      have cmp: "i_size ?p < of_nat ?e \<longleftrightarrow> ?z < ?e"
        using small unat_of_nat_small[of ?e] by (simp add: word_less_nat_alt MAXFILE_BSIZE)
      show ?thesis
      proof (cases "src \<noteq> [] \<and> ?z < ?e")
        case True
        obtain u where u: "iupdate ip (upd_inode ip (\<lambda>p. p\<lparr>i_size := of_nat ?e\<rparr>) t) = Ret () u" "file_written p pid ip (unat off) src s u"
          using write_beyond[OF f ip w st t(3) le] True small by auto
        have "writei ip src off s = Ret (int (length src)) u"
          using ty nw big small False True t(1) sz cmp u(1) sn by (simp add: writei_def Let_def kbind_def)
        then show ?thesis using u(2) False small by (simp add: ok_def)
      next
        case inside: False
        then have "file_written p pid ip (unat off) src s t" using write_inside[OF f ip w st t(3) le] by auto
        moreover have "writei ip src off s = Ret (int (length src)) t"
          using ty nw big small False inside t(1) sz cmp sn by (auto simp: writei_def Let_def kbind_def)
        ultimately show ?thesis using False small by (simp add: ok_def)
      qed
    qed
  qed (use ty in \<open>simp add: writei_def Let_def\<close>)
qed


subsection \<open>An example\<close>

lemma fs_tx_disk:
  fixes s :: "'z istate_scheme"
  assumes f: "fs_tx p pid {} k s" and c: "\<And>i. \<not> cached_at s c i" "c \<notin> bitmap s" "c \<noteq> word_of_int (lg_start s)" and d: "length d = BSIZE"
  defines "t \<equiv> s\<lparr>disk := (disk s)(c := d)\<rparr>"
  shows "fs_tx p pid {} k t" "view t = (view s)(c := d)" "b < sb_size (sb s) \<Longrightarrow> used t b = used s b"
proof -
  note F = f[unfolded fs_tx_def]
  have ca: "cached_at t = cached_at s" by (simp add: t_def cached_at_def[abs_def])
  have v: "view t b = ((view s)(c := d)) b" for b
  proof (cases "b = c")
    case True
    have "find (cached_at s c) [0..<NBUF] = None" using c(1) by (simp add: find_None_iff)
    then show ?thesis using True by (simp add: view_def ca) (simp add: t_def)
  qed (simp add: view_def ca, simp add: t_def split: option.splits)
  then show vt: "view t = (view s)(c := d)" by (rule ext)
  have sb: "sb t = sb s" "bitmap t = bitmap s" "iblocks t = iblocks s" "meta t = meta s" "disksize t = disksize s" "lg_start t = lg_start s"
    by (simp_all add: t_def bitmap_def iblocks_def meta_def)
  show us: "used t b = used s b" if "b < sb_size (sb s)" for b
    using in_bitmap[OF that] c(2) by (auto simp: used_def vt sb)
  have "buf_ok (disk t) (disksize t) (i \<in> {}) (buf_at t i)" if "i < NBUF" "buf_ok (disk s) (disksize s) (i \<in> {}) (buf_at s i)" for i
    using that c(1)[of i] by (auto simp: buf_ok_def t_def cached_at_def)
  then have ci: "cache_inv p pid {} t" using F unfolding tx_def cache_inv_def by (auto simp: t_def on_cpu_def)
  have dt: "dirty t = dirty s" by (simp add: dirty_def[abs_def] ca) (simp add: t_def)
  have "tx p pid {} t" using F ci c(3) unfolding tx_def dt by (simp add: t_def)
  moreover have "fs_ok t" using F us d by (auto simp: fs_ok_def sb vt)
  ultimately show "fs_tx p pid {} k t" using F by (simp add: fs_tx_def t_def)
qed

text \<open>A file of three bytes in block 60; its inode is number 5, in block 32.\<close>

definition abc_ino :: inode where
  "abc_ino = example_ino\<lparr>i_size := 3, i_addrs := 60 # replicate 12 0\<rparr>"

definition abc_block :: "uchar list" where
  "abc_block = [97, 98, 99] @ replicate 509 0"

definition abc_fs :: fstate where
  "abc_fs = example_fs\<lparr>disk := (disk example_fs)(32 := put_dinode abc_ino (replicate BSIZE 0) 320),
     disk := (disk example_fs)(32 := put_dinode abc_ino (replicate BSIZE 0) 320, 60 := abc_block), inodes := [abc_ino]\<rparr>"

lemma abc_fs_state:
  "fs_tx 0 1 {} 26 abc_fs" "view abc_fs = (view example_fs)(32 := put_dinode abc_ino (replicate BSIZE 0) 320, 60 := abc_block)"
  "b < 1000 \<Longrightarrow> used abc_fs b = used example_fs b"
proof -
  let ?d = "put_dinode abc_ino (replicate BSIZE 0) 320"
  let ?s = "example_fs\<lparr>disk := (disk example_fs)(32 := ?d)\<rparr>"
  have s: "abc_fs = ?s\<lparr>disk := (disk ?s)(60 := abc_block)\<rparr>\<lparr>inodes := [abc_ino]\<rparr>" by (simp add: abc_fs_def)
  have n: "(32 :: uint) \<noteq> word_of_int (lg_start example_fs)" "32 \<notin> bitmap example_fs" "length ?d = BSIZE" by (simp_all add: example_fs_bm BSIZE_def)
  note A = fs_tx_disk[OF example_fs_tx example_fs_cached n(2,1,3)]
  have m: "\<not> cached_at ?s c i" for c i using example_fs_cached[of c i] by (simp add: cached_at_def)
  have n': "60 \<notin> bitmap ?s" "(60 :: uint) \<noteq> word_of_int (lg_start ?s)" "length abc_block = BSIZE"
    using example_fs_bm by (simp_all add: bitmap_def abc_block_def BSIZE_def)
  note B = fs_tx_disk[OF A(1) m n']
  show "fs_tx 0 1 {} 26 abc_fs" unfolding s using B(1) by simp
  show "view abc_fs = (view example_fs)(32 := ?d, 60 := abc_block)" unfolding s using B(2) A(2) by simp
  show "used abc_fs b = used example_fs b" if "b < 1000" unfolding s using B(3)[of b] A(3)[of b] that by simp
qed

lemma abc_fblk: "fblk v abc_ino n = (if n = 0 then 60 else 0)"
  by (auto simp: fblk_def abc_ino_def NDIRECT_def nth_Cons split: nat.splits)

lemma abc_owned: "owned abc_fs abc_ino b \<longleftrightarrow> b = 60"
  unfolding owned_def abc_fblk by (auto simp: abc_ino_def NDIRECT_def MAXFILE_def)

lemma abc_sb: "sb abc_fs = sb example_fs" "inodes abc_fs = [abc_ino]" "lg_start abc_fs = 2"
  by (simp_all add: abc_fs_def)

lemma abc_dblock: "dblock abc_fs 60"
proof -
  have "bitmap abc_fs = {58}" "iblocks abc_fs = iblocks example_fs"
    using example_fs_bm by (simp_all add: bitmap_def iblocks_def abc_sb)
  then have "60 \<notin> meta abc_fs" using example_fs_iblocks[of 60] example_fs_log[of 60] by (auto simp: meta_def abc_sb word_less_def)
  then show ?thesis using abc_fs_state(3)[of 60] example_fs_used[of 60]
    by (simp add: dblock_def abc_sb abc_fs_state(2) abc_block_def BSIZE_def word_less_def)
qed

lemma abc_wf: "wf_file abc_fs (inode_at abc_fs 0)" and abc_contents: "contents abc_fs (inode_at abc_fs 0) = [97, 98, 99]"
proof -
  have at: "inode_at abc_fs 0 = abc_ino" by (simp add: abc_sb)
  have a: "i_dev abc_ino = 1" "i_inum abc_ino = 5" "length (i_addrs abc_ino) = NDIRECT + 1" "i_addrs abc_ino ! NDIRECT = 0" "unat (i_size abc_ino) = 3"
    by (simp_all add: abc_ino_def example_ino_def NDIRECT_def)
  have "IBLOCK 5 (sb abc_fs) = 32" "dip_off 5 = 320" by (simp_all add: abc_sb IBLOCK_def dip_off_def IPB_def BSIZE_def word_eq_iff_unsigned unat_div)
  then have "same_dinode (saved abc_fs 5 abc_ino) abc_ino"
    using get_put_dinode[of 320 "replicate BSIZE 0" abc_ino abc_ino] a(3) by (simp add: saved_def abc_fs_state(2) BSIZE_def)
  moreover have "file_ok abc_fs abc_ino" using abc_dblock a unfolding file_ok_def abc_fblk by (auto simp: abc_owned abc_sb word_less_def)
  ultimately show "wf_file abc_fs (inode_at abc_fs 0)" unfolding wf_file_def at a abc_fblk MAXFILE_BSIZE by (auto simp: BSIZE_def)
  show "contents abc_fs (inode_at abc_fs 0) = [97, 98, 99]"
    unfolding contents_def at a fbyte_def abc_fblk by (simp add: upt_rec BSIZE_def abc_fs_state(2) abc_block_def nth_append)
qed

lemma abc_free: "8 \<le> nfree abc_fs"
proof -
  let ?F = "{b. b < sb_size (sb abc_fs) \<and> \<not> used abc_fs b}" and ?E = "{64, 65, 66, 67, 68, 69, 70, 71} :: uint set"
  have "?E \<subseteq> ?F" using abc_fs_state(3) example_fs_used by (auto simp: abc_sb word_less_def)
  then have "card ?E \<le> card ?F" by (intro card_mono) simp_all
  then show ?thesis by (simp add: nfree_def)
qed


theorem file_write_witness:
  "ok (writei 0 [120, 121] 2) abc_fs (\<lambda>r t. r = 2 \<and> contents t (inode_at t 0) = [97, 98, 120, 121]) \<and>
   writei 0 [120, 121] 4 abc_fs = Ret (- 1) abc_fs"
proof -
  have z: "i_size (inode_at abc_fs 0) = 3" "i_type (inode_at abc_fs 0) \<noteq> T_DEV" by (simp_all add: abc_sb abc_ino_def example_ino_def T_DEV_def)
  have l: "0 < length (inodes abc_fs)" "length [120, 121 :: uchar] \<le> 3 * BSIZE" by (simp_all add: abc_sb BSIZE_def)
  have f: "fs_tx 0 1 {} 25 abc_fs" by (rule fs_tx_less[OF abc_fs_state(1)]) simp
  show ?thesis
    using file_write[OF f l(1) abc_wf z(2) l(2) abc_free, of 2] file_write[OF f l(1) abc_wf z(2) l(2) abc_free, of 4]
    unfolding z(1) file_written_def abc_contents by (auto simp: word_less_def MAXFILE_BSIZE elim!: ok_mono)
qed

end
