(* ===== verification/Spec2Isabelle.thy ===== *)
theory Spec2Isabelle
  imports Xv6_Kstep Xv6_Trap Xv6_Crash Xv6_Spinlock Xv6_Pipe Xv6_Vmap Xv6_Pages Xv6_Ide Xv6_Args Xv6_Rw
begin

text \<open>
  A verification development for the xv6 kernel with the scheduling extensions of this repository.
\<close>

end
